theory Spec2Isabelle
  imports Complex_Main
begin

section \<open>Numbers and arrays of the source\<close>

text \<open>
  The engine of \<^verbatim>\<open>nn-animation-final-prod.js\<close> computes on JavaScript numbers.
  They are modelled as mathematical reals (counts and indices as \<open>nat\<close> or \<open>int\<close>):
  rounding of the floating-point operations, infinities and NaN are not part of the model.
  Every statement below about positions, distances and times is a statement about this
  exact arithmetic.
\<close>

datatype error = TypeError | RangeError

text \<open>\<^verbatim>\<open>a || d\<close> on numbers: the right operand when the left one is falsy (zero).\<close>

definition js_or :: "real \<Rightarrow> real \<Rightarrow> real" where
  "js_or a d = (if a = 0 then d else a)"

text \<open>Rounding toward zero, and the remainder \<^verbatim>\<open>a % b\<close> built on it (sign of the dividend).\<close>

definition js_trunc :: "real \<Rightarrow> int" where
  "js_trunc v = (if 0 \<le> v then \<lfloor>v\<rfloor> else \<lceil>v\<rceil>)"

definition js_rem :: "real \<Rightarrow> real \<Rightarrow> real" where
  "js_rem a b = a - b * of_int (js_trunc (a / b))"

text \<open>\<^verbatim>\<open>v | 0\<close>: truncation, then wrap-around into the signed 32-bit range.\<close>

definition js_int32 :: "real \<Rightarrow> int" where
  "js_int32 v = (let k = js_trunc v mod 4294967296 in if 2147483648 \<le> k then k - 4294967296 else k)"

definition Math_round :: "real \<Rightarrow> int" where
  "Math_round v = \<lfloor>v + 1 / 2\<rfloor>"

definition Math_hypot :: "real \<Rightarrow> real \<Rightarrow> real" where
  "Math_hypot dx dy = sqrt (dx * dx + dy * dy)"

definition clamp :: "real \<Rightarrow> real \<Rightarrow> real \<Rightarrow> real" where
  "clamp v a b = (if v < a then a else (if b < v then b else v))"

definition lerp :: "real \<Rightarrow> real \<Rightarrow> real \<Rightarrow> real" where
  "lerp a b t = a + (b - a) * t"

text \<open>Reading an array at a number: \<open>None\<close> is \<^verbatim>\<open>undefined\<close> (index out of range).\<close>

definition js_nth :: "'a list \<Rightarrow> int \<Rightarrow> 'a option" where
  "js_nth xs k = (if 0 \<le> k \<and> nat k < length xs then Some (xs ! nat k) else None)"

text \<open>
  \<^verbatim>\<open>Math.random()\<close> is a stream of numbers read front to back; the state of the generator
  is the rest of the stream. Its contract, a value in \<open>[0, 1)\<close>, is the predicate
  \<open>unit_rng\<close>.
\<close>

type_synonym rng = "nat \<Rightarrow> real"

definition Math_random :: "rng \<Rightarrow> real \<times> rng" where
  "Math_random g = (g 0, \<lambda>k. g (Suc k))"

definition unit_rng :: "rng \<Rightarrow> bool" where
  "unit_rng g = (\<forall>k. 0 \<le> g k \<and> g k < 1)"

section \<open>Configuration\<close>

record band =
  zMin :: real
  zMax :: real
  move :: bool
  headingDeg :: real

definition headingRad :: "band \<Rightarrow> real" where
  "headingRad b = headingDeg b * pi / 180"

record config =
  UPDATE_HZ :: real
  BASE_WIDTH :: real
  BASE_HEIGHT :: real
  BASE_NODE_COUNT :: real
  BASE_BG_NODE_COUNT :: real
  BASE_MAX_LINK_DISTANCE :: real
  BASE_PULSE_MAX_ACTIVE :: real
  NODE_COUNT :: real
  BG_NODE_COUNT :: real
  MOBILE_SCALE :: real
  MAX_LINK_DISTANCE :: real
  MAX_LINKS_DYNAMIC :: nat
  MAX_LINKS_STATIC :: nat
  BG_LINK_MAX_DEGREE :: nat
  BG_LINK_MAX_DISTANCE :: real
  PARALLAX_BANDS :: "band list"
  PULSE_MAX_ACTIVE :: nat
  PULSE_POOL_SIZE :: nat
  PULSE_SPEED :: real
  PULSE_SPAWN_EVERY_MS :: real
  LOOP_DURATION_MS :: real
  ELLIPSE_NEAR_CYCLES :: real
  ELLIPSE_MID_CYCLES :: real
  ELLIPSE_RADIUS_NEAR_X :: real
  ELLIPSE_RADIUS_NEAR_Y :: real
  ELLIPSE_RADIUS_MID_X :: real
  ELLIPSE_RADIUS_MID_Y :: real
  RANDOMIZE_NODE_PHASES :: bool
  STARTING_PHASE_RANDOMIZER :: real
  GLOBAL_DRIFT_RATIO :: real
  BG_DRIFT_RATIO :: real
  BG_DRIFT_SPEED_MULT :: real
  BG_DRIFT_HEADING_DEG :: real
  BG_DRIFT_PHASE :: real

text \<open>The values of the \<^verbatim>\<open>CONFIG\<close> object of the source (the keys the engine's simulation reads).\<close>

definition CONFIG :: config where
  "CONFIG = \<lparr>
     UPDATE_HZ = 30,
     BASE_WIDTH = 1440,
     BASE_HEIGHT = 900,
     BASE_NODE_COUNT = 70,
     BASE_BG_NODE_COUNT = 70,
     BASE_MAX_LINK_DISTANCE = 500,
     BASE_PULSE_MAX_ACTIVE = 1,
     NODE_COUNT = 100,
     BG_NODE_COUNT = 60,
     MOBILE_SCALE = 9 / 10,
     MAX_LINK_DISTANCE = 350,
     MAX_LINKS_DYNAMIC = 6,
     MAX_LINKS_STATIC = 5,
     BG_LINK_MAX_DEGREE = 4,
     BG_LINK_MAX_DISTANCE = 400,
     PARALLAX_BANDS =
       [\<lparr>zMin = 0, zMax = 4 / 10, move = True, headingDeg = 20\<rparr>,
        \<lparr>zMin = 4 / 10, zMax = 75 / 100, move = True, headingDeg = 160\<rparr>,
        \<lparr>zMin = 70 / 100, zMax = 1, move = False, headingDeg = 180\<rparr>],
     PULSE_MAX_ACTIVE = 4,
     PULSE_POOL_SIZE = 12,
     PULSE_SPEED = 500,
     PULSE_SPAWN_EVERY_MS = 1000,
     LOOP_DURATION_MS = 28000,
     ELLIPSE_NEAR_CYCLES = 1,
     ELLIPSE_MID_CYCLES = 1,
     ELLIPSE_RADIUS_NEAR_X = 80,
     ELLIPSE_RADIUS_NEAR_Y = 30,
     ELLIPSE_RADIUS_MID_X = 40,
     ELLIPSE_RADIUS_MID_Y = 15,
     RANDOMIZE_NODE_PHASES = True,
     STARTING_PHASE_RANDOMIZER = 15 / 100,
     GLOBAL_DRIFT_RATIO = 0,
     BG_DRIFT_RATIO = 0,
     BG_DRIFT_SPEED_MULT = 0,
     BG_DRIFT_HEADING_DEG = - 100,
     BG_DRIFT_PHASE = - 1
   \<rparr>"

text \<open>The \<^verbatim>\<open>BASELINE\<close> object, computed once from the configuration.\<close>

definition BASELINE_AREA :: "config \<Rightarrow> real" where
  "BASELINE_AREA cfg = BASE_WIDTH cfg * BASE_HEIGHT cfg"

section \<open>Data model\<close>

record node =
  n_id :: nat
  n_x :: real
  n_y :: real
  n_z :: real
  n_ox :: real
  n_oy :: real
  n_seedPhase :: real

record bgNode =
  b_x :: real
  b_y :: real
  b_z :: real

text \<open>A foreground link \<^verbatim>\<open>{ai, bi, d}\<close> and a background edge \<^verbatim>\<open>{ai, bi, weight}\<close>.\<close>

record link =
  l_ai :: nat
  l_bi :: nat
  l_d :: real

record bgEdge =
  e_ai :: nat
  e_bi :: nat
  e_weight :: real

record pulse =
  p_linkIndex :: int
  p_t :: real
  p_active :: bool
  p_dist :: real

text \<open>
  The engine object, without its canvases and sprites. \<open>pulses\<close> holds the slots
  \<open>0 ..< pulsesLen\<close> of the array \<^verbatim>\<open>this.pulses\<close>, so \<^verbatim>\<open>this.pulsesLen\<close> is its
  length: a slot at or above \<^verbatim>\<open>pulsesLen\<close> is overwritten before it is read. In the same way
  \<open>pulsePool\<close> holds the slots \<open>0 ..< _len\<close> of the pool's array, the top of the stack
  last. A pulse object is in one of the two lists at a time, so the lists hold values.
  \<open>random\<close> is the state of \<^verbatim>\<open>Math.random\<close>.
\<close>

record engine =
  resizePrevW :: real
  resizePrevH :: real
  nodes :: "node list"
  bgNodes :: "bgNode list"
  links :: "link list"
  dynamicLinks :: "nat list"
  staticLinks :: "nat list"
  bgLinks :: "bgEdge list"
  movingFlags :: "nat list"
  bgDirX :: real
  bgDirY :: real
  nodeMax :: real
  bgNodeMax :: real
  linkDistanceMax :: real
  bgLinkDistanceMax :: real
  pulseMaxActive :: real
  width :: real
  height :: real
  pulsePool :: "pulse list"
  pulses :: "pulse list"
  lastPulseSpawn :: real
  globalOffsetX :: real
  globalOffsetY :: real
  bgOffsetX :: real
  bgOffsetY :: real
  loopStart :: real
  startPhase :: real
  random :: rng

definition pulsesLen :: "engine \<Rightarrow> nat" where
  "pulsesLen e = length (pulses e)"

text \<open>\<^verbatim>\<open>this.movingFlags[i]\<close> as a condition: 1 is truthy, 0 and \<^verbatim>\<open>undefined\<close> are falsy.\<close>

definition moving :: "nat list \<Rightarrow> nat \<Rightarrow> bool" where
  "moving flags i = (i < length flags \<and> flags ! i \<noteq> 0)"

section \<open>Object pool\<close>

definition createPulse :: pulse where
  "createPulse = \<lparr>p_linkIndex = - 1, p_t = 0, p_active = False, p_dist = 1\<rparr>"

definition resetPulse :: "pulse \<Rightarrow> pulse" where
  "resetPulse p = p\<lparr>p_linkIndex := - 1, p_t := 0, p_active := False, p_dist := 1\<rparr>"

text \<open>\<^verbatim>\<open>new ObjectPool(create, reset, initialSize)\<close>, \<^verbatim>\<open>get()\<close> and \<^verbatim>\<open>release(obj)\<close>.\<close>

definition newPool :: "nat \<Rightarrow> pulse list" where
  "newPool initialSize = replicate initialSize createPulse"

definition pool_get :: "pulse list \<Rightarrow> pulse \<times> pulse list" where
  "pool_get pool = (if 0 < length pool then (last pool, butlast pool) else (createPulse, pool))"

definition pool_release :: "pulse list \<Rightarrow> pulse \<Rightarrow> pulse list" where
  "pool_release pool obj = pool @ [resetPulse obj]"

section \<open>The simulation step\<close>

text \<open>
  \<^verbatim>\<open>_update(dt_ms, now)\<close>, in the order of the source: the loop angle, the drift offsets,
  the orbits of the moving nodes, the spawn of a pulse, the advance of the live pulses.
  The configuration has no key \<^verbatim>\<open>ELLIPSE_NEAR_DIRECTION\<close>, \<^verbatim>\<open>ELLIPSE_MID_DIRECTION\<close>,
  \<^verbatim>\<open>NEAR_PHASE_OFFSET_TURNS\<close> or \<^verbatim>\<open>MID_PHASE_OFFSET_TURNS\<close>: the source reads
  \<^verbatim>\<open>undefined || 1\<close> for the directions and \<^verbatim>\<open>undefined || 0\<close> for the offsets.
\<close>

definition baseTheta :: "config \<Rightarrow> engine \<Rightarrow> real \<Rightarrow> real" where
  "baseTheta cfg e now =
     js_rem (now - loopStart e) (LOOP_DURATION_MS cfg) / LOOP_DURATION_MS cfg * (pi * 2)
     + js_or (startPhase e) 0"

definition nearTheta :: "config \<Rightarrow> engine \<Rightarrow> real \<Rightarrow> real" where
  "nearTheta cfg e now = baseTheta cfg e now * js_or (ELLIPSE_NEAR_CYCLES cfg) 1 * 1 + 0 * (pi * 2)"

definition midTheta :: "config \<Rightarrow> engine \<Rightarrow> real \<Rightarrow> real" where
  "midTheta cfg e now = baseTheta cfg e now * js_or (ELLIPSE_MID_CYCLES cfg) 1 * 1 + 0 * (pi * 2)"

definition minDim :: "engine \<Rightarrow> real" where
  "minDim e = max 1 (min (width e) (height e))"

text \<open>The body of the node loop for one moving node of a layer: the ellipse around the origin.\<close>

definition orbit :: "real \<Rightarrow> real \<Rightarrow> real \<Rightarrow> real \<Rightarrow> node \<Rightarrow> node" where
  "orbit theta phi radiusX radiusY n =
     (let cosSeed = cos (n_seedPhase n);
          sinSeed = sin (n_seedPhase n);
          c = cos theta * cosSeed - sin theta * sinSeed;
          s = sin theta * cosSeed + cos theta * sinSeed;
          xOff = radiusX * c;
          yOff = radiusY * s;
          rotX = cos phi * xOff - sin phi * yOff;
          rotY = sin phi * xOff + cos phi * yOff
      in n\<lparr>n_x := n_ox n + rotX, n_y := n_oy n + rotY\<rparr>)"

definition moveNode :: "config \<Rightarrow> engine \<Rightarrow> real \<Rightarrow> band \<Rightarrow> band \<Rightarrow> nat \<Rightarrow> node \<Rightarrow> node" where
  "moveNode cfg e now band0 band1 i n =
     (let baseScale = minDim e / 900 in
      if \<not> moving (movingFlags e) i then n
      else if n_z n < js_or (zMin band1) (35 / 100)
      then orbit (nearTheta cfg e now) (js_or (headingRad band0) 0)
             (js_or (ELLIPSE_RADIUS_NEAR_X cfg) 0 * baseScale)
             (js_or (ELLIPSE_RADIUS_NEAR_Y cfg) 0 * baseScale) n
      else orbit (midTheta cfg e now) (js_or (headingRad band1) 0)
             (js_or (ELLIPSE_RADIUS_MID_X cfg) 0 * baseScale)
             (js_or (ELLIPSE_RADIUS_MID_Y cfg) 0 * baseScale) n)"

text \<open>
  The first half of \<^verbatim>\<open>_update\<close>: offsets and node positions. Reading
  \<^verbatim>\<open>CONFIG.PARALLAX_BANDS[0].headingRad\<close> or \<^verbatim>\<open>CONFIG.PARALLAX_BANDS[1]\<close> throws when
  the band is missing.
\<close>

definition updateMotion :: "config \<Rightarrow> real \<Rightarrow> engine \<Rightarrow> error + engine" where
  "updateMotion cfg now e =
     (let theta = baseTheta cfg e now;
          globalAmp = GLOBAL_DRIFT_RATIO cfg * minDim e;
          bgMagnitude = BG_DRIFT_RATIO cfg * minDim e;
          bgPhase = theta * BG_DRIFT_SPEED_MULT cfg + BG_DRIFT_PHASE cfg
      in case (js_nth (PARALLAX_BANDS cfg) 0, js_nth (PARALLAX_BANDS cfg) 1) of
           (Some band0, Some band1) \<Rightarrow>
             Inr (e\<lparr>globalOffsetX := globalAmp * sin theta,
                    globalOffsetY := globalAmp * cos (theta + 12 / 10),
                    bgOffsetX := bgDirX e * bgMagnitude * sin bgPhase,
                    bgOffsetY := bgDirY e * bgMagnitude * sin bgPhase,
                    nodes := map (\<lambda>(i, n). moveNode cfg e now band0 band1 i n)
                               (zip [0 ..< length (nodes e)] (nodes e))\<rparr>)
         | _ \<Rightarrow> Inl TypeError)"

text \<open>
  The spawn of a pulse. \<^verbatim>\<open>this.links[p.linkIndex]\<close> and \<^verbatim>\<open>this.nodes[ai]\<close> are read
  without a check: an index out of range gives \<^verbatim>\<open>undefined\<close>, whose field access throws.
\<close>

definition pickLink :: "engine \<Rightarrow> int option \<times> rng" where
  "pickLink e =
     (if 0 < length (dynamicLinks e)
      then (let (r, g) = Math_random (random e)
            in (map_option int (js_nth (dynamicLinks e) (js_int32 (r * real (length (dynamicLinks e))))), g))
      else if 0 < length (links e)
      then (let (r, g) = Math_random (random e)
            in (Some (js_int32 (r * real (length (links e)))), g))
      else (Some (- 1), random e))"

definition spawnPulse :: "config \<Rightarrow> real \<Rightarrow> engine \<Rightarrow> error + engine" where
  "spawnPulse cfg now e =
     (if PULSE_SPAWN_EVERY_MS cfg \<le> now - lastPulseSpawn e \<and> real (pulsesLen e) < pulseMaxActive e
      then (let (p, pool) = pool_get (pulsePool e);
                (linkIndex, g) = pickLink e
            in case linkIndex of
                 None \<Rightarrow> Inl TypeError
               | Some li \<Rightarrow>
                   if li \<noteq> - 1
                   then (case js_nth (links e) li of
                           None \<Rightarrow> Inl TypeError
                         | Some L \<Rightarrow>
                             (case (js_nth (nodes e) (int (l_ai L)), js_nth (nodes e) (int (l_bi L))) of
                                (Some a, Some b) \<Rightarrow>
                                  Inr (e\<lparr>pulsePool := pool,
                                         pulses := pulses e @
                                           [p\<lparr>p_linkIndex := li,
                                              p_dist := max 1 (Math_hypot (n_x b - n_x a) (n_y b - n_y a)),
                                              p_t := 0,
                                              p_active := True\<rparr>],
                                         lastPulseSpawn := now,
                                         random := g\<rparr>)
                              | _ \<Rightarrow> Inl TypeError))
                   else Inr (e\<lparr>pulsePool := pool_release pool (p\<lparr>p_linkIndex := li\<rparr>), random := g\<rparr>))
      else Inr e)"

text \<open>
  The advance loop: \<open>kept\<close> is the prefix \<open>0 ..< j\<close> that the loop compacts the survivors
  into. An inactive pulse is skipped: neither kept nor released.
\<close>

fun advancePulses :: "real \<Rightarrow> pulse list \<Rightarrow> pulse list \<Rightarrow> pulse list \<Rightarrow> pulse list \<times> pulse list" where
  "advancePulses tInc [] kept pool = (kept, pool)"
| "advancePulses tInc (p # ps) kept pool =
     (if \<not> p_active p then advancePulses tInc ps kept pool
      else (let p' = p\<lparr>p_t := p_t p + tInc / p_dist p\<rparr>
            in if 1 \<le> p_t p'
               then advancePulses tInc ps kept (pool_release pool p')
               else advancePulses tInc ps (kept @ [p']) pool))"

definition advance :: "config \<Rightarrow> real \<Rightarrow> engine \<Rightarrow> engine" where
  "advance cfg dt_ms e =
     (let tInc = PULSE_SPEED cfg * (dt_ms / 1000);
          (kept, pool) = advancePulses tInc (pulses e) [] (pulsePool e)
      in e\<lparr>pulses := kept, pulsePool := pool\<rparr>)"

definition update :: "config \<Rightarrow> real \<Rightarrow> real \<Rightarrow> engine \<Rightarrow> error + engine" where
  "update cfg dt_ms now e =
     (case updateMotion cfg now e of
        Inl err \<Rightarrow> Inl err
      | Inr e1 \<Rightarrow>
          (case spawnPulse cfg now e1 of
             Inl err \<Rightarrow> Inl err
           | Inr e2 \<Rightarrow> Inr (advance cfg dt_ms e2)))"

section \<open>Graph construction\<close>

text \<open>
  \<^verbatim>\<open>shuffleArray\<close>: the loop runs \<open>i\<close> from the last index down to 1 and swaps the
  slots \<open>i\<close> and \<open>j = (Math.random() * (i + 1)) | 0\<close>. Under the contract of
  \<^verbatim>\<open>Math.random\<close> the index \<open>j\<close> is in \<open>0 .. i\<close>.
\<close>

fun shuffleLoop :: "nat \<Rightarrow> nat list \<Rightarrow> rng \<Rightarrow> nat list \<times> rng" where
  "shuffleLoop 0 arr g = (arr, g)"
| "shuffleLoop (Suc k) arr g =
     (let i = Suc k;
          (r, g') = Math_random g;
          j = nat (js_int32 (r * real (i + 1)))
      in shuffleLoop k (arr[i := arr ! j, j := arr ! i]) g')"

definition shuffleArray :: "nat list \<Rightarrow> rng \<Rightarrow> nat list \<times> rng" where
  "shuffleArray arr g = shuffleLoop (length arr - 1) arr g"

text \<open>The degree cap of a node: \<^verbatim>\<open>this.movingFlags[i] ? MAX_LINKS_DYNAMIC : MAX_LINKS_STATIC\<close>.\<close>

definition linkCap :: "config \<Rightarrow> nat list \<Rightarrow> nat \<Rightarrow> nat" where
  "linkCap cfg flags i = (if moving flags i then MAX_LINKS_DYNAMIC cfg else MAX_LINKS_STATIC cfg)"

text \<open>\<^verbatim>\<open>degrees[i]++\<close> on an \<^verbatim>\<open>Int16Array\<close>: the value wraps from 32767 to -32768.\<close>

definition inc16 :: "int \<Rightarrow> int" where
  "inc16 v = (if v = 32767 then - 32768 else v + 1)"

text \<open>
  The key \<^verbatim>\<open>`${i}-${j}`\<close> of the set \<^verbatim>\<open>seen\<close>, smaller index first, is the pair of the
  two indices: the decimal strings of two naturals around a dash determine them.
\<close>

definition linkKey :: "nat \<Rightarrow> nat \<Rightarrow> nat \<times> nat" where
  "linkKey i j = (if i < j then (i, j) else (j, i))"

definition nodeDist :: "node \<Rightarrow> node \<Rightarrow> real" where
  "nodeDist a b = Math_hypot (n_x a - n_x b) (n_y a - n_y b)"

record candidate =
  c_j :: nat
  c_dist :: real
  c_weight :: real

text \<open>The state of \<^verbatim>\<open>_buildLinks\<close>: its local arrays and the generator.\<close>

record linkBuild =
  lb_degrees :: "int list"
  lb_links :: "link list"
  lb_seen :: "(nat \<times> nat) set"
  lb_random :: rng

text \<open>The inner loop over \<open>j\<close> that collects the candidates of node \<open>i\<close>.\<close>

fun collectCandidates ::
  "config \<Rightarrow> node list \<Rightarrow> nat list \<Rightarrow> real \<Rightarrow> int list \<Rightarrow> (nat \<times> nat) set \<Rightarrow> nat \<Rightarrow>
   nat list \<Rightarrow> candidate list \<Rightarrow> rng \<Rightarrow> candidate list \<times> rng" where
  "collectCandidates cfg ns flags maxDist degrees seen i [] cands g = (cands, g)"
| "collectCandidates cfg ns flags maxDist degrees seen i (j # js) cands g =
     (if j = i then collectCandidates cfg ns flags maxDist degrees seen i js cands g
      else if linkKey i j \<in> seen then collectCandidates cfg ns flags maxDist degrees seen i js cands g
      else (let dist = nodeDist (ns ! i) (ns ! j) in
        if maxDist < dist \<or> dist = 0 then collectCandidates cfg ns flags maxDist degrees seen i js cands g
        else if int (linkCap cfg flags j) \<le> degrees ! j
        then collectCandidates cfg ns flags maxDist degrees seen i js cands g
        else (let (r, g') = Math_random g;
                  weight = (1 / (dist powr (12 / 10))) * (1 + r * (8 / 100))
              in collectCandidates cfg ns flags maxDist degrees seen i js
                   (cands @ [\<lparr>c_j = j, c_dist = dist, c_weight = weight\<rparr>]) g')))"

text \<open>The loop over the sorted candidates that connects node \<open>i\<close>.\<close>

fun connectCandidates :: "config \<Rightarrow> nat list \<Rightarrow> nat \<Rightarrow> candidate list \<Rightarrow> linkBuild \<Rightarrow> linkBuild" where
  "connectCandidates cfg flags i [] b = b"
| "connectCandidates cfg flags i (entry # rest) b =
     (let j = c_j entry in
      if linkKey i j \<in> lb_seen b then connectCandidates cfg flags i rest b
      else if int (linkCap cfg flags i) \<le> lb_degrees b ! i \<or> int (linkCap cfg flags j) \<le> lb_degrees b ! j
      then connectCandidates cfg flags i rest b
      else connectCandidates cfg flags i rest
             (let d1 = (lb_degrees b)[i := inc16 (lb_degrees b ! i)];
                  d2 = d1[j := inc16 (d1 ! j)]
              in b\<lparr>lb_links := lb_links b @ [\<lparr>l_ai = i, l_bi = j, l_d = c_dist entry\<rparr>],
                    lb_seen := insert (linkKey i j) (lb_seen b),
                    lb_degrees := d2\<rparr>))"

text \<open>
  The outer loop over the shuffled indices. \<^verbatim>\<open>candidates.sort((a, b) => b.weight - a.weight)\<close>
  is a stable sort by descending weight.
\<close>

fun buildLoop :: "config \<Rightarrow> node list \<Rightarrow> nat list \<Rightarrow> real \<Rightarrow> nat list \<Rightarrow> linkBuild \<Rightarrow> linkBuild" where
  "buildLoop cfg ns flags maxDist [] b = b"
| "buildLoop cfg ns flags maxDist (i # indices) b =
     (if int (linkCap cfg flags i) \<le> lb_degrees b ! i then buildLoop cfg ns flags maxDist indices b
      else (let (candidates, g) =
                  collectCandidates cfg ns flags maxDist (lb_degrees b) (lb_seen b) i [0 ..< length ns] [] (lb_random b)
            in if candidates = [] then buildLoop cfg ns flags maxDist indices (b\<lparr>lb_random := g\<rparr>)
               else buildLoop cfg ns flags maxDist indices
                      (connectCandidates cfg flags i (sort_key (\<lambda>c. - c_weight c) candidates)
                         (b\<lparr>lb_random := g\<rparr>))))"

definition linkIsDynamic :: "nat list \<Rightarrow> link \<Rightarrow> bool" where
  "linkIsDynamic flags L = (moving flags (l_ai L) \<or> moving flags (l_bi L))"

definition buildLinks :: "config \<Rightarrow> engine \<Rightarrow> engine" where
  "buildLinks cfg e =
     (let n = length (nodes e);
          (indices, g) = shuffleArray [0 ..< n] (random e);
          b = buildLoop cfg (nodes e) (movingFlags e) (linkDistanceMax e) indices
                \<lparr>lb_degrees = replicate n 0, lb_links = [], lb_seen = {}, lb_random = g\<rparr>;
          ls = lb_links b
      in e\<lparr>links := ls,
            staticLinks := filter (\<lambda>idx. \<not> linkIsDynamic (movingFlags e) (ls ! idx)) [0 ..< length ls],
            dynamicLinks := filter (\<lambda>idx. linkIsDynamic (movingFlags e) (ls ! idx)) [0 ..< length ls],
            random := lb_random b\<rparr>)"

text \<open>\<^verbatim>\<open>_buildBgLinks\<close>: all pairs \<open>i < j\<close> within reach, sorted, then taken under the degree cap.\<close>

definition bgDegreeCap :: "config \<Rightarrow> nat" where
  "bgDegreeCap cfg = max 1 (min (BG_LINK_MAX_DEGREE cfg) (MAX_LINKS_STATIC cfg))"

definition bgDist :: "bgNode \<Rightarrow> bgNode \<Rightarrow> real" where
  "bgDist a b = Math_hypot (b_x a - b_x b) (b_y a - b_y b)"

fun collectBgEdges :: "bgNode list \<Rightarrow> real \<Rightarrow> (nat \<times> nat) list \<Rightarrow> bgEdge list \<Rightarrow> rng \<Rightarrow> bgEdge list \<times> rng" where
  "collectBgEdges bs maxDist [] edges g = (edges, g)"
| "collectBgEdges bs maxDist ((i, j) # pairs) edges g =
     (let dist = bgDist (bs ! i) (bs ! j) in
      if maxDist < dist \<or> dist = 0 then collectBgEdges bs maxDist pairs edges g
      else (let (r, g') = Math_random g;
                weight = (1 / (dist powr (12 / 10))) * (1 + r * (5 / 100))
            in collectBgEdges bs maxDist pairs (edges @ [\<lparr>e_ai = i, e_bi = j, e_weight = weight\<rparr>]) g'))"

fun takeBgEdges :: "nat \<Rightarrow> bgEdge list \<Rightarrow> int list \<Rightarrow> bgEdge list \<Rightarrow> bgEdge list" where
  "takeBgEdges degreeCap [] deg bgl = bgl"
| "takeBgEdges degreeCap (edge # edges) deg bgl =
     (if int degreeCap \<le> deg ! e_ai edge \<or> int degreeCap \<le> deg ! e_bi edge
      then takeBgEdges degreeCap edges deg bgl
      else (let d1 = deg[e_ai edge := inc16 (deg ! e_ai edge)];
                d2 = d1[e_bi edge := inc16 (d1 ! e_bi edge)]
            in takeBgEdges degreeCap edges d2 (bgl @ [edge])))"

definition bgPairs :: "nat \<Rightarrow> (nat \<times> nat) list" where
  "bgPairs m = concat (map (\<lambda>i. map (\<lambda>j. (i, j)) [Suc i ..< m]) [0 ..< m])"

definition buildBgLinks :: "config \<Rightarrow> engine \<Rightarrow> engine" where
  "buildBgLinks cfg e =
     (let m = length (bgNodes e);
          (edges, g) = collectBgEdges (bgNodes e) (bgLinkDistanceMax e) (bgPairs m) [] (random e)
      in e\<lparr>bgLinks := takeBgEdges (bgDegreeCap cfg) (sort_key (\<lambda>edge. - e_weight edge) edges) (replicate m 0) [],
            random := g\<rparr>)"

section \<open>Poisson-disc sampling\<close>

record sample =
  s_x :: real
  s_y :: real

text \<open>
  The arrays of \<^verbatim>\<open>poisson\<close>. The grid is read and written at computed indices; a cell
  that holds \<^verbatim>\<open>null\<close>, or lies outside the array, is \<open>None\<close>.
\<close>

record sampler =
  ps_grid :: "int \<Rightarrow> sample option"
  ps_active :: "sample list"
  ps_samples :: "sample list"
  ps_random :: rng

definition cellSize :: "real \<Rightarrow> real" where
  "cellSize r = r / sqrt 2"

definition gridW :: "real \<Rightarrow> real \<Rightarrow> int" where
  "gridW w r = \<lceil>w / cellSize r\<rceil>"

definition gridH :: "real \<Rightarrow> real \<Rightarrow> int" where
  "gridH h r = \<lceil>h / cellSize r\<rceil>"

definition inBounds :: "real \<Rightarrow> real \<Rightarrow> real \<Rightarrow> real \<Rightarrow> bool" where
  "inBounds w h x y = (0 \<le> x \<and> x < w \<and> 0 \<le> y \<and> y < h)"

definition gridIndex :: "real \<Rightarrow> real \<Rightarrow> real \<Rightarrow> real \<Rightarrow> int" where
  "gridIndex w r x y = \<lfloor>y / cellSize r\<rfloor> * gridW w r + \<lfloor>x / cellSize r\<rfloor>"

text \<open>\<^verbatim>\<open>farEnough\<close>: the two loops over the 5 by 5 window of cells, clipped to the grid.\<close>

definition farEnough :: "real \<Rightarrow> real \<Rightarrow> real \<Rightarrow> (int \<Rightarrow> sample option) \<Rightarrow> real \<Rightarrow> real \<Rightarrow> bool" where
  "farEnough w h r grid x y =
     (let gi = \<lfloor>x / cellSize r\<rfloor>;
          gj = \<lfloor>y / cellSize r\<rfloor>
      in list_all (\<lambda>j. list_all (\<lambda>i.
           (case grid (j * gridW w r + i) of
              None \<Rightarrow> True
            | Some s \<Rightarrow> (let dx = s_x s - x; dy = s_y s - y in \<not> dx * dx + dy * dy < r * r)))
           [max 0 (gi - 2) .. min (gridW w r - 1) (gi + 2)])
         [max 0 (gj - 2) .. min (gridH h r - 1) (gj + 2)])"

definition addSample :: "real \<Rightarrow> real \<Rightarrow> real \<Rightarrow> real \<Rightarrow> sampler \<Rightarrow> sampler" where
  "addSample w r x y st =
     (let s = \<lparr>s_x = x, s_y = y\<rparr>
      in st\<lparr>ps_samples := ps_samples st @ [s],
             ps_active := ps_active st @ [s],
             ps_grid := (ps_grid st)(gridIndex w r x y := Some s)\<rparr>)"

text \<open>The loop of at most \<open>k\<close> candidates around the sample \<open>s\<close>; the first that fits is returned.\<close>

fun tryPlace ::
  "real \<Rightarrow> real \<Rightarrow> real \<Rightarrow> (int \<Rightarrow> sample option) \<Rightarrow> sample \<Rightarrow> nat \<Rightarrow> rng \<Rightarrow> (real \<times> real) option \<times> rng" where
  "tryPlace w h r grid s 0 g = (None, g)"
| "tryPlace w h r grid s (Suc n) g =
     (let (r1, g1) = Math_random g;
          a = r1 * pi * 2;
          (r2, g2) = Math_random g1;
          rr = r * (1 + r2);
          x = s_x s + cos a * rr;
          y = s_y s + sin a * rr
      in if inBounds w h x y \<and> farEnough w h r grid x y
         then (Some (x, y), g2)
         else tryPlace w h r grid s n g2)"

text \<open>
  The loop \<^verbatim>\<open>while (active.length)\<close>. It has no bound of its own: a run that does not
  end is the value \<open>None\<close>. \<^verbatim>\<open>active[idx]\<close> outside the array is \<^verbatim>\<open>undefined\<close>, whose
  field access throws.
\<close>

partial_function (option) poissonLoop ::
  "real \<Rightarrow> real \<Rightarrow> real \<Rightarrow> nat \<Rightarrow> sampler \<Rightarrow> (error + sample list \<times> rng) option" where
  "poissonLoop w h r k st =
     (if ps_active st = [] then Some (Inr (ps_samples st, ps_random st))
      else (let (r0, g0) = Math_random (ps_random st);
                idx = js_int32 (r0 * real (length (ps_active st)))
            in case js_nth (ps_active st) idx of
                 None \<Rightarrow> Some (Inl TypeError)
               | Some s \<Rightarrow>
                   (case tryPlace w h r (ps_grid st) s k g0 of
                      (Some (x, y), g1) \<Rightarrow>
                        poissonLoop w h r k (addSample w r x y (st\<lparr>ps_random := g1\<rparr>))
                    | (None, g1) \<Rightarrow>
                        poissonLoop w h r k
                          (st\<lparr>ps_active := take (nat idx) (ps_active st) @ drop (Suc (nat idx)) (ps_active st),
                               ps_random := g1\<rparr>))))"

text \<open>
  \<^verbatim>\<open>poisson(width, height, r, maxTries)\<close>. \<^verbatim>\<open>new Array(gridW * gridH)\<close> throws a
  RangeError unless the product is an array length, and for \<open>r = 0\<close> the product is
  infinite or NaN.
\<close>

definition poisson :: "real \<Rightarrow> real \<Rightarrow> real \<Rightarrow> nat \<Rightarrow> rng \<Rightarrow> (error + sample list \<times> rng) option" where
  "poisson w h r maxTries g =
     (if r = 0 \<or> gridW w r * gridH h r < 0 \<or> 4294967296 \<le> gridW w r * gridH h r
      then Some (Inl RangeError)
      else poissonLoop w h r maxTries
             (addSample w r (w / 2) (h / 2)
                \<lparr>ps_grid = (\<lambda>c. None), ps_active = [], ps_samples = [], ps_random = g\<rparr>))"

section \<open>Layout\<close>

definition applyResponsiveScaling :: "config \<Rightarrow> real \<Rightarrow> real \<Rightarrow> engine \<Rightarrow> engine" where
  "applyResponsiveScaling cfg w h e =
     (let area = max 1 (w * h);
          kA = area / BASELINE_AREA cfg;
          kL = sqrt kA
      in e\<lparr>nodeMax := clamp (of_int (Math_round (BASE_NODE_COUNT cfg * kA))) 16 (NODE_COUNT cfg),
            bgNodeMax := clamp (of_int (Math_round (BASE_BG_NODE_COUNT cfg * kA))) 12 (BG_NODE_COUNT cfg),
            linkDistanceMax := max 80 (of_int (Math_round (BASE_MAX_LINK_DISTANCE cfg * kL))),
            pulseMaxActive := clamp (of_int (Math_round (BASE_PULSE_MAX_ACTIVE cfg * kL))) 1 (real (PULSE_MAX_ACTIVE cfg)),
            bgLinkDistanceMax := max 60 (of_int (Math_round (BG_LINK_MAX_DISTANCE cfg * kL)))\<rparr>)"

definition getTargetCounts :: "config \<Rightarrow> engine \<Rightarrow> int \<times> int" where
  "getTargetCounts cfg e =
     (let scale = (if min (width e) (height e) < 900 then MOBILE_SCALE cfg else 1);
          nodeCount = max 16 (Math_round (nodeMax e * scale));
          bgCount = max 12 (Math_round (bgNodeMax e * scale))
      in (nodeCount, bgCount))"

text \<open>\<^verbatim>\<open>_bandForZ\<close>: the first band whose range holds \<open>z\<close>, else the last band (\<open>None\<close>: no band at all).\<close>

definition bandForZ :: "config \<Rightarrow> real \<Rightarrow> band option" where
  "bandForZ cfg z =
     (case find (\<lambda>b. zMin b \<le> z \<and> z < zMax b) (PARALLAX_BANDS cfg) of
        Some b \<Rightarrow> Some b
      | None \<Rightarrow> js_nth (PARALLAX_BANDS cfg) (int (length (PARALLAX_BANDS cfg)) - 1))"

text \<open>\<^verbatim>\<open>pts[i % pts.length] || { x: Math.random() * width, y: Math.random() * height }\<close>.\<close>

definition basePoint :: "sample list \<Rightarrow> nat \<Rightarrow> real \<Rightarrow> real \<Rightarrow> rng \<Rightarrow> sample \<times> rng" where
  "basePoint pts i w h g =
     (if pts \<noteq> [] then (pts ! (i mod length pts), g)
      else (let (r1, g1) = Math_random g; (r2, g2) = Math_random g1
            in (\<lparr>s_x = r1 * w, s_y = r2 * h\<rparr>, g2)))"

text \<open>The loop of \<^verbatim>\<open>_setupNodesEven\<close> over the foreground nodes, from index \<open>i\<close> for \<open>count\<close> nodes.\<close>

fun makeNodes ::
  "config \<Rightarrow> real \<Rightarrow> real \<Rightarrow> real \<Rightarrow> sample list \<Rightarrow> nat \<Rightarrow> nat \<Rightarrow> rng \<Rightarrow> error + (node list \<times> nat list \<times> rng)" where
  "makeNodes cfg w h spacing pts i 0 g = Inr ([], [], g)"
| "makeNodes cfg w h spacing pts i (Suc count) g =
     (let (basePt, g0) = basePoint pts i w h g;
          (r1, g1) = Math_random g0;
          jitterR = spacing * (2 / 10) * r1;
          (r2, g2) = Math_random g1;
          jitterA = r2 * pi * 2;
          px = clamp (s_x basePt + cos jitterA * jitterR) 0 w;
          py = clamp (s_y basePt + sin jitterA * jitterR) 0 h;
          (z, g3) = Math_random g2
      in case bandForZ cfg z of
           None \<Rightarrow> Inl TypeError
         | Some band \<Rightarrow>
             (let (seed, g4) =
                    (if RANDOMIZE_NODE_PHASES cfg
                     then (let (r4, g') = Math_random g3
                           in (r4 * js_or (STARTING_PHASE_RANDOMIZER cfg) 0 * pi * 2, g'))
                     else (0, g3));
                  n = \<lparr>n_id = i, n_x = px, n_y = py, n_z = z, n_ox = px, n_oy = py, n_seedPhase = seed\<rparr>
              in case makeNodes cfg w h spacing pts (Suc i) count g4 of
                   Inl err \<Rightarrow> Inl err
                 | Inr (ns, flags, g5) \<Rightarrow> Inr (n # ns, (if move band then 1 else 0) # flags, g5)))"

fun makeBgNodes :: "real \<Rightarrow> real \<Rightarrow> real \<Rightarrow> sample list \<Rightarrow> nat \<Rightarrow> nat \<Rightarrow> rng \<Rightarrow> bgNode list \<times> rng" where
  "makeBgNodes w h bgSpacing bgPts i 0 g = ([], g)"
| "makeBgNodes w h bgSpacing bgPts i (Suc count) g =
     (let (base, g0) = basePoint bgPts i w h g;
          (r1, g1) = Math_random g0;
          jitterR = bgSpacing * (25 / 100) * r1;
          (r2, g2) = Math_random g1;
          jitterA = r2 * pi * 2;
          bx = clamp (s_x base + cos jitterA * jitterR) 0 w;
          by = clamp (s_y base + sin jitterA * jitterR) 0 h;
          (r3, g3) = Math_random g2;
          (bs, g4) = makeBgNodes w h bgSpacing bgPts (Suc i) count g3
      in (\<lparr>b_x = bx, b_y = by, b_z = 85 / 100 + r3 * (15 / 100)\<rparr> # bs, g4))"

text \<open>\<^verbatim>\<open>_setupNodesEven\<close>; \<^verbatim>\<open>poisson\<close> is called with its default of 30 tries.\<close>

definition setupNodesEven :: "config \<Rightarrow> engine \<Rightarrow> (error + engine) option" where
  "setupNodesEven cfg e =
     (let (nodeCount, bgCount) = getTargetCounts cfg e;
          area = width e * height e;
          spacing = sqrt (area / of_int nodeCount);
          r = max 18 (spacing * (55 / 100))
      in case poisson (width e) (height e) r 30 (random e) of
           None \<Rightarrow> None
         | Some (Inl err) \<Rightarrow> Some (Inl err)
         | Some (Inr (pts, g1)) \<Rightarrow>
             (case makeNodes cfg (width e) (height e) spacing pts 0 (nat nodeCount) g1 of
                Inl err \<Rightarrow> Some (Inl err)
              | Inr (ns, flags, g2) \<Rightarrow>
                  (let bgSpacing = sqrt (area / of_int bgCount);
                       rbg = max 24 (bgSpacing * (6 / 10))
                   in case poisson (width e) (height e) rbg 30 g2 of
                        None \<Rightarrow> None
                      | Some (Inl err) \<Rightarrow> Some (Inl err)
                      | Some (Inr (bgPts, g3)) \<Rightarrow>
                          (let (bs, g4) = makeBgNodes (width e) (height e) bgSpacing bgPts 0 (nat bgCount) g3
                           in Some (Inr (e\<lparr>nodes := ns, movingFlags := flags, bgNodes := bs, random := g4\<rparr>))))))"

text \<open>
  \<^verbatim>\<open>_resize(first)\<close>; \<open>w\<close> and \<open>h\<close> are the container's \<^verbatim>\<open>clientWidth\<close> and
  \<^verbatim>\<open>clientHeight\<close>. The canvases and the two redraws at the end are outside the model.
\<close>

definition rescaleNode :: "real \<Rightarrow> real \<Rightarrow> node \<Rightarrow> node" where
  "rescaleNode sx sy n = n\<lparr>n_x := n_x n * sx, n_y := n_y n * sy, n_ox := n_ox n * sx, n_oy := n_oy n * sy\<rparr>"

definition rescaleBgNode :: "real \<Rightarrow> real \<Rightarrow> bgNode \<Rightarrow> bgNode" where
  "rescaleBgNode sx sy b = b\<lparr>b_x := b_x b * sx, b_y := b_y b * sy\<rparr>"

definition resize :: "config \<Rightarrow> bool \<Rightarrow> real \<Rightarrow> real \<Rightarrow> engine \<Rightarrow> (error + engine) option" where
  "resize cfg first w h e =
     (let prevW = resizePrevW e;
          prevH = resizePrevH e;
          e1 = (applyResponsiveScaling cfg w h (e\<lparr>resizePrevW := w, resizePrevH := h\<rparr>))\<lparr>width := w, height := h\<rparr>;
          (nodeCount, bgCount) = getTargetCounts cfg e1;
          needRebuild = (first \<or> nodes e1 = [] \<or> int (length (nodes e1)) \<noteq> nodeCount
                         \<or> int (length (bgNodes e1)) \<noteq> bgCount)
      in if \<not> needRebuild \<and> nodes e1 \<noteq> []
         then (let sx = (if prevW \<noteq> 0 then w / prevW else 1);
                   sy = (if prevH \<noteq> 0 then h / prevH else 1)
               in Some (Inr (buildBgLinks cfg (buildLinks cfg
                    (e1\<lparr>nodes := map (rescaleNode sx sy) (nodes e1),
                        bgNodes := map (rescaleBgNode sx sy) (bgNodes e1)\<rparr>)))))
         else if \<not> first
         then (case setupNodesEven cfg e1 of
                 None \<Rightarrow> None
               | Some (Inl err) \<Rightarrow> Some (Inl err)
               | Some (Inr e2) \<Rightarrow> Some (Inr (buildBgLinks cfg (buildLinks cfg e2))))
         else Some (Inr e1))"

text \<open>
  The constructor of \<^verbatim>\<open>NeuralNetworkEngine\<close>: \<open>w\<close> and \<open>h\<close> are the container's size,
  \<open>t0\<close> is \<^verbatim>\<open>performance.now()\<close> at the start of the loop, \<open>g\<close> the generator. The
  configuration has no key \<^verbatim>\<open>INITIAL_GLOBAL_PHASE_TURNS\<close>, so \<^verbatim>\<open>_startPhase\<close> is 0.
\<close>

definition newEngine :: "config \<Rightarrow> real \<Rightarrow> real \<Rightarrow> real \<Rightarrow> rng \<Rightarrow> (error + engine) option" where
  "newEngine cfg w h t0 g =
     (let e0 = \<lparr>resizePrevW = js_or w 1, resizePrevH = js_or h 1,
                nodes = [], bgNodes = [], links = [], dynamicLinks = [], staticLinks = [], bgLinks = [],
                movingFlags = [],
                bgDirX = cos (js_or (BG_DRIFT_HEADING_DEG cfg * pi / 180) 0),
                bgDirY = sin (js_or (BG_DRIFT_HEADING_DEG cfg * pi / 180) 0),
                nodeMax = NODE_COUNT cfg, bgNodeMax = BG_NODE_COUNT cfg,
                linkDistanceMax = MAX_LINK_DISTANCE cfg, bgLinkDistanceMax = BG_LINK_MAX_DISTANCE cfg,
                pulseMaxActive = real (PULSE_MAX_ACTIVE cfg),
                width = 0, height = 0,
                pulsePool = [], pulses = [], lastPulseSpawn = 0,
                globalOffsetX = 0, globalOffsetY = 0, bgOffsetX = 0, bgOffsetY = 0,
                loopStart = 0, startPhase = 0, random = g\<rparr>
      in case resize cfg True w h e0 of
           None \<Rightarrow> None
         | Some (Inl err) \<Rightarrow> Some (Inl err)
         | Some (Inr e1) \<Rightarrow>
             (let (r, g1) = Math_random (random e1);
                  e2 = e1\<lparr>pulsePool := newPool (PULSE_POOL_SIZE cfg), pulses := [], lastPulseSpawn := 0,
                          globalOffsetX := 0, globalOffsetY := 0, bgOffsetX := 0, bgOffsetY := 0,
                          loopStart := t0, startPhase := 0 * (pi * 2), random := g1\<rparr>
              in case setupNodesEven cfg e2 of
                   None \<Rightarrow> None
                 | Some (Inl err) \<Rightarrow> Some (Inl err)
                 | Some (Inr e3) \<Rightarrow> Some (Inr (buildBgLinks cfg (buildLinks cfg e3)))))"

section \<open>Executions and specification predicates\<close>

text \<open>
  The states the engine can be in: the state the constructor returns, and the states
  after a simulation step or a resize event (\<^verbatim>\<open>_resize(false)\<close>) from such a state.
\<close>

inductive reachable :: "config \<Rightarrow> engine \<Rightarrow> bool" for cfg :: config where
  constructed: "newEngine cfg w h t0 g = Some (Inr e) \<Longrightarrow> reachable cfg e"
| ticked: "reachable cfg e \<Longrightarrow> update cfg dt_ms now e = Inr e' \<Longrightarrow> reachable cfg e'"
| resized: "reachable cfg e \<Longrightarrow> resize cfg False w h e = Some (Inr e') \<Longrightarrow> reachable cfg e'"

text \<open>A run of simulation steps with the step \<open>dt_ms\<close>, one for each time stamp of the list.\<close>

fun ticks :: "config \<Rightarrow> real \<Rightarrow> real list \<Rightarrow> engine \<Rightarrow> error + engine" where
  "ticks cfg dt_ms [] e = Inr e"
| "ticks cfg dt_ms (now # nows) e =
     (case update cfg dt_ms now e of Inl err \<Rightarrow> Inl err | Inr e' \<Rightarrow> ticks cfg dt_ms nows e')"

text \<open>
  Two engine states with the same layout: the same viewport, loop start and phase, the same
  moving flags, and node for node the same origin, depth and seed phase (and, for a static
  node, the same position).
\<close>

definition sameLayout :: "engine \<Rightarrow> engine \<Rightarrow> bool" where
  "sameLayout e e' =
     (width e' = width e \<and> height e' = height e \<and> loopStart e' = loopStart e \<and>
      startPhase e' = startPhase e \<and> movingFlags e' = movingFlags e \<and>
      length (nodes e') = length (nodes e) \<and>
      (\<forall>i < length (nodes e).
         n_ox (nodes e' ! i) = n_ox (nodes e ! i) \<and> n_oy (nodes e' ! i) = n_oy (nodes e ! i) \<and>
         n_z (nodes e' ! i) = n_z (nodes e ! i) \<and> n_seedPhase (nodes e' ! i) = n_seedPhase (nodes e ! i) \<and>
         (\<not> moving (movingFlags e) i \<longrightarrow>
            n_x (nodes e' ! i) = n_x (nodes e ! i) \<and> n_y (nodes e' ! i) = n_y (nodes e ! i))))"

text \<open>The number of edges of a list of index pairs that touch the node \<open>v\<close>.\<close>

definition incident :: "nat \<Rightarrow> (nat \<times> nat) list \<Rightarrow> nat" where
  "incident v es = length (filter (\<lambda>(a, b). a = v \<or> b = v) es)"

definition linkEnds :: "link list \<Rightarrow> (nat \<times> nat) list" where
  "linkEnds ls = map (\<lambda>L. (l_ai L, l_bi L)) ls"

definition bgEnds :: "bgEdge list \<Rightarrow> (nat \<times> nat) list" where
  "bgEnds es = map (\<lambda>E. (e_ai E, e_bi E)) es"

text \<open>
  The links of an engine state are well formed: the endpoints of every link are nodes, the
  dynamic subset indexes links, both arrays are shorter than \<open>2^31\<close>, and the generator
  keeps its contract.
\<close>

definition wfLinks :: "engine \<Rightarrow> bool" where
  "wfLinks e =
     (list_all (\<lambda>L. l_ai L < length (nodes e) \<and> l_bi L < length (nodes e)) (links e) \<and>
      list_all (\<lambda>idx. idx < length (links e)) (dynamicLinks e) \<and>
      length (links e) < 2147483648 \<and> length (dynamicLinks e) < 2147483648 \<and>
      unit_rng (random e))"

text \<open>
  A small engine state at the baseline viewport: a near node, a mid node and a static node,
  two links, no pulse in flight and the full pool.
\<close>

definition exampleEngine :: engine where
  "exampleEngine =
     \<lparr>resizePrevW = 1440, resizePrevH = 900,
      nodes = [\<lparr>n_id = 0, n_x = 100, n_y = 100, n_z = 2 / 10, n_ox = 100, n_oy = 100, n_seedPhase = 0\<rparr>,
               \<lparr>n_id = 1, n_x = 103, n_y = 104, n_z = 5 / 10, n_ox = 103, n_oy = 104, n_seedPhase = 1 / 2\<rparr>,
               \<lparr>n_id = 2, n_x = 400, n_y = 500, n_z = 9 / 10, n_ox = 400, n_oy = 500, n_seedPhase = 1 / 4\<rparr>],
      bgNodes = [\<lparr>b_x = 10, b_y = 10, b_z = 9 / 10\<rparr>, \<lparr>b_x = 13, b_y = 14, b_z = 95 / 100\<rparr>],
      links = [\<lparr>l_ai = 0, l_bi = 1, l_d = 5\<rparr>, \<lparr>l_ai = 2, l_bi = 0, l_d = 500\<rparr>],
      dynamicLinks = [0, 1], staticLinks = [],
      bgLinks = [\<lparr>e_ai = 0, e_bi = 1, e_weight = 1 / 5\<rparr>],
      movingFlags = [1, 1, 0],
      bgDirX = 0, bgDirY = 0,
      nodeMax = 70, bgNodeMax = 60, linkDistanceMax = 500, bgLinkDistanceMax = 400,
      pulseMaxActive = 1,
      width = 1440, height = 900,
      pulsePool = replicate 12 createPulse, pulses = [], lastPulseSpawn = 0,
      globalOffsetX = 0, globalOffsetY = 0, bgOffsetX = 0, bgOffsetY = 0,
      loopStart = 0, startPhase = 0, random = (\<lambda>k. 0)\<rparr>"

text \<open>
  What the advance loop does to one active pulse: \<^verbatim>\<open>p.t += tInc / p.dist\<close>.
\<close>

definition advanceOne :: "real \<Rightarrow> pulse \<Rightarrow> pulse" where
  "advanceOne tInc p = p\<lparr>p_t := p_t p + tInc / p_dist p\<rparr>"

text \<open>
  The largest value \<^verbatim>\<open>pulseMaxActive\<close> can take: the upper bound of the clamp in
  \<^verbatim>\<open>_applyResponsiveScaling\<close>, and 1 when that bound is below the lower bound 1.
\<close>

definition pulseCeiling :: "config \<Rightarrow> nat" where
  "pulseCeiling cfg = max 1 (PULSE_MAX_ACTIVE cfg)"

text \<open>
  The pulses of an engine state are in order: a live pulse is active, has a cached length of
  at least 1 and has not arrived (\<open>t < 1\<close>); a pooled pulse has a cached length of at least 1.
\<close>

definition pulsesOK :: "engine \<Rightarrow> bool" where
  "pulsesOK e = (list_all (\<lambda>p. p_active p \<and> 1 \<le> p_dist p \<and> p_t p < 1) (pulses e) \<and>
                 list_all (\<lambda>p. 1 \<le> p_dist p) (pulsePool e))"

text \<open>
  \<^verbatim>\<open>tInc\<close>: the distance a pulse travels in one simulation step.
\<close>

definition pulseStep :: "config \<Rightarrow> real \<Rightarrow> real" where
  "pulseStep cfg dt_ms = PULSE_SPEED cfg * (dt_ms / 1000)"

text \<open>
  The pulses of \<open>ps\<close> that are still under way after \<open>n\<close> steps, each with the progress it
  has then: \<open>t + n * (tInc / dist)\<close>.
\<close>

definition carried :: "config \<Rightarrow> real \<Rightarrow> nat \<Rightarrow> pulse list \<Rightarrow> pulse list" where
  "carried cfg dt_ms n ps =
     filter (\<lambda>p. p_t p < 1) (map (\<lambda>p. p\<lparr>p_t := p_t p + real n * (pulseStep cfg dt_ms / p_dist p)\<rparr>) ps)"

text \<open>
  The engine state in \<^verbatim>\<open>_resize\<close> after \<^verbatim>\<open>_applyResponsiveScaling(w, h)\<close> and the
  assignments of \<^verbatim>\<open>this.width\<close> and \<^verbatim>\<open>this.height\<close>; from it the target counts are taken.
\<close>

definition afterScaling :: "config \<Rightarrow> real \<Rightarrow> real \<Rightarrow> engine \<Rightarrow> engine" where
  "afterScaling cfg w h e =
     (applyResponsiveScaling cfg w h (e\<lparr>resizePrevW := w, resizePrevH := h\<rparr>))\<lparr>width := w, height := h\<rparr>"

text \<open>
  A resize to \<open>w\<close> by \<open>h\<close> leaves the target counts of the existing population unchanged
  (\<^verbatim>\<open>needRebuild\<close> is false for a resize event).
\<close>

definition countsUnchanged :: "config \<Rightarrow> real \<Rightarrow> real \<Rightarrow> engine \<Rightarrow> bool" where
  "countsUnchanged cfg w h e =
     (nodes e \<noteq> [] \<and>
      getTargetCounts cfg (afterScaling cfg w h e) = (int (length (nodes e)), int (length (bgNodes e))))"

text \<open>
  The factors \<^verbatim>\<open>sx = prevW ? w / prevW : 1\<close> and \<^verbatim>\<open>sy = prevH ? h / prevH : 1\<close> of \<^verbatim>\<open>_resize\<close>.
\<close>

definition resizeScaleX :: "real \<Rightarrow> engine \<Rightarrow> real" where
  "resizeScaleX w e = (if resizePrevW e \<noteq> 0 then w / resizePrevW e else 1)"

definition resizeScaleY :: "real \<Rightarrow> engine \<Rightarrow> real" where
  "resizeScaleY h e = (if resizePrevH e \<noteq> 0 then h / resizePrevH e else 1)"

text \<open>
  An engine state on a viewport of 2880 by 1800: 100 static nodes, one link of length 1000
  from node 0 to node 40, a pulse cap of 2 and two pulses under way on that link.
\<close>

definition busyEngine :: engine where
  "busyEngine =
     \<lparr>resizePrevW = 2880, resizePrevH = 1800,
      nodes = map (\<lambda>i. \<lparr>n_id = i, n_x = 20 * real i, n_y = 15 * real i, n_z = 9 / 10,
                         n_ox = 20 * real i, n_oy = 15 * real i, n_seedPhase = 0\<rparr>) [0 ..< 100],
      bgNodes = map (\<lambda>i. \<lparr>b_x = 40 * real i, b_y = 25 * real i, b_z = 9 / 10\<rparr>) [0 ..< 60],
      links = [\<lparr>l_ai = 0, l_bi = 40, l_d = 1000\<rparr>],
      dynamicLinks = [], staticLinks = [0],
      bgLinks = [],
      movingFlags = replicate 100 0,
      bgDirX = 0, bgDirY = 0,
      nodeMax = 100, bgNodeMax = 60, linkDistanceMax = 1000, bgLinkDistanceMax = 800,
      pulseMaxActive = 2,
      width = 2880, height = 1800,
      pulsePool = replicate 10 createPulse,
      pulses = [\<lparr>p_linkIndex = 0, p_t = 1 / 2, p_active = True, p_dist = 1000\<rparr>,
                \<lparr>p_linkIndex = 0, p_t = 1 / 60, p_active = True, p_dist = 1000\<rparr>],
      lastPulseSpawn = 2000,
      globalOffsetX = 0, globalOffsetY = 0, bgOffsetX = 0, bgOffsetY = 0,
      loopStart = 0, startPhase = 0, random = (\<lambda>k. 0)\<rparr>"

text \<open>
  The same state with its first pulse at \<open>t = 99/100\<close>: the next simulation step takes it
  past the end of its link.
\<close>

definition arrivingEngine :: engine where
  "arrivingEngine =
     busyEngine\<lparr>pulses := [\<lparr>p_linkIndex = 0, p_t = 99 / 100, p_active = True, p_dist = 1000\<rparr>,
                            \<lparr>p_linkIndex = 0, p_t = 1 / 60, p_active = True, p_dist = 1000\<rparr>]\<rparr>"

text \<open>
  An engine state with an empty pulse pool, as the constructor leaves it for
  \<^verbatim>\<open>PULSE_POOL_SIZE = 0\<close>: two static nodes 500 apart, one link, no pulse under way and the
  spawn interval elapsed at time 1000.
\<close>

definition drainedEngine :: engine where
  "drainedEngine =
     \<lparr>resizePrevW = 1440, resizePrevH = 900,
      nodes = [\<lparr>n_id = 0, n_x = 100, n_y = 100, n_z = 8 / 10, n_ox = 100, n_oy = 100, n_seedPhase = 0\<rparr>,
               \<lparr>n_id = 1, n_x = 400, n_y = 500, n_z = 9 / 10, n_ox = 400, n_oy = 500, n_seedPhase = 1 / 4\<rparr>],
      bgNodes = [],
      links = [\<lparr>l_ai = 0, l_bi = 1, l_d = 500\<rparr>],
      dynamicLinks = [], staticLinks = [0],
      bgLinks = [],
      movingFlags = [0, 0],
      bgDirX = 0, bgDirY = 0,
      nodeMax = 70, bgNodeMax = 60, linkDistanceMax = 500, bgLinkDistanceMax = 400,
      pulseMaxActive = 1,
      width = 1440, height = 900,
      pulsePool = [], pulses = [], lastPulseSpawn = 0,
      globalOffsetX = 0, globalOffsetY = 0, bgOffsetX = 0, bgOffsetY = 0,
      loopStart = 0, startPhase = 0, random = (\<lambda>k. 0)\<rparr>"

text \<open>
  An engine state on a container of 300 by 200: 16 moving nodes of the near band and 12
  background nodes, no links, no pulse under way.
\<close>

definition shownEngine :: engine where
  "shownEngine =
     \<lparr>resizePrevW = 300, resizePrevH = 200,
      nodes = map (\<lambda>i. \<lparr>n_id = i, n_x = 15 * real i + 30, n_y = 10 * real i + 20, n_z = 2 / 10,
                         n_ox = 15 * real i + 30, n_oy = 10 * real i + 20, n_seedPhase = 0\<rparr>) [0 ..< 16],
      bgNodes = map (\<lambda>i. \<lparr>b_x = 20 * real i + 10, b_y = 15 * real i + 10, b_z = 9 / 10\<rparr>) [0 ..< 12],
      links = [], dynamicLinks = [], staticLinks = [], bgLinks = [],
      movingFlags = replicate 16 1,
      bgDirX = 0, bgDirY = 0,
      nodeMax = 16, bgNodeMax = 12, linkDistanceMax = 108, bgLinkDistanceMax = 86,
      pulseMaxActive = 1,
      width = 300, height = 200,
      pulsePool = replicate 12 createPulse, pulses = [], lastPulseSpawn = 0,
      globalOffsetX = 0, globalOffsetY = 0, bgOffsetX = 0, bgOffsetY = 0,
      loopStart = 0, startPhase = 0, random = (\<lambda>k. 0)\<rparr>"

text \<open>
  The state \<open>shownEngine\<close> after a resize event at which the container has no extent
  (\<^verbatim>\<open>clientWidth\<close> and \<^verbatim>\<open>clientHeight\<close> 0): every coordinate was multiplied by 0.
\<close>

definition collapsedEngine :: engine where
  "collapsedEngine =
     \<lparr>resizePrevW = 0, resizePrevH = 0,
      nodes = map (\<lambda>i. \<lparr>n_id = i, n_x = 0, n_y = 0, n_z = 2 / 10,
                         n_ox = 0, n_oy = 0, n_seedPhase = 0\<rparr>) [0 ..< 16],
      bgNodes = map (\<lambda>i. \<lparr>b_x = 0, b_y = 0, b_z = 9 / 10\<rparr>) [0 ..< 12],
      links = [], dynamicLinks = [], staticLinks = [], bgLinks = [],
      movingFlags = replicate 16 1,
      bgDirX = 0, bgDirY = 0,
      nodeMax = 16, bgNodeMax = 12, linkDistanceMax = 80, bgLinkDistanceMax = 60,
      pulseMaxActive = 1,
      width = 0, height = 0,
      pulsePool = replicate 12 createPulse, pulses = [], lastPulseSpawn = 0,
      globalOffsetX = 0, globalOffsetY = 0, bgOffsetX = 0, bgOffsetY = 0,
      loopStart = 0, startPhase = 0, random = (\<lambda>k. 0)\<rparr>"

text \<open>
  The state \<open>collapsedEngine\<close> after one simulation step at time 0: the origins stay at
  (0, 0) and every node is on its orbit, whose radii are those of \<open>minDim = 1\<close>.
\<close>

definition hiddenEngine :: engine where
  "hiddenEngine =
     \<lparr>resizePrevW = 0, resizePrevH = 0,
      nodes = map (\<lambda>i. \<lparr>n_id = i, n_x = 4 / 45 * cos (pi / 9), n_y = 4 / 45 * sin (pi / 9), n_z = 2 / 10,
                         n_ox = 0, n_oy = 0, n_seedPhase = 0\<rparr>) [0 ..< 16],
      bgNodes = map (\<lambda>i. \<lparr>b_x = 0, b_y = 0, b_z = 9 / 10\<rparr>) [0 ..< 12],
      links = [], dynamicLinks = [], staticLinks = [], bgLinks = [],
      movingFlags = replicate 16 1,
      bgDirX = 0, bgDirY = 0,
      nodeMax = 16, bgNodeMax = 12, linkDistanceMax = 80, bgLinkDistanceMax = 60,
      pulseMaxActive = 1,
      width = 0, height = 0,
      pulsePool = replicate 12 createPulse, pulses = [], lastPulseSpawn = 0,
      globalOffsetX = 0, globalOffsetY = 0, bgOffsetX = 0, bgOffsetY = 0,
      loopStart = 0, startPhase = 0, random = (\<lambda>k. 0)\<rparr>"

text \<open>
  The time stamps of 30 consecutive simulation steps of 100/3 ms from time 3000 on.
\<close>

definition frameTimes :: "real list" where
  "frameTimes = map (\<lambda>k. 3000 + real k * (100 / 3)) [0 ..< 30]"

text \<open>
  The keys of a list of links: what \<^verbatim>\<open>seen\<close> holds after the links were added.
\<close>

definition linkKeys :: "link list \<Rightarrow> (nat \<times> nat) list" where
  "linkKeys ls = map (\<lambda>L. linkKey (l_ai L) (l_bi L)) ls"

text \<open>
  A candidate of node \<open>i\<close> as the inner loop of \<^verbatim>\<open>_buildLinks\<close> collects it: another node,
  with the distance between the two, which is within reach and not zero.
\<close>

definition candOK :: "node list \<Rightarrow> real \<Rightarrow> nat \<Rightarrow> candidate \<Rightarrow> bool" where
  "candOK ns maxDist i c =
     (c_j c < length ns \<and> c_j c \<noteq> i \<and> c_dist c = nodeDist (ns ! i) (ns ! c_j c) \<and>
      c_dist c \<le> maxDist \<and> c_dist c \<noteq> 0)"

text \<open>
  A link between two different nodes whose cached length is the distance of its endpoints,
  within reach and not zero.
\<close>

definition linkOK :: "node list \<Rightarrow> real \<Rightarrow> link \<Rightarrow> bool" where
  "linkOK ns maxDist L =
     (l_ai L < length ns \<and> l_bi L < length ns \<and> l_ai L \<noteq> l_bi L \<and>
      l_d L = nodeDist (ns ! l_ai L) (ns ! l_bi L) \<and> l_d L \<le> maxDist \<and> l_d L \<noteq> 0)"

text \<open>
  The invariant of the loops of \<^verbatim>\<open>_buildLinks\<close>: \<^verbatim>\<open>degrees\<close> counts the links at each node,
  no node is over its cap, every link is in order, \<^verbatim>\<open>seen\<close> holds the keys of the links and
  no key occurs twice.
\<close>

definition linksInv :: "config \<Rightarrow> node list \<Rightarrow> nat list \<Rightarrow> real \<Rightarrow> linkBuild \<Rightarrow> bool" where
  "linksInv cfg ns flags maxDist b =
     (length (lb_degrees b) = length ns \<and>
      (\<forall>v < length ns. lb_degrees b ! v = int (incident v (linkEnds (lb_links b))) \<and>
                        incident v (linkEnds (lb_links b)) \<le> linkCap cfg flags v) \<and>
      list_all (linkOK ns maxDist) (lb_links b) \<and>
      lb_seen b = set (linkKeys (lb_links b)) \<and>
      distinct (linkKeys (lb_links b)))"

text \<open>
  A background edge from a node to a later one, their distance within reach and not zero.
\<close>

definition bgEdgeOK :: "bgNode list \<Rightarrow> real \<Rightarrow> bgEdge \<Rightarrow> bool" where
  "bgEdgeOK bs maxDist E =
     (e_ai E < e_bi E \<and> e_bi E < length bs \<and>
      bgDist (bs ! e_ai E) (bs ! e_bi E) \<le> maxDist \<and> bgDist (bs ! e_ai E) (bs ! e_bi E) \<noteq> 0)"

text \<open>
  The invariant of the last loop of \<^verbatim>\<open>_buildBgLinks\<close>: \<^verbatim>\<open>deg\<close> counts the edges at each
  node, no node is over the cap and every edge is in order.
\<close>

definition bgInv :: "nat \<Rightarrow> bgNode list \<Rightarrow> real \<Rightarrow> int list \<Rightarrow> bgEdge list \<Rightarrow> bool" where
  "bgInv degreeCap bs maxDist deg bgl =
     (length deg = length bs \<and>
      (\<forall>v < length bs. deg ! v = int (incident v (bgEnds bgl)) \<and> incident v (bgEnds bgl) \<le> degreeCap) \<and>
      list_all (bgEdgeOK bs maxDist) bgl)"

text \<open>
  Squared distance from a sample to a point, as \<^verbatim>\<open>dx * dx + dy * dy\<close> in the rejection
  test of \<^verbatim>\<open>poisson\<close>.
\<close>

definition sqDist :: "sample \<Rightarrow> real \<Rightarrow> real \<Rightarrow> real" where
  "sqDist s x y = (s_x s - x) * (s_x s - x) + (s_y s - y) * (s_y s - y)"

text \<open>
  No two entries of a sample list are closer than \<open>r\<close>.
\<close>

definition spaced :: "real \<Rightarrow> sample list \<Rightarrow> bool" where
  "spaced r pts = (\<forall>i j. i < j \<and> j < length pts \<longrightarrow> r * r \<le> sqDist (pts ! i) (s_x (pts ! j)) (s_y (pts ! j)))"

text \<open>
  Invariant of the sampler loop: every sample is in bounds and is the entry of its own
  grid cell, and the samples are pairwise at least \<open>r\<close> apart.
\<close>

definition sampInv :: "real \<Rightarrow> real \<Rightarrow> real \<Rightarrow> sampler \<Rightarrow> bool" where
  "sampInv w h r st =
     (list_all (\<lambda>s. inBounds w h (s_x s) (s_y s) \<and> ps_grid st (gridIndex w r (s_x s) (s_y s)) = Some s)
        (ps_samples st) \<and>
      spaced r (ps_samples st))"


text \<open>
  The foreground node \<open>j\<close> that \<^verbatim>\<open>_setupNodesEven\<close> makes from the sample list when every draw
  is 1/16: the jitter is the same for every node, the depth is 1/16 (the near band), and
  every node has the same seed phase.
\<close>

definition nodeAt :: "real \<Rightarrow> real \<Rightarrow> real \<Rightarrow> sample list \<Rightarrow> nat \<Rightarrow> node" where
  "nodeAt w h spacing pts j =
     (let basePt = pts ! (j mod length pts);
          jitterR = spacing * (2 / 10) * (1 / 16);
          jitterA = 1 / 16 * pi * 2;
          px = clamp (s_x basePt + cos jitterA * jitterR) 0 w;
          py = clamp (s_y basePt + sin jitterA * jitterR) 0 h
      in \<lparr>n_id = j, n_x = px, n_y = py, n_z = 1 / 16, n_ox = px, n_oy = py,
          n_seedPhase = 1 / 16 * (15 / 100) * pi * 2\<rparr>)"

text \<open>
  The engine that the constructor builds in a container of 2880 by 1800 when every draw of
  \<^verbatim>\<open>Math.random\<close> is 1/16. The first candidate of the sampler is then at \<open>17/16 r\<close> from the
  centre, well off the rejection radius \<open>r\<close>.
\<close>

definition wideEngine :: engine where
  "wideEngine = projr (the (newEngine CONFIG 2880 1800 0 (\<lambda>k. 1 / 16)))"

text \<open>
  The distance between the origins of the two endpoints of a link.
\<close>

definition originDist :: "engine \<Rightarrow> link \<Rightarrow> real" where
  "originDist e L = Math_hypot (n_ox (nodes e ! l_bi L) - n_ox (nodes e ! l_ai L))
                               (n_oy (nodes e ! l_bi L) - n_oy (nodes e ! l_ai L))"

text \<open>
  An engine state whose nodes all move in the near band with one and the same seed phase,
  with at least one link, and every link at least \<open>D\<close> long between the origins. All nodes
  then have the same offset from their origins, so a pulse spawned on any link caches a
  length of at least \<open>D\<close>.
\<close>

definition nearSwarm :: "real \<Rightarrow> engine \<Rightarrow> bool" where
  "nearSwarm D e =
     (wfLinks e \<and> links e \<noteq> [] \<and>
      list_all (\<lambda>i. moving (movingFlags e) i \<and> n_z (nodes e ! i) < 4 / 10 \<and>
                     n_seedPhase (nodes e ! i) = n_seedPhase (nodes e ! 0))
        [0 ..< length (nodes e)] \<and>
      list_all (\<lambda>L. D \<le> originDist e L) (links e))"

text \<open>
  That engine after a simulation step at time 1000 and one at time 2000, and the state after
  a resize event to 1800 by 1125 that follows them.
\<close>

definition crowdedEngine :: engine where
  "crowdedEngine = projr (update CONFIG (100 / 3) 2000 (projr (update CONFIG (100 / 3) 1000 wideEngine)))"

definition shrunkEngine :: engine where
  "shrunkEngine = projr (the (resize CONFIG False 1800 1125 crowdedEngine))"

section \<open>Properties of the simulation step\<close>

lemma js_rem_shift:
  assumes "L \<noteq> 0"
  shows "\<exists>k::int. js_rem (a + L) L / L = js_rem a L / L + of_int k"
proof -
  have "js_rem (a + L) L / L = (a + L) / L - of_int (js_trunc ((a + L) / L))"
    using assms by (simp add: js_rem_def diff_divide_distrib)
  moreover have "js_rem a L / L = a / L - of_int (js_trunc (a / L))"
    using assms by (simp add: js_rem_def diff_divide_distrib)
  moreover have "(a + L) / L = a / L + 1"
    using assms by (simp add: add_divide_distrib)
  ultimately have "js_rem (a + L) L / L = js_rem a L / L + of_int (1 + js_trunc (a / L) - js_trunc ((a + L) / L))"
    by simp
  then show ?thesis by blast
qed

lemma cos_shift_int: "cos (x + 2 * pi * of_int k) = cos x"
  by (simp add: cos_add)

lemma sin_shift_int: "sin (x + 2 * pi * of_int k) = sin x"
  by (simp add: sin_add)

lemma baseTheta_shift:
  assumes "LOOP_DURATION_MS cfg \<noteq> 0"
    and "loopStart e' = loopStart e" and "startPhase e' = startPhase e"
  shows "\<exists>k::int. baseTheta cfg e' (now + LOOP_DURATION_MS cfg) = baseTheta cfg e now + 2 * pi * of_int k"
proof -
  obtain k :: int where k: "js_rem ((now - loopStart e) + LOOP_DURATION_MS cfg) (LOOP_DURATION_MS cfg) / LOOP_DURATION_MS cfg
      = js_rem (now - loopStart e) (LOOP_DURATION_MS cfg) / LOOP_DURATION_MS cfg + of_int k"
    using js_rem_shift[OF assms(1)] by blast
  have "now + LOOP_DURATION_MS cfg - loopStart e = (now - loopStart e) + LOOP_DURATION_MS cfg" by simp
  then have "baseTheta cfg e' (now + LOOP_DURATION_MS cfg) = baseTheta cfg e now + 2 * pi * of_int k"
    unfolding baseTheta_def assms(2,3) using k by (simp add: algebra_simps)
  then show ?thesis by blast
qed

lemma layer_theta_shift:
  assumes "c \<in> \<int>" and "t' = t + 2 * pi * of_int k"
  shows "cos (t' * c * 1 + 0 * (pi * 2)) = cos (t * c * 1 + 0 * (pi * 2))"
    and "sin (t' * c * 1 + 0 * (pi * 2)) = sin (t * c * 1 + 0 * (pi * 2))"
proof -
  from assms(1) obtain m :: int where m: "c = of_int m" by (auto elim: Ints_cases)
  have eq: "t' * c * 1 + 0 * (pi * 2) = t * c + 2 * pi * of_int (k * m)"
    using assms(2) m by (simp add: algebra_simps)
  show "cos (t' * c * 1 + 0 * (pi * 2)) = cos (t * c * 1 + 0 * (pi * 2))"
    unfolding eq using cos_shift_int[of "t * c" "k * m"] by simp
  show "sin (t' * c * 1 + 0 * (pi * 2)) = sin (t * c * 1 + 0 * (pi * 2))"
    unfolding eq using sin_shift_int[of "t * c" "k * m"] by simp
qed

lemma js_or_Ints: "c \<in> \<int> \<Longrightarrow> js_or c 1 \<in> \<int>"
  by (simp add: js_or_def)

lemma orbit_cong:
  assumes "cos theta' = cos theta" and "sin theta' = sin theta"
    and "n_ox n' = n_ox n" and "n_oy n' = n_oy n" and "n_seedPhase n' = n_seedPhase n"
  shows "n_x (orbit theta' phi rx ry n') = n_x (orbit theta phi rx ry n)"
    and "n_y (orbit theta' phi rx ry n') = n_y (orbit theta phi rx ry n)"
  using assms by (simp_all add: orbit_def Let_def)

lemma spawnPulse_frame:
  assumes "spawnPulse cfg now e = Inr e'"
  shows "nodes e' = nodes e" and "movingFlags e' = movingFlags e"
    and "width e' = width e" and "height e' = height e"
    and "loopStart e' = loopStart e" and "startPhase e' = startPhase e"
    and "links e' = links e" and "dynamicLinks e' = dynamicLinks e"
    and "pulseMaxActive e' = pulseMaxActive e"
  using assms
  by (auto simp: spawnPulse_def Let_def split: if_splits prod.splits option.splits)

lemma advance_frame:
  "nodes (advance cfg dt e) = nodes e" "movingFlags (advance cfg dt e) = movingFlags e"
  "width (advance cfg dt e) = width e" "height (advance cfg dt e) = height e"
  "loopStart (advance cfg dt e) = loopStart e" "startPhase (advance cfg dt e) = startPhase e"
  "links (advance cfg dt e) = links e" "dynamicLinks (advance cfg dt e) = dynamicLinks e"
  "pulseMaxActive (advance cfg dt e) = pulseMaxActive e"
  by (simp_all add: advance_def Let_def split: prod.splits)

lemma updateMotion_Inr:
  assumes "updateMotion cfg now e = Inr e'"
  shows "\<exists>band0 band1. js_nth (PARALLAX_BANDS cfg) 0 = Some band0 \<and> js_nth (PARALLAX_BANDS cfg) 1 = Some band1 \<and>
           nodes e' = map (\<lambda>(i, n). moveNode cfg e now band0 band1 i n) (zip [0 ..< length (nodes e)] (nodes e))"
    and "movingFlags e' = movingFlags e"
    and "width e' = width e" and "height e' = height e"
    and "loopStart e' = loopStart e" and "startPhase e' = startPhase e"
    and "links e' = links e" and "dynamicLinks e' = dynamicLinks e"
    and "pulseMaxActive e' = pulseMaxActive e"
    and "pulses e' = pulses e" and "pulsePool e' = pulsePool e"
    and "lastPulseSpawn e' = lastPulseSpawn e" and "random e' = random e"
  using assms
  by (auto simp: updateMotion_def Let_def split: option.splits)

lemma update_Inr:
  assumes "update cfg dt now e = Inr e'"
  obtains e1 e2 where "updateMotion cfg now e = Inr e1" and "spawnPulse cfg now e1 = Inr e2"
    and "e' = advance cfg dt e2"
  using assms by (auto simp: update_def split: sum.splits)

lemma update_nodes:
  assumes "update cfg dt now e = Inr e'"
  shows "\<exists>band0 band1. js_nth (PARALLAX_BANDS cfg) 0 = Some band0 \<and> js_nth (PARALLAX_BANDS cfg) 1 = Some band1 \<and>
           nodes e' = map (\<lambda>(i, n). moveNode cfg e now band0 band1 i n) (zip [0 ..< length (nodes e)] (nodes e))"
proof -
  from assms obtain e1 e2 where m: "updateMotion cfg now e = Inr e1" and s: "spawnPulse cfg now e1 = Inr e2"
    and a: "e' = advance cfg dt e2" by (rule update_Inr)
  have "nodes e' = nodes e1" using a s by (simp add: advance_frame spawnPulse_frame)
  then show ?thesis using updateMotion_Inr(1)[OF m] by simp
qed

lemma update_movingFlags:
  assumes "update cfg dt now e = Inr e'"
  shows "movingFlags e' = movingFlags e"
proof -
  from assms obtain e1 e2 where m: "updateMotion cfg now e = Inr e1" and s: "spawnPulse cfg now e1 = Inr e2"
    and a: "e' = advance cfg dt e2" by (rule update_Inr)
  show ?thesis using a s m by (simp add: advance_frame spawnPulse_frame updateMotion_Inr)
qed

lemma nth_moved:
  assumes "i < length ns"
  shows "map (\<lambda>(i, n). f i n) (zip [0 ..< length ns] ns) ! i = f i (ns ! i)"
  using assms by simp

lemma orbit_frame:
  "n_ox (orbit th ph rx ry n) = n_ox n" "n_oy (orbit th ph rx ry n) = n_oy n"
  "n_z (orbit th ph rx ry n) = n_z n" "n_seedPhase (orbit th ph rx ry n) = n_seedPhase n"
  "n_id (orbit th ph rx ry n) = n_id n"
  by (simp_all add: orbit_def Let_def)

lemma moveNode_frame:
  "n_ox (moveNode cfg e now b0 b1 i n) = n_ox n" "n_oy (moveNode cfg e now b0 b1 i n) = n_oy n"
  "n_z (moveNode cfg e now b0 b1 i n) = n_z n" "n_seedPhase (moveNode cfg e now b0 b1 i n) = n_seedPhase n"
  "n_id (moveNode cfg e now b0 b1 i n) = n_id n"
  by (simp_all add: moveNode_def Let_def orbit_frame)

lemma moveNode_static: "\<not> moving (movingFlags e) i \<Longrightarrow> moveNode cfg e now b0 b1 i n = n"
  by (simp add: moveNode_def)

text \<open>
  Claim C8 (frame condition of the motion step). A simulation step that returns keeps the
  number of nodes and the moving flags, and changes no node's origin \<open>(ox, oy)\<close>, depth
  \<open>z\<close> or seed phase; a node whose moving flag is falsy is not changed at all, so its
  position stays where the layout put it (equal to its origin when it was).
\<close>

theorem update_frame:
  assumes "update cfg dt_ms now e = Inr e'" and "i < length (nodes e)"
  shows "length (nodes e') = length (nodes e) \<and>
         movingFlags e' = movingFlags e \<and>
         n_ox (nodes e' ! i) = n_ox (nodes e ! i) \<and>
         n_oy (nodes e' ! i) = n_oy (nodes e ! i) \<and>
         n_z (nodes e' ! i) = n_z (nodes e ! i) \<and>
         n_seedPhase (nodes e' ! i) = n_seedPhase (nodes e ! i) \<and>
         (\<not> moving (movingFlags e) i \<longrightarrow> nodes e' ! i = nodes e ! i)"
proof -
  from update_nodes[OF assms(1)] obtain band0 band1 where
    ns: "nodes e' = map (\<lambda>(i, n). moveNode cfg e now band0 band1 i n) (zip [0 ..< length (nodes e)] (nodes e))"
    by blast
  have len: "length (nodes e') = length (nodes e)" by (simp add: ns)
  have ith: "nodes e' ! i = moveNode cfg e now band0 band1 i (nodes e ! i)"
    unfolding ns using assms(2) by simp
  show ?thesis
    using len ith update_movingFlags[OF assms(1)] by (simp add: moveNode_frame moveNode_static)
qed

lemma moveNode_periodic:
  assumes L: "LOOP_DURATION_MS cfg \<noteq> 0"
    and near: "ELLIPSE_NEAR_CYCLES cfg \<in> \<int>" and mid: "ELLIPSE_MID_CYCLES cfg \<in> \<int>"
    and lay: "width e' = width e" "height e' = height e" "loopStart e' = loopStart e"
      "startPhase e' = startPhase e" "movingFlags e' = movingFlags e"
    and n: "n_ox n' = n_ox n" "n_oy n' = n_oy n" "n_z n' = n_z n" "n_seedPhase n' = n_seedPhase n"
    and st: "\<not> moving (movingFlags e) i \<Longrightarrow> n_x n' = n_x n \<and> n_y n' = n_y n"
  shows "n_x (moveNode cfg e' (now + LOOP_DURATION_MS cfg) b0 b1 i n') = n_x (moveNode cfg e now b0 b1 i n) \<and>
         n_y (moveNode cfg e' (now + LOOP_DURATION_MS cfg) b0 b1 i n') = n_y (moveNode cfg e now b0 b1 i n)"
proof -
  obtain k :: int where k: "baseTheta cfg e' (now + LOOP_DURATION_MS cfg) = baseTheta cfg e now + 2 * pi * of_int k"
    using baseTheta_shift[OF L lay(3,4)] by blast
  have cn: "cos (nearTheta cfg e' (now + LOOP_DURATION_MS cfg)) = cos (nearTheta cfg e now)"
    and sn: "sin (nearTheta cfg e' (now + LOOP_DURATION_MS cfg)) = sin (nearTheta cfg e now)"
    unfolding nearTheta_def using layer_theta_shift[OF js_or_Ints[OF near] k] by simp_all
  have cm: "cos (midTheta cfg e' (now + LOOP_DURATION_MS cfg)) = cos (midTheta cfg e now)"
    and sm: "sin (midTheta cfg e' (now + LOOP_DURATION_MS cfg)) = sin (midTheta cfg e now)"
    unfolding midTheta_def using layer_theta_shift[OF js_or_Ints[OF mid] k] by simp_all
  have md: "minDim e' = minDim e" by (simp add: minDim_def lay)
  show ?thesis
  proof (cases "moving (movingFlags e) i")
    case False
    then show ?thesis using st by (simp add: moveNode_def lay)
  next
    case True
    then show ?thesis
      using orbit_cong[OF cn sn n(1,2,4)] orbit_cong[OF cm sm n(1,2,4)]
      by (simp add: moveNode_def Let_def lay md n(3))
  qed
qed

text \<open>
  Claim C1 (seamless looping). For a loop duration other than zero and integer cycle counts of
  the near and the mid layer, a simulation step at time \<open>now + LOOP_DURATION_MS\<close> gives
  every foreground node the position that a step at time \<open>now\<close> gives it. The two steps
  may start from different engine states with the same layout (in particular from the same
  state, or from states any number of steps apart): the position of a moving node is computed
  from the loop angle, its origin and its seed phase, not from its previous position. The
  equality is exact in the real arithmetic of the model.
\<close>

theorem seamless_loop:
  assumes L: "LOOP_DURATION_MS cfg \<noteq> 0"
    and near: "ELLIPSE_NEAR_CYCLES cfg \<in> \<int>" and mid: "ELLIPSE_MID_CYCLES cfg \<in> \<int>"
    and lay: "sameLayout e e'"
    and u1: "update cfg dt_ms now e = Inr e1"
    and u2: "update cfg dt_ms' (now + LOOP_DURATION_MS cfg) e' = Inr e2"
  shows "map (\<lambda>n. (n_x n, n_y n)) (nodes e2) = map (\<lambda>n. (n_x n, n_y n)) (nodes e1)"
proof -
  from update_nodes[OF u1] obtain b0 b1 where
    b: "js_nth (PARALLAX_BANDS cfg) 0 = Some b0" "js_nth (PARALLAX_BANDS cfg) 1 = Some b1" and
    n1: "nodes e1 = map (\<lambda>(i, n). moveNode cfg e now b0 b1 i n) (zip [0 ..< length (nodes e)] (nodes e))"
    by blast
  from update_nodes[OF u2] b have
    n2: "nodes e2 = map (\<lambda>(i, n). moveNode cfg e' (now + LOOP_DURATION_MS cfg) b0 b1 i n)
           (zip [0 ..< length (nodes e')] (nodes e'))"
    by auto
  have len: "length (nodes e') = length (nodes e)" using lay by (simp add: sameLayout_def)
  show ?thesis
  proof (rule nth_equalityI)
    show "length (map (\<lambda>n. (n_x n, n_y n)) (nodes e2)) = length (map (\<lambda>n. (n_x n, n_y n)) (nodes e1))"
      by (simp add: n1 n2 len)
  next
    fix i assume "i < length (map (\<lambda>n. (n_x n, n_y n)) (nodes e2))"
    then have i: "i < length (nodes e)" by (simp add: n2 len)
    have i1: "nodes e1 ! i = moveNode cfg e now b0 b1 i (nodes e ! i)"
      unfolding n1 using i by simp
    have i2: "nodes e2 ! i = moveNode cfg e' (now + LOOP_DURATION_MS cfg) b0 b1 i (nodes e' ! i)"
      unfolding n2 using i len by simp
    have "n_x (nodes e2 ! i) = n_x (nodes e1 ! i) \<and> n_y (nodes e2 ! i) = n_y (nodes e1 ! i)"
      unfolding i1 i2
      using lay i by (intro moveNode_periodic[OF L near mid]) (simp_all add: sameLayout_def)
    then show "map (\<lambda>n. (n_x n, n_y n)) (nodes e2) ! i = map (\<lambda>n. (n_x n, n_y n)) (nodes e1) ! i"
      using i len by (simp add: n1 n2)
  qed
qed

lemma js_int32_floor:
  assumes "0 \<le> v" and "v < 2147483648"
  shows "js_int32 v = \<lfloor>v\<rfloor>"
proof -
  have lo: "0 \<le> \<lfloor>v\<rfloor>" using assms(1) by simp
  have hi: "\<lfloor>v\<rfloor> < 2147483648" using assms(2) by (simp add: floor_less_iff)
  have "js_trunc v = \<lfloor>v\<rfloor>" using assms(1) by (simp add: js_trunc_def)
  moreover have "\<lfloor>v\<rfloor> mod 4294967296 = \<lfloor>v\<rfloor>" using lo hi by simp
  ultimately show ?thesis using hi by (simp add: js_int32_def Let_def)
qed

lemma random_index:
  assumes "0 \<le> r" and "r < 1" and "0 < n" and "n < 2147483648"
  shows "0 \<le> js_int32 (r * real n)" and "nat (js_int32 (r * real n)) < n"
proof -
  have nn: "0 \<le> r * real n" using assms(1) by simp
  have lt: "r * real n < real n" using assms(2,3) by simp
  then have "r * real n < 2147483648" using assms(4) by linarith
  then have eq: "js_int32 (r * real n) = \<lfloor>r * real n\<rfloor>" using nn by (rule js_int32_floor[rotated])
  show "0 \<le> js_int32 (r * real n)" using nn by (simp add: eq)
  have "\<lfloor>r * real n\<rfloor> < int n" using lt by (simp add: floor_less_iff)
  moreover have "0 \<le> \<lfloor>r * real n\<rfloor>" using nn by simp
  ultimately show "nat (js_int32 (r * real n)) < n" unfolding eq by linarith
qed

lemma unit_rng_random:
  assumes "unit_rng g"
  shows "0 \<le> fst (Math_random g)" and "fst (Math_random g) < 1" and "unit_rng (snd (Math_random g))"
  using assms by (simp_all add: unit_rng_def Math_random_def)

lemma js_nth_Some: "0 \<le> k \<Longrightarrow> nat k < length xs \<Longrightarrow> js_nth xs k = Some (xs ! nat k)"
  by (simp add: js_nth_def)

lemma js_nth_int: "i < length xs \<Longrightarrow> js_nth xs (int i) = Some (xs ! i)"
  by (simp add: js_nth_def)

lemma pickLink_wf:
  assumes "wfLinks e"
  shows "\<exists>li. fst (pickLink e) = Some li \<and> (li = - 1 \<or> (0 \<le> li \<and> nat li < length (links e)))"
    and "unit_rng (snd (pickLink e))"
proof -
  have rng: "unit_rng (random e)" and dyn: "list_all (\<lambda>idx. idx < length (links e)) (dynamicLinks e)"
    and len: "length (links e) < 2147483648" and dlen: "length (dynamicLinks e) < 2147483648"
    using assms by (simp_all add: wfLinks_def)
  obtain r g where rg: "Math_random (random e) = (r, g)" by (cases "Math_random (random e)")
  have r: "0 \<le> r" "r < 1" and g: "unit_rng g" using unit_rng_random[OF rng] rg by simp_all
  show "unit_rng (snd (pickLink e))" using rng g rg by (simp add: pickLink_def)
  show "\<exists>li. fst (pickLink e) = Some li \<and> (li = - 1 \<or> (0 \<le> li \<and> nat li < length (links e)))"
  proof (cases "0 < length (dynamicLinks e)")
    case True
    have k: "0 \<le> js_int32 (r * real (length (dynamicLinks e)))"
      "nat (js_int32 (r * real (length (dynamicLinks e)))) < length (dynamicLinks e)"
      using random_index[OF r True dlen] by simp_all
    then have "dynamicLinks e ! nat (js_int32 (r * real (length (dynamicLinks e)))) < length (links e)"
      using dyn by (simp add: list_all_length)
    then show ?thesis using True rg k by (simp add: pickLink_def js_nth_Some)
  next
    case False
    show ?thesis
    proof (cases "0 < length (links e)")
      case True
      have "0 \<le> js_int32 (r * real (length (links e)))" "nat (js_int32 (r * real (length (links e)))) < length (links e)"
        using random_index[OF r True len] by simp_all
      then show ?thesis using False True rg by (simp add: pickLink_def)
    next
      case F2: False
      then show ?thesis using False by (simp add: pickLink_def)
    qed
  qed
qed

lemma spawnPulse_ok:
  assumes "wfLinks e"
  shows "\<exists>e'. spawnPulse cfg now e = Inr e'"
proof (cases "PULSE_SPAWN_EVERY_MS cfg \<le> now - lastPulseSpawn e \<and> real (pulsesLen e) < pulseMaxActive e")
  case False
  then show ?thesis by (auto simp: spawnPulse_def)
next
  case True
  obtain p pool where pg: "pool_get (pulsePool e) = (p, pool)" by (cases "pool_get (pulsePool e)")
  obtain lo g where pl: "pickLink e = (lo, g)" by (cases "pickLink e")
  from pickLink_wf(1)[OF assms] pl obtain li where
    li: "lo = Some li" "li = - 1 \<or> (0 \<le> li \<and> nat li < length (links e))" by auto
  show ?thesis
  proof (cases "li = - 1")
    case T: True
    then show ?thesis using True pg pl li(1) by (simp add: spawnPulse_def)
  next
    case F: False
    then have rng: "0 \<le> li" "nat li < length (links e)" using li(2) by simp_all
    define L where "L = links e ! nat li"
    have L: "js_nth (links e) li = Some L" using rng by (simp add: js_nth_Some L_def)
    have "L \<in> set (links e)" using rng by (simp add: L_def)
    then have "l_ai L < length (nodes e)" "l_bi L < length (nodes e)"
      using assms by (auto simp: wfLinks_def list_all_iff)
    then have "js_nth (nodes e) (int (l_ai L)) = Some (nodes e ! l_ai L)"
      "js_nth (nodes e) (int (l_bi L)) = Some (nodes e ! l_bi L)"
      by (simp_all add: js_nth_int)
    then show ?thesis using True pg pl li(1) F L by (simp add: spawnPulse_def)
  qed
qed

lemma spawnPulse_random:
  assumes "spawnPulse cfg now e = Inr e'"
  shows "random e' = random e \<or> random e' = snd (pickLink e)"
  using assms
  by (auto simp: spawnPulse_def Let_def split: if_splits prod.splits option.splits)

lemma spawnPulse_wf:
  assumes "wfLinks e" and "spawnPulse cfg now e = Inr e'"
  shows "wfLinks e'"
proof -
  have "unit_rng (random e')"
    using spawnPulse_random[OF assms(2)] pickLink_wf(2)[OF assms(1)] assms(1)
    by (auto simp: wfLinks_def)
  then show ?thesis
    using assms(1) spawnPulse_frame[OF assms(2)] by (simp add: wfLinks_def)
qed

lemma updateMotion_ok:
  assumes "2 \<le> length (PARALLAX_BANDS cfg)"
  shows "\<exists>e'. updateMotion cfg now e = Inr e'"
proof -
  have "js_nth (PARALLAX_BANDS cfg) 0 = Some (PARALLAX_BANDS cfg ! 0)"
    "js_nth (PARALLAX_BANDS cfg) 1 = Some (PARALLAX_BANDS cfg ! 1)"
    using assms by (auto simp: js_nth_def)
  then show ?thesis by (simp add: updateMotion_def Let_def)
qed

lemma updateMotion_wf:
  assumes "wfLinks e" and "updateMotion cfg now e = Inr e'"
  shows "wfLinks e'"
proof -
  from updateMotion_Inr(1)[OF assms(2)] have "length (nodes e') = length (nodes e)" by auto
  then show ?thesis using assms(1) updateMotion_Inr(2-)[OF assms(2)] by (simp add: wfLinks_def)
qed

lemma advance_random: "random (advance cfg dt e) = random e"
  by (simp add: advance_def Let_def split: prod.splits)

lemma advance_wf: "wfLinks e \<Longrightarrow> wfLinks (advance cfg dt e)"
  by (simp add: wfLinks_def advance_frame advance_random)

lemma update_ok:
  assumes "2 \<le> length (PARALLAX_BANDS cfg)" and "wfLinks e"
  shows "\<exists>e'. update cfg dt now e = Inr e' \<and> wfLinks e'"
proof -
  from updateMotion_ok[OF assms(1)] obtain e1 where e1: "updateMotion cfg now e = Inr e1" by blast
  have w1: "wfLinks e1" by (rule updateMotion_wf[OF assms(2) e1])
  from spawnPulse_ok[OF w1] obtain e2 where e2: "spawnPulse cfg now e1 = Inr e2" by blast
  have w2: "wfLinks e2" by (rule spawnPulse_wf[OF w1 e2])
  show ?thesis using e1 e2 advance_wf[OF w2] by (simp add: update_def)
qed

lemma unit_rng_zero: "unit_rng (\<lambda>k. 0)"
  by (simp add: unit_rng_def)

lemma exampleEngine_wf: "wfLinks exampleEngine"
  by (simp add: wfLinks_def exampleEngine_def unit_rng_zero)

lemma CONFIG_bands: "2 \<le> length (PARALLAX_BANDS CONFIG)"
  by (simp add: CONFIG_def)

lemma projr_update:
  assumes "2 \<le> length (PARALLAX_BANDS cfg)" and "wfLinks e"
  shows "update cfg dt now e = Inr (projr (update cfg dt now e))"
  using update_ok[OF assms, of dt now] by auto

theorem update_frame_witness:
  "update CONFIG (100 / 3) 1000 exampleEngine = Inr (projr (update CONFIG (100 / 3) 1000 exampleEngine)) \<and>
   (2::nat) < length (nodes exampleEngine) \<and>
   \<not> moving (movingFlags exampleEngine) 2 \<and>
   nodes (projr (update CONFIG (100 / 3) 1000 exampleEngine)) ! 2 = nodes exampleEngine ! 2 \<and>
   n_ox (nodes (projr (update CONFIG (100 / 3) 1000 exampleEngine)) ! 2) = 400"
proof -
  have u: "update CONFIG (100 / 3) 1000 exampleEngine = Inr (projr (update CONFIG (100 / 3) 1000 exampleEngine))"
    by (rule projr_update[OF CONFIG_bands exampleEngine_wf])
  have i: "(2::nat) < length (nodes exampleEngine)" by (simp add: exampleEngine_def)
  have m: "\<not> moving (movingFlags exampleEngine) 2" by (simp add: exampleEngine_def moving_def)
  have o: "n_ox (nodes exampleEngine ! 2) = 400" by (simp add: exampleEngine_def)
  show ?thesis using update_frame[OF u i] u i m o by simp
qed

lemma sameLayout_refl: "sameLayout e e"
  by (simp add: sameLayout_def)

theorem seamless_loop_witness:
  "LOOP_DURATION_MS CONFIG \<noteq> 0 \<and> ELLIPSE_NEAR_CYCLES CONFIG \<in> \<int> \<and> ELLIPSE_MID_CYCLES CONFIG \<in> \<int> \<and>
   sameLayout exampleEngine exampleEngine \<and>
   update CONFIG (100 / 3) 1000 exampleEngine = Inr (projr (update CONFIG (100 / 3) 1000 exampleEngine)) \<and>
   update CONFIG (100 / 3) (1000 + LOOP_DURATION_MS CONFIG) exampleEngine
     = Inr (projr (update CONFIG (100 / 3) (1000 + LOOP_DURATION_MS CONFIG) exampleEngine)) \<and>
   map (\<lambda>n. (n_x n, n_y n)) (nodes (projr (update CONFIG (100 / 3) (1000 + LOOP_DURATION_MS CONFIG) exampleEngine)))
     = map (\<lambda>n. (n_x n, n_y n)) (nodes (projr (update CONFIG (100 / 3) 1000 exampleEngine)))"
proof -
  have L: "LOOP_DURATION_MS CONFIG \<noteq> 0" by (simp add: CONFIG_def)
  have c1: "ELLIPSE_NEAR_CYCLES CONFIG \<in> \<int>" and c2: "ELLIPSE_MID_CYCLES CONFIG \<in> \<int>"
    by (simp_all add: CONFIG_def)
  have u1: "update CONFIG (100 / 3) 1000 exampleEngine = Inr (projr (update CONFIG (100 / 3) 1000 exampleEngine))"
    by (rule projr_update[OF CONFIG_bands exampleEngine_wf])
  have u2: "update CONFIG (100 / 3) (1000 + LOOP_DURATION_MS CONFIG) exampleEngine
     = Inr (projr (update CONFIG (100 / 3) (1000 + LOOP_DURATION_MS CONFIG) exampleEngine))"
    by (rule projr_update[OF CONFIG_bands exampleEngine_wf])
  show ?thesis
    using seamless_loop[OF L c1 c2 sameLayout_refl u1 u2] L c1 c2 sameLayout_refl u1 u2 by blast
qed

lemma advancePulses_eq:
  "advancePulses tInc ps kept pool =
     (kept @ filter (\<lambda>p. \<not> 1 \<le> p_t p) (map (advanceOne tInc) (filter p_active ps)),
      pool @ map resetPulse (filter (\<lambda>p. 1 \<le> p_t p) (map (advanceOne tInc) (filter p_active ps))))"
  by (induction ps arbitrary: kept pool) (simp_all add: Let_def advanceOne_def pool_release_def)

lemma advance_pulses:
  "pulses (advance cfg dt e) =
     filter (\<lambda>p. \<not> 1 \<le> p_t p) (map (advanceOne (PULSE_SPEED cfg * (dt / 1000))) (filter p_active (pulses e)))"
  by (simp add: advance_def Let_def advancePulses_eq)

lemma advance_pulsePool:
  "pulsePool (advance cfg dt e) =
     pulsePool e @ map resetPulse
       (filter (\<lambda>p. 1 \<le> p_t p) (map (advanceOne (PULSE_SPEED cfg * (dt / 1000))) (filter p_active (pulses e))))"
  by (simp add: advance_def Let_def advancePulses_eq)

lemma advance_pulsesLen: "pulsesLen (advance cfg dt e) \<le> pulsesLen e"
proof -
  have "length (filter (\<lambda>p. \<not> 1 \<le> p_t p) (map (advanceOne (PULSE_SPEED cfg * (dt / 1000))) (filter p_active (pulses e))))
        \<le> length (map (advanceOne (PULSE_SPEED cfg * (dt / 1000))) (filter p_active (pulses e)))"
    by (rule length_filter_le)
  also have "\<dots> \<le> length (pulses e)" by simp
  finally show ?thesis by (simp add: pulsesLen_def advance_pulses)
qed

text \<open>What the spawn does to the list of live pulses.\<close>

lemma spawnPulse_pulses:
  assumes "spawnPulse cfg now e = Inr e'"
  shows "pulses e' = pulses e \<or>
         (PULSE_SPAWN_EVERY_MS cfg \<le> now - lastPulseSpawn e \<and> real (pulsesLen e) < pulseMaxActive e \<and>
          (\<exists>p. pulses e' = pulses e @ [p] \<and> p_active p \<and> p_t p = 0 \<and> 1 \<le> p_dist p))"
  using assms
  by (auto simp: spawnPulse_def Let_def split: if_splits prod.splits option.splits)

lemma spawnPulse_pulsesLen:
  assumes "spawnPulse cfg now e = Inr e'" and "pulseMaxActive e \<in> \<int>"
  shows "real (pulsesLen e') \<le> max (real (pulsesLen e)) (pulseMaxActive e)"
proof -
  from spawnPulse_pulses[OF assms(1)] show ?thesis
  proof
    assume "pulses e' = pulses e"
    then show ?thesis by (simp add: pulsesLen_def)
  next
    assume "PULSE_SPAWN_EVERY_MS cfg \<le> now - lastPulseSpawn e \<and> real (pulsesLen e) < pulseMaxActive e \<and>
          (\<exists>p. pulses e' = pulses e @ [p] \<and> p_active p \<and> p_t p = 0 \<and> 1 \<le> p_dist p)"
    then obtain p where lt: "real (pulsesLen e) < pulseMaxActive e" and p: "pulses e' = pulses e @ [p]" by blast
    have "pulsesLen e' = Suc (pulsesLen e)" using p by (simp add: pulsesLen_def)
    moreover obtain m :: int where m: "pulseMaxActive e = of_int m"
      using assms(2) by (auto elim: Ints_cases)
    moreover have "int (pulsesLen e) < m" using lt m by linarith
    then have "real (Suc (pulsesLen e)) \<le> of_int m" by linarith
    ultimately show ?thesis by simp
  qed
qed

lemma spawnPulse_pulseMaxActive:
  assumes "spawnPulse cfg now e = Inr e'"
  shows "pulseMaxActive e' = pulseMaxActive e"
  using assms
  by (auto simp: spawnPulse_def Let_def split: if_splits prod.splits option.splits)

lemma updateMotion_pulses:
  assumes "updateMotion cfg now e = Inr e'"
  shows "pulses e' = pulses e" and "pulsePool e' = pulsePool e" and "pulseMaxActive e' = pulseMaxActive e"
    and "lastPulseSpawn e' = lastPulseSpawn e"
  using assms by (auto simp: updateMotion_def Let_def split: option.splits)

lemma advance_pulseMaxActive: "pulseMaxActive (advance cfg dt e) = pulseMaxActive e"
  by (simp add: advance_def Let_def split: prod.splits)

lemma update_parts:
  assumes "update cfg dt now e = Inr e'"
  shows "\<exists>e1 e2. updateMotion cfg now e = Inr e1 \<and> spawnPulse cfg now e1 = Inr e2 \<and> e' = advance cfg dt e2"
  using assms by (auto simp: update_def split: sum.splits)

lemma update_pulseMaxActive:
  assumes "update cfg dt now e = Inr e'"
  shows "pulseMaxActive e' = pulseMaxActive e"
proof -
  from update_parts[OF assms] obtain e1 e2 where
    "updateMotion cfg now e = Inr e1" "spawnPulse cfg now e1 = Inr e2" "e' = advance cfg dt e2" by blast
  then show ?thesis
    by (simp add: advance_pulseMaxActive spawnPulse_pulseMaxActive updateMotion_pulses)
qed

lemma update_pulsesLen:
  assumes "update cfg dt now e = Inr e'" and "pulseMaxActive e \<in> \<int>"
  shows "real (pulsesLen e') \<le> max (real (pulsesLen e)) (pulseMaxActive e)"
proof -
  from update_parts[OF assms(1)] obtain e1 e2 where
    m: "updateMotion cfg now e = Inr e1" and s: "spawnPulse cfg now e1 = Inr e2" and a: "e' = advance cfg dt e2"
    by blast
  have e1: "pulsesLen e1 = pulsesLen e" "pulseMaxActive e1 = pulseMaxActive e"
    using updateMotion_pulses[OF m] by (simp_all add: pulsesLen_def)
  have "real (pulsesLen e2) \<le> max (real (pulsesLen e)) (pulseMaxActive e)"
    using spawnPulse_pulsesLen[OF s] assms(2) e1 by simp
  moreover have "pulsesLen e' \<le> pulsesLen e2" unfolding a by (rule advance_pulsesLen)
  ultimately show ?thesis by linarith
qed

text \<open>The fields that the layout functions leave alone.\<close>

lemma buildLinks_frame:
  "pulses (buildLinks cfg e) = pulses e" "pulsePool (buildLinks cfg e) = pulsePool e"
  "pulseMaxActive (buildLinks cfg e) = pulseMaxActive e" "nodes (buildLinks cfg e) = nodes e"
  "bgNodes (buildLinks cfg e) = bgNodes e" "movingFlags (buildLinks cfg e) = movingFlags e"
  "width (buildLinks cfg e) = width e" "height (buildLinks cfg e) = height e"
  "bgLinks (buildLinks cfg e) = bgLinks e" "bgLinkDistanceMax (buildLinks cfg e) = bgLinkDistanceMax e"
  "linkDistanceMax (buildLinks cfg e) = linkDistanceMax e"
  "resizePrevW (buildLinks cfg e) = resizePrevW e" "resizePrevH (buildLinks cfg e) = resizePrevH e"
  "loopStart (buildLinks cfg e) = loopStart e" "startPhase (buildLinks cfg e) = startPhase e"
  "lastPulseSpawn (buildLinks cfg e) = lastPulseSpawn e"
  by (simp_all add: buildLinks_def Let_def split: prod.splits)

lemma buildBgLinks_frame:
  "pulses (buildBgLinks cfg e) = pulses e" "pulsePool (buildBgLinks cfg e) = pulsePool e"
  "pulseMaxActive (buildBgLinks cfg e) = pulseMaxActive e" "nodes (buildBgLinks cfg e) = nodes e"
  "bgNodes (buildBgLinks cfg e) = bgNodes e" "movingFlags (buildBgLinks cfg e) = movingFlags e"
  "width (buildBgLinks cfg e) = width e" "height (buildBgLinks cfg e) = height e"
  "links (buildBgLinks cfg e) = links e" "dynamicLinks (buildBgLinks cfg e) = dynamicLinks e"
  "staticLinks (buildBgLinks cfg e) = staticLinks e"
  "bgLinkDistanceMax (buildBgLinks cfg e) = bgLinkDistanceMax e"
  "linkDistanceMax (buildBgLinks cfg e) = linkDistanceMax e"
  "resizePrevW (buildBgLinks cfg e) = resizePrevW e" "resizePrevH (buildBgLinks cfg e) = resizePrevH e"
  "loopStart (buildBgLinks cfg e) = loopStart e" "startPhase (buildBgLinks cfg e) = startPhase e"
  "lastPulseSpawn (buildBgLinks cfg e) = lastPulseSpawn e"
  by (simp_all add: buildBgLinks_def Let_def split: prod.splits)

lemma setupNodesEven_frame:
  assumes "setupNodesEven cfg e = Some (Inr e')"
  shows "pulses e' = pulses e" "pulsePool e' = pulsePool e" "pulseMaxActive e' = pulseMaxActive e"
    "width e' = width e" "height e' = height e" "links e' = links e"
    "linkDistanceMax e' = linkDistanceMax e" "bgLinkDistanceMax e' = bgLinkDistanceMax e"
    "resizePrevW e' = resizePrevW e" "resizePrevH e' = resizePrevH e"
    "loopStart e' = loopStart e" "startPhase e' = startPhase e" "lastPulseSpawn e' = lastPulseSpawn e"
  using assms
  by (auto simp: setupNodesEven_def Let_def split: prod.splits option.splits sum.splits)

lemma applyResponsiveScaling_frame:
  "pulses (applyResponsiveScaling cfg w h e) = pulses e"
  "pulsePool (applyResponsiveScaling cfg w h e) = pulsePool e"
  "nodes (applyResponsiveScaling cfg w h e) = nodes e"
  "bgNodes (applyResponsiveScaling cfg w h e) = bgNodes e"
  "movingFlags (applyResponsiveScaling cfg w h e) = movingFlags e"
  "resizePrevW (applyResponsiveScaling cfg w h e) = resizePrevW e"
  "resizePrevH (applyResponsiveScaling cfg w h e) = resizePrevH e"
  "random (applyResponsiveScaling cfg w h e) = random e"
  "links (applyResponsiveScaling cfg w h e) = links e"
  "dynamicLinks (applyResponsiveScaling cfg w h e) = dynamicLinks e"
  "loopStart (applyResponsiveScaling cfg w h e) = loopStart e"
  "startPhase (applyResponsiveScaling cfg w h e) = startPhase e"
  "lastPulseSpawn (applyResponsiveScaling cfg w h e) = lastPulseSpawn e"
  by (simp_all add: applyResponsiveScaling_def Let_def)

lemma clamp_upper: "a \<le> b \<Longrightarrow> clamp v a b \<le> b"
  by (simp add: clamp_def)

lemma applyResponsiveScaling_pulseMaxActive:
  "pulseMaxActive (applyResponsiveScaling cfg w h e) \<le> real (pulseCeiling cfg)"
  "pulseMaxActive (applyResponsiveScaling cfg w h e) \<in> \<int>"
  by (auto simp: applyResponsiveScaling_def Let_def clamp_def pulseCeiling_def)

text \<open>A resize that returns: the pulses stay, the pulse cap is the one of the new viewport.\<close>

lemma resize_pulses:
  assumes "resize cfg first w h e = Some (Inr e')"
  shows "pulses e' = pulses e" and "pulsePool e' = pulsePool e"
    and "pulseMaxActive e' = pulseMaxActive (applyResponsiveScaling cfg w h e)"
proof -
  define e1 where "e1 = (applyResponsiveScaling cfg w h (e\<lparr>resizePrevW := w, resizePrevH := h\<rparr>))\<lparr>width := w, height := h\<rparr>"
  have e1: "pulses e1 = pulses e" "pulsePool e1 = pulsePool e"
    "pulseMaxActive e1 = pulseMaxActive (applyResponsiveScaling cfg w h e)"
    by (simp_all add: e1_def applyResponsiveScaling_frame) (simp add: applyResponsiveScaling_def Let_def)
  have "pulses e' = pulses e1 \<and> pulsePool e' = pulsePool e1 \<and> pulseMaxActive e' = pulseMaxActive e1"
    using assms unfolding resize_def e1_def[symmetric] Let_def
    by (auto simp: buildLinks_frame buildBgLinks_frame setupNodesEven_frame
             split: prod.splits if_splits option.splits sum.splits)
  then show "pulses e' = pulses e" and "pulsePool e' = pulsePool e"
    and "pulseMaxActive e' = pulseMaxActive (applyResponsiveScaling cfg w h e)"
    using e1 by simp_all
qed

lemma newEngine_pulses:
  assumes "newEngine cfg w h t0 g = Some (Inr e)"
  shows "pulses e = []" and "pulsePool e = newPool (PULSE_POOL_SIZE cfg)"
    and "pulseMaxActive e \<le> real (pulseCeiling cfg)" and "pulseMaxActive e \<in> \<int>"
proof -
  define e0 where "e0 = \<lparr>resizePrevW = js_or w 1, resizePrevH = js_or h 1,
                nodes = [], bgNodes = [], links = [], dynamicLinks = [], staticLinks = [], bgLinks = [],
                movingFlags = [],
                bgDirX = cos (js_or (BG_DRIFT_HEADING_DEG cfg * pi / 180) 0),
                bgDirY = sin (js_or (BG_DRIFT_HEADING_DEG cfg * pi / 180) 0),
                nodeMax = NODE_COUNT cfg, bgNodeMax = BG_NODE_COUNT cfg,
                linkDistanceMax = MAX_LINK_DISTANCE cfg, bgLinkDistanceMax = BG_LINK_MAX_DISTANCE cfg,
                pulseMaxActive = real (PULSE_MAX_ACTIVE cfg),
                width = 0, height = 0,
                pulsePool = [], pulses = [], lastPulseSpawn = 0,
                globalOffsetX = 0, globalOffsetY = 0, bgOffsetX = 0, bgOffsetY = 0,
                loopStart = 0, startPhase = 0, random = g\<rparr>"
  from assms obtain e1 e3 where r: "resize cfg True w h e0 = Some (Inr e1)"
    and s: "setupNodesEven cfg
              (e1\<lparr>pulsePool := newPool (PULSE_POOL_SIZE cfg), pulses := [], lastPulseSpawn := 0,
                  globalOffsetX := 0, globalOffsetY := 0, bgOffsetX := 0, bgOffsetY := 0,
                  loopStart := t0, startPhase := 0 * (pi * 2), random := snd (Math_random (random e1))\<rparr>)
            = Some (Inr e3)"
    and e: "e = buildBgLinks cfg (buildLinks cfg e3)"
    unfolding newEngine_def e0_def[symmetric] Let_def
    by (auto split: option.splits sum.splits prod.splits)
  have p1: "pulseMaxActive e1 = pulseMaxActive (applyResponsiveScaling cfg w h e0)"
    by (rule resize_pulses(3)[OF r])
  have e3: "pulses e3 = []" "pulsePool e3 = newPool (PULSE_POOL_SIZE cfg)" "pulseMaxActive e3 = pulseMaxActive e1"
    using setupNodesEven_frame(1-3)[OF s] by simp_all
  show "pulses e = []" and "pulsePool e = newPool (PULSE_POOL_SIZE cfg)"
    using e e3 by (simp_all add: buildLinks_frame buildBgLinks_frame)
  have "pulseMaxActive e = pulseMaxActive (applyResponsiveScaling cfg w h e0)"
    using e e3 p1 by (simp add: buildLinks_frame buildBgLinks_frame)
  then show "pulseMaxActive e \<le> real (pulseCeiling cfg)" and "pulseMaxActive e \<in> \<int>"
    using applyResponsiveScaling_pulseMaxActive[of cfg w h e0] by simp_all
qed

lemma pool_get_dist:
  assumes "list_all (\<lambda>p. 1 \<le> p_dist p) pool"
  shows "1 \<le> p_dist (fst (pool_get pool))" and "list_all (\<lambda>p. 1 \<le> p_dist p) (snd (pool_get pool))"
proof -
  show "1 \<le> p_dist (fst (pool_get pool))"
    using assms by (cases pool rule: rev_cases) (simp_all add: pool_get_def createPulse_def)
  show "list_all (\<lambda>p. 1 \<le> p_dist p) (snd (pool_get pool))"
    using assms by (cases pool rule: rev_cases) (simp_all add: pool_get_def)
qed

lemma spawnPulse_OK:
  assumes "pulsesOK e" and "spawnPulse cfg now e = Inr e'"
  shows "pulsesOK e'"
proof -
  obtain p pool where pg: "pool_get (pulsePool e) = (p, pool)" by (cases "pool_get (pulsePool e)")
  have pool: "list_all (\<lambda>p. 1 \<le> p_dist p) pool"
    using pool_get_dist(2)[of "pulsePool e"] assms(1) pg by (simp add: pulsesOK_def)
  show ?thesis
    using assms pool pg
    by (auto simp: spawnPulse_def Let_def pulsesOK_def pool_release_def resetPulse_def
             split: if_splits prod.splits option.splits)
qed

lemma advance_OK:
  assumes "pulsesOK e"
  shows "pulsesOK (advance cfg dt e)"
  using assms
  by (auto simp: pulsesOK_def advance_pulses advance_pulsePool list_all_iff advanceOne_def resetPulse_def)

lemma update_OK:
  assumes "pulsesOK e" and "update cfg dt now e = Inr e'"
  shows "pulsesOK e'"
proof -
  from update_parts[OF assms(2)] obtain e1 e2 where
    m: "updateMotion cfg now e = Inr e1" and s: "spawnPulse cfg now e1 = Inr e2" and a: "e' = advance cfg dt e2"
    by blast
  have "pulsesOK e1" using assms(1) updateMotion_pulses[OF m] by (simp add: pulsesOK_def)
  then show ?thesis unfolding a by (intro advance_OK spawnPulse_OK[OF _ s])
qed

lemma newPool_dist: "list_all (\<lambda>p. 1 \<le> p_dist p) (newPool n)"
  by (simp add: newPool_def createPulse_def list_all_iff)

text \<open>The invariant of the pulse scheduler over the reachable states.\<close>

lemma reachable_pulses:
  assumes "reachable cfg e"
  shows "pulsesLen e \<le> pulseCeiling cfg \<and> pulseMaxActive e \<le> real (pulseCeiling cfg) \<and>
         pulseMaxActive e \<in> \<int> \<and> pulsesOK e"
  using assms
proof (induction rule: reachable.induct)
  case (constructed w h t0 g e)
  then show ?case
    using newEngine_pulses[OF constructed] by (simp add: pulsesLen_def pulsesOK_def newPool_dist)
next
  case (ticked e dt_ms now e')
  have "real (pulsesLen e') \<le> max (real (pulsesLen e)) (pulseMaxActive e)"
    using update_pulsesLen[OF ticked(2)] ticked.IH by simp
  moreover have "real (pulsesLen e) \<le> real (pulseCeiling cfg)" using ticked.IH by simp
  ultimately have "real (pulsesLen e') \<le> real (pulseCeiling cfg)" using ticked.IH by linarith
  then have "pulsesLen e' \<le> pulseCeiling cfg" by simp
  then show ?case
    using ticked.IH update_pulseMaxActive[OF ticked(2)] update_OK[OF _ ticked(2)] by simp
next
  case (resized e w h e')
  show ?case
    using resized.IH resize_pulses[OF resized(2)] applyResponsiveScaling_pulseMaxActive[of cfg w h e]
    by (simp add: pulsesLen_def pulsesOK_def)
qed

lemma unit_rng_randomE:
  assumes "unit_rng g" and "Math_random g = (r, g')"
  shows "0 \<le> r" and "r < 1" and "unit_rng g'"
  using unit_rng_random[OF assms(1)] assms(2) by simp_all

lemma tryPlace_rng: "unit_rng g \<Longrightarrow> unit_rng (snd (tryPlace w h r grid s n g))"
proof (induction n arbitrary: g)
  case 0
  then show ?case by simp
next
  case (Suc n)
  obtain r1 g1 where a: "Math_random g = (r1, g1)" by (cases "Math_random g")
  obtain r2 g2 where b: "Math_random g1 = (r2, g2)" by (cases "Math_random g1")
  have "unit_rng g2" using unit_rng_randomE(3)[OF unit_rng_randomE(3)[OF Suc.prems a] b] .
  then show ?case using Suc.IH[of g2] a b by (simp add: Let_def)
qed

text \<open>A candidate lies at distance \<open>rr\<close> from the sample it is drawn around.\<close>

lemma candidate_dist:
  "(cos a * rr) * (cos a * rr) + (sin a * rr) * (sin a * rr) = rr * (rr::real)"
proof -
  have "(c * rr) * (c * rr) + (s * rr) * (s * rr) = (c * c + s * s) * (rr * rr)" for c s :: real
    by algebra
  then show ?thesis by (simp add: sin_cos_squared_add3)
qed

lemma sq_less: "\<bar>d\<bar> < (w::real) \<Longrightarrow> d * d < w * w"
  by (metis abs_mult_self_eq abs_ge_zero mult_strict_mono' abs_mult)

lemma tiny_out_of_bounds:
  assumes "inBounds w h sx sy" and "w * w + h * h \<le> r * r" and "0 < r" and "0 \<le> r2"
  shows "\<not> inBounds w h (sx + cos a * (r * (1 + r2))) (sy + sin a * (r * (1 + r2)))"
proof
  define rr where "rr = r * (1 + r2)"
  assume "inBounds w h (sx + cos a * (r * (1 + r2))) (sy + sin a * (r * (1 + r2)))"
  then have c: "inBounds w h (sx + cos a * rr) (sy + sin a * rr)" by (simp add: rr_def)
  have "\<bar>cos a * rr\<bar> < w" "\<bar>sin a * rr\<bar> < h"
    using assms(1) c by (auto simp: inBounds_def abs_less_iff)
  then have "(cos a * rr) * (cos a * rr) < w * w" "(sin a * rr) * (sin a * rr) < h * h"
    by (simp_all add: sq_less)
  then have "rr * rr < w * w + h * h" using candidate_dist[of a rr] by linarith
  moreover have "r \<le> rr" using assms(3,4) by (simp add: rr_def mult_le_cancel_left1)
  then have "r * r \<le> rr * rr" using assms(3) by (intro mult_mono) simp_all
  ultimately show False using assms(2) by linarith
qed

lemma tryPlace_tiny:
  assumes "inBounds w h (s_x s) (s_y s)" and "w * w + h * h \<le> r * r" and "0 < r" and "unit_rng g"
  shows "fst (tryPlace w h r grid s n g) = None"
  using assms(4)
proof (induction n arbitrary: g)
  case 0
  then show ?case by simp
next
  case (Suc n)
  obtain r1 g1 where a: "Math_random g = (r1, g1)" by (cases "Math_random g")
  obtain r2 g2 where b: "Math_random g1 = (r2, g2)" by (cases "Math_random g1")
  have g1: "unit_rng g1" by (rule unit_rng_randomE(3)[OF Suc.prems a])
  have r2: "0 \<le> r2" and g2: "unit_rng g2" using unit_rng_randomE[OF g1 b] by simp_all
  have "\<not> inBounds w h (s_x s + cos (r1 * pi * 2) * (r * (1 + r2))) (s_y s + sin (r1 * pi * 2) * (r * (1 + r2)))"
    by (rule tiny_out_of_bounds[OF assms(1-3) r2])
  then show ?case using Suc.IH[OF g2] a b by (simp add: Let_def)
qed

lemma sqrt2_bounds: "1 < sqrt 2" "sqrt 2 < 2"
proof -
  show "1 < sqrt 2" by simp
  have "sqrt 2 < sqrt 4" by (rule real_sqrt_less_mono) simp
  then show "sqrt 2 < 2" by simp
qed

lemma cellSize_pos: "0 < r \<Longrightarrow> 0 < cellSize r"
  by (simp add: cellSize_def)

lemma grid_tiny:
  assumes "0 < w" and "w \<le> r"
  shows "1 \<le> \<lceil>w / cellSize r\<rceil>" and "\<lceil>w / cellSize r\<rceil> \<le> 2"
proof -
  have r: "0 < r" using assms by linarith
  have pos: "0 < w / cellSize r" using assms(1) cellSize_pos[OF r] by simp
  then show "1 \<le> \<lceil>w / cellSize r\<rceil>" by (simp add: Suc_le_eq less_ceiling_iff)
  have "w / cellSize r = (w / r) * sqrt 2" by (simp add: cellSize_def)
  moreover have "w / r \<le> 1" using assms r by simp
  then have "(w / r) * sqrt 2 \<le> 1 * sqrt 2" by (intro mult_right_mono) simp_all
  ultimately have "w / cellSize r \<le> 2" using sqrt2_bounds(2) by linarith
  then show "\<lceil>w / cellSize r\<rceil> \<le> 2" by (simp add: ceiling_le_iff)
qed

lemma le_of_sq: 
  assumes "w * w + h * h \<le> r * r" and "0 < (r::real)" and "0 < w" and "0 < h"
  shows "w \<le> r" and "h \<le> r"
proof -
  have ww: "w * w \<le> r * r" and hh: "h * h \<le> r * r"
    using assms(1) zero_le_square[of h] zero_le_square[of w] by linarith+
  show "w \<le> r"
  proof (rule ccontr)
    assume "\<not> w \<le> r"
    then have "r * r < w * w" using assms(2) by (intro mult_strict_mono) simp_all
    then show False using ww by linarith
  qed
  show "h \<le> r"
  proof (rule ccontr)
    assume "\<not> h \<le> r"
    then have "r * r < h * h" using assms(2) by (intro mult_strict_mono) simp_all
    then show False using hh by linarith
  qed
qed

text \<open>On a region whose diagonal is at most \<open>r\<close> the sampler returns the centre alone.\<close>

lemma poisson_tiny:
  assumes "0 < w" and "0 < h" and "0 < r" and "w * w + h * h \<le> r * r" and "unit_rng g"
  shows "\<exists>g'. poisson w h r k g = Some (Inr ([\<lparr>s_x = w / 2, s_y = h / 2\<rparr>], g')) \<and> unit_rng g'"
proof -
  define c where "c = \<lparr>s_x = w / 2, s_y = h / 2\<rparr>"
  define st where "st = addSample w r (w / 2) (h / 2)
                \<lparr>ps_grid = (\<lambda>c. None), ps_active = [], ps_samples = [], ps_random = g\<rparr>"
  have st: "ps_active st = [c]" "ps_samples st = [c]" "ps_random st = g"
    by (simp_all add: st_def addSample_def c_def Let_def)
  have gw: "1 \<le> gridW w r" "gridW w r \<le> 2" and gh: "1 \<le> gridH h r" "gridH h r \<le> 2"
    using grid_tiny[OF assms(1) le_of_sq(1)[OF assms(4,3,1,2)]]
      grid_tiny[OF assms(2) le_of_sq(2)[OF assms(4,3,1,2)]]
    by (simp_all add: gridW_def gridH_def)
  have "0 \<le> gridW w r * gridH h r" using gw gh by simp
  moreover have "gridW w r * gridH h r \<le> 2 * 2" using gw gh by (intro mult_mono) simp_all
  ultimately have norange: "\<not> (r = 0 \<or> gridW w r * gridH h r < 0 \<or> 4294967296 \<le> gridW w r * gridH h r)"
    using assms(3) by simp
  obtain r0 g0 where a: "Math_random g = (r0, g0)" by (cases "Math_random g")
  have r0: "0 \<le> r0" "r0 < 1" and g0: "unit_rng g0" using unit_rng_randomE[OF assms(5) a] by simp_all
  have "js_trunc r0 = 0" using r0 by (simp add: js_trunc_def floor_eq_iff)
  then have idx: "js_int32 r0 = 0" by (simp add: js_int32_def)
  have inb: "inBounds w h (s_x c) (s_y c)" using assms(1,2) by (simp add: inBounds_def c_def)
  obtain g1 where t: "tryPlace w h r (ps_grid st) c k g0 = (None, g1)"
    using tryPlace_tiny[OF inb assms(4,3) g0, of "ps_grid st" k] by (cases "tryPlace w h r (ps_grid st) c k g0") simp
  have g1: "unit_rng g1" using tryPlace_rng[OF g0, of w h r "ps_grid st" c k] t by simp
  have "poissonLoop w h r k st = poissonLoop w h r k (st\<lparr>ps_active := [], ps_random := g1\<rparr>)"
    by (subst poissonLoop.simps) (simp add: st a idx js_nth_def t Let_def)
  also have "\<dots> = Some (Inr ([c], g1))"
    by (subst poissonLoop.simps) (simp add: st)
  finally show ?thesis using norange g1 unfolding poisson_def st_def[symmetric] c_def by simp
qed

lemma bandForZ_ok: "PARALLAX_BANDS cfg \<noteq> [] \<Longrightarrow> \<exists>b. bandForZ cfg z = Some b"
  by (cases "PARALLAX_BANDS cfg") (auto simp: bandForZ_def js_nth_def split: option.splits)

lemma basePoint_rng: "unit_rng g \<Longrightarrow> unit_rng (snd (basePoint pts i w h g))"
  by (auto simp: basePoint_def Let_def split: prod.splits dest: unit_rng_randomE(3))

lemma makeNodes_ok:
  assumes "PARALLAX_BANDS cfg \<noteq> []" and "unit_rng g"
  shows "\<exists>ns fl g'. makeNodes cfg w h sp pts i count g = Inr (ns, fl, g') \<and> unit_rng g' \<and>
           length ns = count \<and> length fl = count"
  using assms(2)
proof (induction count arbitrary: i g)
  case 0
  then show ?case by simp
next
  case (Suc count)
  obtain bp g0 where a: "basePoint pts i w h g = (bp, g0)" by (cases "basePoint pts i w h g")
  have g0: "unit_rng g0" using basePoint_rng[OF Suc.prems, of pts i w h] a by simp
  obtain r1 g1 where b: "Math_random g0 = (r1, g1)" by (cases "Math_random g0")
  have g1: "unit_rng g1" by (rule unit_rng_randomE(3)[OF g0 b])
  obtain r2 g2 where c: "Math_random g1 = (r2, g2)" by (cases "Math_random g1")
  have g2: "unit_rng g2" by (rule unit_rng_randomE(3)[OF g1 c])
  obtain z g3 where d: "Math_random g2 = (z, g3)" by (cases "Math_random g2")
  have g3: "unit_rng g3" by (rule unit_rng_randomE(3)[OF g2 d])
  obtain band where bd: "bandForZ cfg z = Some band" using bandForZ_ok[OF assms(1)] by blast
  obtain r4 g4' where f: "Math_random g3 = (r4, g4')" by (cases "Math_random g3")
  have g4': "unit_rng g4'" by (rule unit_rng_randomE(3)[OF g3 f])
  define g4 where "g4 = (if RANDOMIZE_NODE_PHASES cfg then g4' else g3)"
  have g4: "unit_rng g4" using g3 g4' by (simp add: g4_def)
  from Suc.IH[OF g4, of "Suc i"] obtain ns fl g5 where
    rec: "makeNodes cfg w h sp pts (Suc i) count g4 = Inr (ns, fl, g5)" and g5: "unit_rng g5"
    and len: "length ns = count" "length fl = count" by blast
  show ?case
    using a b c d bd f rec g5 len
    by (cases "RANDOMIZE_NODE_PHASES cfg") (simp_all add: Let_def g4_def)
qed

lemma makeBgNodes_ok:
  assumes "unit_rng g"
  shows "unit_rng (snd (makeBgNodes w h sp pts i count g)) \<and> length (fst (makeBgNodes w h sp pts i count g)) = count"
  using assms
proof (induction count arbitrary: i g)
  case 0
  then show ?case by simp
next
  case (Suc count)
  obtain bp g0 where a: "basePoint pts i w h g = (bp, g0)" by (cases "basePoint pts i w h g")
  have g0: "unit_rng g0" using basePoint_rng[OF Suc.prems, of pts i w h] a by simp
  obtain r1 g1 where b: "Math_random g0 = (r1, g1)" by (cases "Math_random g0")
  have g1: "unit_rng g1" by (rule unit_rng_randomE(3)[OF g0 b])
  obtain r2 g2 where c: "Math_random g1 = (r2, g2)" by (cases "Math_random g1")
  have g2: "unit_rng g2" by (rule unit_rng_randomE(3)[OF g1 c])
  obtain r3 g3 where d: "Math_random g2 = (r3, g3)" by (cases "Math_random g2")
  have g3: "unit_rng g3" by (rule unit_rng_randomE(3)[OF g2 d])
  obtain bs g4 where rec: "makeBgNodes w h sp pts (Suc i) count g3 = (bs, g4)"
    by (cases "makeBgNodes w h sp pts (Suc i) count g3")
  show ?case
    using a b c d rec Suc.IH[OF g3, of "Suc i"] by (simp add: Let_def)
qed

lemma sq_ge_324: "18 \<le> (r::real) \<Longrightarrow> 324 \<le> r * r"
proof -
  assume "18 \<le> r"
  then have "18 * 18 \<le> r * r" by (intro mult_mono) simp_all
  then show ?thesis by simp
qed

text \<open>
  On a viewport whose diagonal is at most 18 the two sampling radii exceed the diagonal, so
  the setup of the nodes returns.
\<close>

lemma setupNodesEven_tiny:
  assumes "0 < width e" and "0 < height e" and "width e * width e + height e * height e \<le> 324"
    and "PARALLAX_BANDS cfg \<noteq> []" and "unit_rng (random e)"
  shows "\<exists>e'. setupNodesEven cfg e = Some (Inr e') \<and> unit_rng (random e')"
proof -
  obtain nodeCount bgCount where tc: "getTargetCounts cfg e = (nodeCount, bgCount)"
    by (cases "getTargetCounts cfg e")
  define area where "area = width e * height e"
  define spacing where "spacing = sqrt (area / of_int nodeCount)"
  define r where "r = max 18 (spacing * (55 / 100))"
  define bgSpacing where "bgSpacing = sqrt (area / of_int bgCount)"
  define rbg where "rbg = max 24 (bgSpacing * (6 / 10))"
  have "18 \<le> r" by (simp add: r_def)
  then have r: "0 < r" "width e * width e + height e * height e \<le> r * r"
    using sq_ge_324[of r] assms(3) by linarith+
  have "18 \<le> rbg" by (simp add: rbg_def)
  then have rbg: "0 < rbg" "width e * width e + height e * height e \<le> rbg * rbg"
    using sq_ge_324[of rbg] assms(3) by linarith+
  from poisson_tiny[OF assms(1,2) r assms(5), of 30] obtain pts g1 where
    p1: "poisson (width e) (height e) r 30 (random e) = Some (Inr (pts, g1))" and g1: "unit_rng g1" by blast
  from makeNodes_ok[OF assms(4) g1] obtain ns fl g2 where
    mk: "makeNodes cfg (width e) (height e) spacing pts 0 (nat nodeCount) g1 = Inr (ns, fl, g2)"
    and g2: "unit_rng g2" by blast
  from poisson_tiny[OF assms(1,2) rbg g2, of 30] obtain bgPts g3 where
    p2: "poisson (width e) (height e) rbg 30 g2 = Some (Inr (bgPts, g3))" and g3: "unit_rng g3" by blast
  obtain bs g4 where bg: "makeBgNodes (width e) (height e) bgSpacing bgPts 0 (nat bgCount) g3 = (bs, g4)"
    by (cases "makeBgNodes (width e) (height e) bgSpacing bgPts 0 (nat bgCount) g3")
  have g4: "unit_rng g4" using makeBgNodes_ok[OF g3, of "width e" "height e" bgSpacing bgPts 0 "nat bgCount"] bg by simp
  have "setupNodesEven cfg e = Some (Inr (e\<lparr>nodes := ns, movingFlags := fl, bgNodes := bs, random := g4\<rparr>))"
    unfolding setupNodesEven_def tc Let_def prod.case
      area_def[symmetric] spacing_def[symmetric] r_def[symmetric] bgSpacing_def[symmetric] rbg_def[symmetric]
    by (simp add: p1 mk p2 bg)
  then show ?thesis using g4 by simp
qed

lemma resize_first:
  "resize cfg True w h e =
     Some (Inr ((applyResponsiveScaling cfg w h (e\<lparr>resizePrevW := w, resizePrevH := h\<rparr>))\<lparr>width := w, height := h\<rparr>))"
  by (simp add: resize_def Let_def split: prod.splits)

lemma buildLinks_exists: "\<exists>e'. buildBgLinks cfg (buildLinks cfg e) = e'"
  by simp

lemma newEngine_tiny:
  assumes "0 < w" and "0 < h" and "w * w + h * h \<le> 324" and "PARALLAX_BANDS cfg \<noteq> []" and "unit_rng g"
  shows "\<exists>e. newEngine cfg w h t0 g = Some (Inr e)"
proof -
  define e0 where "e0 = \<lparr>resizePrevW = js_or w 1, resizePrevH = js_or h 1,
                nodes = [], bgNodes = [], links = [], dynamicLinks = [], staticLinks = [], bgLinks = [],
                movingFlags = [],
                bgDirX = cos (js_or (BG_DRIFT_HEADING_DEG cfg * pi / 180) 0),
                bgDirY = sin (js_or (BG_DRIFT_HEADING_DEG cfg * pi / 180) 0),
                nodeMax = NODE_COUNT cfg, bgNodeMax = BG_NODE_COUNT cfg,
                linkDistanceMax = MAX_LINK_DISTANCE cfg, bgLinkDistanceMax = BG_LINK_MAX_DISTANCE cfg,
                pulseMaxActive = real (PULSE_MAX_ACTIVE cfg),
                width = 0, height = 0,
                pulsePool = [], pulses = [], lastPulseSpawn = 0,
                globalOffsetX = 0, globalOffsetY = 0, bgOffsetX = 0, bgOffsetY = 0,
                loopStart = 0, startPhase = 0, random = g\<rparr>"
  define e1 where "e1 = (applyResponsiveScaling cfg w h (e0\<lparr>resizePrevW := w, resizePrevH := h\<rparr>))\<lparr>width := w, height := h\<rparr>"
  have e1: "width e1 = w" "height e1 = h" "random e1 = g"
    by (simp_all add: e1_def e0_def applyResponsiveScaling_frame)
  obtain r g1 where a: "Math_random (random e1) = (r, g1)" by (cases "Math_random (random e1)")
  have g1: "unit_rng g1" using unit_rng_randomE(3)[OF _ a] assms(5) e1 by simp
  define e2 where "e2 = e1\<lparr>pulsePool := newPool (PULSE_POOL_SIZE cfg), pulses := [], lastPulseSpawn := 0,
                          globalOffsetX := 0, globalOffsetY := 0, bgOffsetX := 0, bgOffsetY := 0,
                          loopStart := t0, startPhase := 0 * (pi * 2), random := g1\<rparr>"
  have e2: "0 < width e2" "0 < height e2" "width e2 * width e2 + height e2 * height e2 \<le> 324" "unit_rng (random e2)"
    using assms e1 g1 by (simp_all add: e2_def)
  from setupNodesEven_tiny[OF e2(1-3) assms(4) e2(4)] obtain e3 where
    s: "setupNodesEven cfg e2 = Some (Inr e3)" by blast
  have "newEngine cfg w h t0 g = Some (Inr (buildBgLinks cfg (buildLinks cfg e3)))"
    unfolding newEngine_def e0_def[symmetric] Let_def resize_first e1_def[symmetric]
    using s by (simp add: a e2_def)
  then show ?thesis by blast
qed

lemma carried_append: "carried cfg dt n (ps @ qs) = carried cfg dt n ps @ carried cfg dt n qs"
  by (simp add: carried_def)

lemma carried_0: "list_all (\<lambda>p. p_t p < 1) ps \<Longrightarrow> carried cfg dt 0 ps = ps"
  by (induction ps) (simp_all add: carried_def)

lemma carried_Suc1:
  assumes "0 \<le> pulseStep cfg dt" and "0 < p_dist p"
  shows "carried cfg dt n (carried cfg dt 1 [p]) = carried cfg dt (Suc n) [p]"
proof -
  define k where "k = pulseStep cfg dt / p_dist p"
  have k: "0 \<le> k" using assms by (simp add: k_def)
  have nk: "0 \<le> real n * k" using k by simp
  have one: "carried cfg dt 1 [p] = (if p_t p + k < 1 then [p\<lparr>p_t := p_t p + k\<rparr>] else [])"
    unfolding carried_def k_def by simp
  have two: "carried cfg dt n [p\<lparr>p_t := p_t p + k\<rparr>]
             = (if p_t p + k + real n * k < 1 then [p\<lparr>p_t := p_t p + k + real n * k\<rparr>] else [])"
    unfolding carried_def k_def by simp
  have three: "carried cfg dt (Suc n) [p]
             = (if p_t p + real (Suc n) * k < 1 then [p\<lparr>p_t := p_t p + real (Suc n) * k\<rparr>] else [])"
    unfolding carried_def k_def by simp
  have eq: "p_t p + k + real n * k = p_t p + real (Suc n) * k" by (simp add: algebra_simps)
  show ?thesis
  proof (cases "p_t p + k < 1")
    case True
    then show ?thesis unfolding one three using two eq by simp
  next
    case False
    then have "\<not> p_t p + real (Suc n) * k < 1" using nk eq by linarith
    then show ?thesis unfolding one three using False by (simp add: carried_def)
  qed
qed

lemma carried_Suc:
  assumes "0 \<le> pulseStep cfg dt" and "list_all (\<lambda>p. 0 < p_dist p) ps"
  shows "carried cfg dt n (carried cfg dt 1 ps) = carried cfg dt (Suc n) ps"
  using assms(2)
proof (induction ps)
  case Nil
  then show ?case by (simp add: carried_def)
next
  case (Cons p ps)
  have hd: "carried cfg dt n (carried cfg dt 1 [p]) = carried cfg dt (Suc n) [p]"
    using Cons.prems by (intro carried_Suc1[OF assms(1)]) simp
  have tl: "carried cfg dt n (carried cfg dt 1 ps) = carried cfg dt (Suc n) ps"
    using Cons by simp
  have "carried cfg dt n (carried cfg dt 1 ([p] @ ps)) = carried cfg dt (Suc n) ([p] @ ps)"
    unfolding carried_append hd tl ..
  then show ?case by simp
qed

lemma advanceOne_fun: "advanceOne tInc = (\<lambda>p. p\<lparr>p_t := p_t p + tInc / p_dist p\<rparr>)"
  by (rule ext) (simp add: advanceOne_def)

lemma advance_carried:
  assumes "list_all p_active (pulses e)"
  shows "pulses (advance cfg dt e) = carried cfg dt 1 (pulses e)"
proof -
  have f: "filter p_active (pulses e) = pulses e" using assms by (simp add: list_all_iff)
  show ?thesis
    by (simp add: advance_pulses f carried_def pulseStep_def advanceOne_fun not_le)
qed

lemma pulsesOK_active: "pulsesOK e \<Longrightarrow> list_all p_active (pulses e)"
  by (simp add: pulsesOK_def list_all_iff)

lemma pulsesOK_dist: "pulsesOK e \<Longrightarrow> list_all (\<lambda>p. 0 < p_dist p) (pulses e)"
  by (auto simp: pulsesOK_def list_all_iff)

lemma update_carried:
  assumes "pulsesOK e" and "update cfg dt now e = Inr e'"
  shows "\<exists>spawned. pulses e' = carried cfg dt 1 (pulses e) @ spawned"
proof -
  from update_parts[OF assms(2)] obtain e1 e2 where
    m: "updateMotion cfg now e = Inr e1" and s: "spawnPulse cfg now e1 = Inr e2" and a: "e' = advance cfg dt e2"
    by blast
  have p1: "pulses e1 = pulses e" by (rule updateMotion_pulses(1)[OF m])
  have ok1: "pulsesOK e1" using assms(1) updateMotion_pulses[OF m] by (simp add: pulsesOK_def)
  have ok2: "pulsesOK e2" by (rule spawnPulse_OK[OF ok1 s])
  have "\<exists>new. pulses e2 = pulses e @ new" using spawnPulse_pulses[OF s] p1 by auto
  then obtain new where new: "pulses e2 = pulses e @ new" by blast
  have "pulses e' = carried cfg dt 1 (pulses e @ new)"
    unfolding a using advance_carried[OF pulsesOK_active[OF ok2]] new by simp
  then show ?thesis by (simp add: carried_append)
qed

lemma ticks_OK:
  assumes "pulsesOK e" and "ticks cfg dt nows e = Inr e'"
  shows "pulsesOK e'"
  using assms
proof (induction nows arbitrary: e)
  case Nil
  then show ?case by simp
next
  case (Cons now nows)
  from Cons.prems(2) obtain e1 where u: "update cfg dt now e = Inr e1" and t: "ticks cfg dt nows e1 = Inr e'"
    by (auto split: sum.splits)
  show ?case by (rule Cons.IH[OF update_OK[OF Cons.prems(1) u] t])
qed

lemma pulsesOK_below: "pulsesOK e \<Longrightarrow> list_all (\<lambda>p. p_t p < 1) (pulses e)"
  by (simp add: pulsesOK_def list_all_iff)

lemma ticks_carried:
  assumes "0 \<le> pulseStep cfg dt" and "pulsesOK e" and "ticks cfg dt nows e = Inr e'"
  shows "\<exists>spawned. pulses e' = carried cfg dt (length nows) (pulses e) @ spawned"
  using assms(2-)
proof (induction nows arbitrary: e)
  case Nil
  then show ?case by (simp add: carried_0 pulsesOK_below)
next
  case (Cons now nows)
  from Cons.prems(2) obtain e1 where u: "update cfg dt now e = Inr e1" and t: "ticks cfg dt nows e1 = Inr e'"
    by (auto split: sum.splits)
  from update_carried[OF Cons.prems(1) u] obtain sp1 where
    sp1: "pulses e1 = carried cfg dt 1 (pulses e) @ sp1" by blast
  from Cons.IH[OF update_OK[OF Cons.prems(1) u] t] obtain sp where
    sp: "pulses e' = carried cfg dt (length nows) (pulses e1) @ sp" by blast
  have "pulses e' = carried cfg dt (Suc (length nows)) (pulses e) @ (carried cfg dt (length nows) sp1 @ sp)"
    unfolding sp sp1 carried_append
    using carried_Suc[OF assms(1) pulsesOK_dist[OF Cons.prems(1)], of "length nows"] by simp
  then show ?case by auto
qed

lemma carried_all_arrived:
  assumes "list_all (\<lambda>p. 0 < p_dist p) ps"
    and "list_all (\<lambda>p. (1 - p_t p) * p_dist p \<le> real n * pulseStep cfg dt) ps"
  shows "carried cfg dt n ps = []"
proof -
  have "\<not> p_t p + real n * (pulseStep cfg dt / p_dist p) < 1" if "p \<in> set ps" for p
  proof -
    have d: "0 < p_dist p" and le: "(1 - p_t p) * p_dist p \<le> real n * pulseStep cfg dt"
      using assms that by (auto simp: list_all_iff)
    have "1 - p_t p \<le> real n * pulseStep cfg dt / p_dist p"
      using le d by (simp add: pos_le_divide_eq)
    then show ?thesis by simp
  qed
  then show ?thesis by (simp add: carried_def filter_empty_conv)
qed

lemma resize_rescale:
  assumes "countsUnchanged cfg w h e"
  shows "resize cfg False w h e =
           Some (Inr (buildBgLinks cfg (buildLinks cfg
             ((afterScaling cfg w h e)
                \<lparr>nodes := map (rescaleNode (resizeScaleX w e) (resizeScaleY h e)) (nodes e),
                 bgNodes := map (rescaleBgNode (resizeScaleX w e) (resizeScaleY h e)) (bgNodes e)\<rparr>))))"
proof -
  have n: "nodes (afterScaling cfg w h e) = nodes e" "bgNodes (afterScaling cfg w h e) = bgNodes e"
    by (simp_all add: afterScaling_def applyResponsiveScaling_frame)
  have tc: "getTargetCounts cfg (afterScaling cfg w h e) = (int (length (nodes e)), int (length (bgNodes e)))"
    and ne: "nodes e \<noteq> []"
    using assms by (simp_all add: countsUnchanged_def)
  show ?thesis
    unfolding resize_def Let_def afterScaling_def[symmetric] tc prod.case n
    using ne by (simp add: resizeScaleX_def resizeScaleY_def)
qed

lemma sqrt_25_16: "sqrt (25 / 16) = 5 / 4"
  by (simp add: real_sqrt_divide)

lemma busy_counts: "countsUnchanged CONFIG 1800 1125 busyEngine"
  by (simp add: countsUnchanged_def afterScaling_def applyResponsiveScaling_def getTargetCounts_def
        busyEngine_def CONFIG_def BASELINE_AREA_def Let_def clamp_def Math_round_def)

text \<open>
  Claim C3, amended (pulse cap). In every reachable state the number of live pulses is at most
  \<open>max 1 PULSE_MAX_ACTIVE\<close>, the largest value \<^verbatim>\<open>pulseMaxActive\<close> takes, and so is
  \<^verbatim>\<open>pulseMaxActive\<close>; where that bound is at most \<^verbatim>\<open>PULSE_POOL_SIZE\<close>, as in the source's
  configuration, both are at most the pool size. A simulation step never raises
  \<^verbatim>\<open>pulsesLen\<close> above the larger of its previous value and \<^verbatim>\<open>pulseMaxActive\<close>; a resize
  leaves \<^verbatim>\<open>pulsesLen\<close> unchanged. The claim as stated, \<open>pulsesLen \<le> pulseMaxActive\<close> at every
  point, fails: a resize to a smaller viewport lowers \<^verbatim>\<open>pulseMaxActive\<close> below the number of
  pulses under way, and no code removes a pulse before it arrives.
\<close>

theorem pulse_cap:
  assumes "reachable cfg e"
  shows "pulsesLen e \<le> pulseCeiling cfg \<and>
         pulseMaxActive e \<le> real (pulseCeiling cfg) \<and>
         (pulseCeiling cfg \<le> PULSE_POOL_SIZE cfg \<longrightarrow>
            pulsesLen e \<le> PULSE_POOL_SIZE cfg \<and> pulseMaxActive e \<le> real (PULSE_POOL_SIZE cfg)) \<and>
         (\<forall>dt_ms now e'. update cfg dt_ms now e = Inr e' \<longrightarrow>
            real (pulsesLen e') \<le> max (real (pulsesLen e)) (pulseMaxActive e)) \<and>
         (\<forall>w h e'. resize cfg False w h e = Some (Inr e') \<longrightarrow> pulsesLen e' = pulsesLen e)"
proof -
  have inv: "pulsesLen e \<le> pulseCeiling cfg" "pulseMaxActive e \<le> real (pulseCeiling cfg)"
    "pulseMaxActive e \<in> \<int>"
    using reachable_pulses[OF assms] by simp_all
  have pool: "pulsesLen e \<le> PULSE_POOL_SIZE cfg \<and> pulseMaxActive e \<le> real (PULSE_POOL_SIZE cfg)"
    if "pulseCeiling cfg \<le> PULSE_POOL_SIZE cfg"
  proof -
    have "real (pulseCeiling cfg) \<le> real (PULSE_POOL_SIZE cfg)" using that by simp
    then show ?thesis using inv(1,2) that by linarith
  qed
  have tick: "real (pulsesLen e') \<le> max (real (pulsesLen e)) (pulseMaxActive e)"
    if "update cfg dt_ms now e = Inr e'" for dt_ms now e'
    by (rule update_pulsesLen[OF that inv(3)])
  have rs: "pulsesLen e' = pulsesLen e" if "resize cfg False w h e = Some (Inr e')" for w h e'
    using resize_pulses(1)[OF that] by (simp add: pulsesLen_def)
  show ?thesis using inv(1,2) pool tick rs by blast
qed

lemma pickLink_none:
  assumes "links e = []" and "wfLinks e"
  shows "pickLink e = (Some (- 1), random e)"
proof -
  have "dynamicLinks e = []"
    using assms by (cases "dynamicLinks e") (simp_all add: wfLinks_def)
  then show ?thesis using assms(1) by (simp add: pickLink_def)
qed

lemma pickLink_some:
  assumes "links e \<noteq> []" and "wfLinks e"
  shows "\<exists>li g. pickLink e = (Some li, g) \<and> 0 \<le> li \<and> nat li < length (links e)"
proof -
  from pickLink_wf(1)[OF assms(2)] obtain li where
    li: "fst (pickLink e) = Some li" "li = - 1 \<or> (0 \<le> li \<and> nat li < length (links e))" by blast
  have "li \<noteq> - 1"
  proof
    assume m: "li = - 1"
    show False
    proof (cases "0 < length (dynamicLinks e)")
      case True
      then show False using li(1) m
        by (auto simp: pickLink_def Let_def js_nth_def split: prod.splits if_splits)
    next
      case False
      obtain r g where rg: "Math_random (random e) = (r, g)" by (cases "Math_random (random e)")
      have rng: "unit_rng (random e)" and len: "length (links e) < 2147483648"
        using assms(2) by (simp_all add: wfLinks_def)
      have r: "0 \<le> r" "r < 1" using unit_rng_randomE[OF rng rg] by simp_all
      have "0 < length (links e)" using assms(1) by simp
      from random_index(1)[OF r this len] show False
        using False assms(1) li(1) m rg by (simp add: pickLink_def)
    qed
  qed
  then show ?thesis using li by (cases "pickLink e") auto
qed

text \<open>
  Claim C4, amended (spawn with an exhausted pool). When the pool has no free slot at a spawn
  attempt, \<^verbatim>\<open>get()\<close> creates a fresh pulse object and the spawn goes on as with a pooled one:
  it does not throw, and if the engine has a link, a new pulse with \<open>t = 0\<close> and a cached length
  of at least 1 is appended and the spawn time is taken; if it has no link, the fresh object is
  released into the pool. Spawning is limited by the spawn interval and \<^verbatim>\<open>pulseMaxActive\<close>
  only. The claim as stated, that spawning stops until a pulse is released, fails.
\<close>

theorem spawn_with_empty_pool:
  assumes "pulsePool e = []" and "wfLinks e"
    and "PULSE_SPAWN_EVERY_MS cfg \<le> now - lastPulseSpawn e" and "real (pulsesLen e) < pulseMaxActive e"
  shows "\<exists>e'. spawnPulse cfg now e = Inr e' \<and>
           (if links e = [] then pulses e' = pulses e \<and> pulsePool e' = [createPulse]
            else pulsePool e' = [] \<and> lastPulseSpawn e' = now \<and>
                 (\<exists>li d. 0 \<le> li \<and> 1 \<le> d \<and>
                    pulses e' = pulses e @ [\<lparr>p_linkIndex = li, p_t = 0, p_active = True, p_dist = d\<rparr>]))"
proof (cases "links e = []")
  case True
  have pg: "pool_get (pulsePool e) = (createPulse, [])" using assms(1) by (simp add: pool_get_def)
  have "spawnPulse cfg now e
        = Inr (e\<lparr>pulsePool := pool_release [] (createPulse\<lparr>p_linkIndex := - 1\<rparr>), random := random e\<rparr>)"
    using assms(3,4) by (simp add: spawnPulse_def pg pickLink_none[OF True assms(2)])
  then show ?thesis using True by (simp add: pool_release_def resetPulse_def createPulse_def)
next
  case False
  have pg: "pool_get (pulsePool e) = (createPulse, [])" using assms(1) by (simp add: pool_get_def)
  from pickLink_some[OF False assms(2)] obtain li g where
    pl: "pickLink e = (Some li, g)" and li: "0 \<le> li" "nat li < length (links e)" by blast
  define L where "L = links e ! nat li"
  have L: "js_nth (links e) li = Some L" using li by (simp add: js_nth_Some L_def)
  have "L \<in> set (links e)" using li by (simp add: L_def)
  then have "l_ai L < length (nodes e)" "l_bi L < length (nodes e)"
    using assms(2) by (auto simp: wfLinks_def list_all_iff)
  then have ab: "js_nth (nodes e) (int (l_ai L)) = Some (nodes e ! l_ai L)"
    "js_nth (nodes e) (int (l_bi L)) = Some (nodes e ! l_bi L)"
    by (simp_all add: js_nth_int)
  have neq: "li \<noteq> - 1" using li by simp
  define d where "d = max 1 (Math_hypot (n_x (nodes e ! l_bi L) - n_x (nodes e ! l_ai L))
                                       (n_y (nodes e ! l_bi L) - n_y (nodes e ! l_ai L)))"
  have "spawnPulse cfg now e
        = Inr (e\<lparr>pulsePool := [],
                 pulses := pulses e @ [\<lparr>p_linkIndex = li, p_t = 0, p_active = True, p_dist = d\<rparr>],
                 lastPulseSpawn := now, random := g\<rparr>)"
    using assms(3,4) neq by (simp add: spawnPulse_def pg pl L ab d_def createPulse_def)
  moreover have "1 \<le> d" by (simp add: d_def)
  ultimately show ?thesis using False li(1) by auto
qed

lemma drained_wf: "wfLinks drainedEngine"
  by (simp add: wfLinks_def drainedEngine_def unit_rng_zero)

text \<open>
  The hypotheses at the state with the empty pool, and the spawn there.
\<close>

theorem spawn_with_empty_pool_witness:
  "pulsePool drainedEngine = [] \<and> wfLinks drainedEngine \<and>
   PULSE_SPAWN_EVERY_MS (CONFIG\<lparr>PULSE_POOL_SIZE := 0\<rparr>) \<le> 1000 - lastPulseSpawn drainedEngine \<and>
   real (pulsesLen drainedEngine) < pulseMaxActive drainedEngine \<and>
   links drainedEngine \<noteq> [] \<and>
   (\<exists>e'. spawnPulse (CONFIG\<lparr>PULSE_POOL_SIZE := 0\<rparr>) 1000 drainedEngine = Inr e' \<and>
         pulsePool e' = [] \<and> lastPulseSpawn e' = 1000 \<and> length (pulses e') = 1)"
proof -
  have a: "pulsePool drainedEngine = []" by (simp add: drainedEngine_def)
  have c: "PULSE_SPAWN_EVERY_MS (CONFIG\<lparr>PULSE_POOL_SIZE := 0\<rparr>) \<le> 1000 - lastPulseSpawn drainedEngine"
    by (simp add: drainedEngine_def CONFIG_def)
  have d: "real (pulsesLen drainedEngine) < pulseMaxActive drainedEngine"
    by (simp add: drainedEngine_def pulsesLen_def)
  have l: "links drainedEngine \<noteq> []" "pulses drainedEngine = []" by (simp_all add: drainedEngine_def)
  from spawn_with_empty_pool[OF a drained_wf c d] l
  have "\<exists>e'. spawnPulse (CONFIG\<lparr>PULSE_POOL_SIZE := 0\<rparr>) 1000 drainedEngine = Inr e' \<and>
         pulsePool e' = [] \<and> lastPulseSpawn e' = 1000 \<and> length (pulses e') = 1"
    by auto
  then show ?thesis using a drained_wf c d l by blast
qed

lemma sqrt_250000: "sqrt 250000 = 500"
proof -
  have "sqrt ((500::real) * 500) = \<bar>500\<bar>" by (rule real_sqrt_abs2)
  then show ?thesis by simp
qed

text \<open>
  With \<^verbatim>\<open>PULSE_POOL_SIZE = 0\<close> the pool is empty from the start. The simulation step at time
  1000 spawns a pulse all the same: after the step one pulse is under way on link 0, advanced
  by one step.
\<close>

theorem spawn_with_empty_pool_counterexample:
  "pulsePool drainedEngine = newPool (PULSE_POOL_SIZE (CONFIG\<lparr>PULSE_POOL_SIZE := 0\<rparr>)) \<and>
   pulsePool drainedEngine = [] \<and> pulses drainedEngine = [] \<and>
   map_sum id pulses (update (CONFIG\<lparr>PULSE_POOL_SIZE := 0\<rparr>) (100 / 3) 1000 drainedEngine)
     = Inr [\<lparr>p_linkIndex = 0, p_t = 1 / 30, p_active = True, p_dist = 500\<rparr>]"
proof -
  define e1 where "e1 = drainedEngine\<lparr>globalOffsetX := 0, globalOffsetY := 0, bgOffsetX := 0, bgOffsetY := 0\<rparr>"
  define e2 where "e2 = e1\<lparr>pulsePool := [],
                           pulses := [\<lparr>p_linkIndex = 0, p_t = 0, p_active = True, p_dist = 500\<rparr>],
                           lastPulseSpawn := 1000, random := (\<lambda>k. 0)\<rparr>"
  have m: "updateMotion (CONFIG\<lparr>PULSE_POOL_SIZE := 0\<rparr>) 1000 drainedEngine = Inr e1"
    by (simp add: updateMotion_def Let_def CONFIG_def js_nth_def drainedEngine_def moveNode_def moving_def e1_def)
  have s: "spawnPulse (CONFIG\<lparr>PULSE_POOL_SIZE := 0\<rparr>) 1000 e1 = Inr e2"
    by (simp add: spawnPulse_def Let_def CONFIG_def drainedEngine_def pulsesLen_def pool_get_def
          pickLink_def Math_random_def js_int32_def js_trunc_def js_nth_def createPulse_def
          Math_hypot_def sqrt_250000 e1_def e2_def)
  have u: "update (CONFIG\<lparr>PULSE_POOL_SIZE := 0\<rparr>) (100 / 3) 1000 drainedEngine
           = Inr (advance (CONFIG\<lparr>PULSE_POOL_SIZE := 0\<rparr>) (100 / 3) e2)"
    by (simp add: update_def m s)
  have a: "pulses (advance (CONFIG\<lparr>PULSE_POOL_SIZE := 0\<rparr>) (100 / 3) e2)
           = [\<lparr>p_linkIndex = 0, p_t = 1 / 30, p_active = True, p_dist = 500\<rparr>]"
    by (simp add: advance_def Let_def CONFIG_def e2_def)
  show ?thesis
    unfolding u using a by (simp add: drainedEngine_def newPool_def)
qed

lemma ticks_ok:
  assumes "2 \<le> length (PARALLAX_BANDS cfg)" and "wfLinks e"
  shows "\<exists>e'. ticks cfg dt nows e = Inr e' \<and> wfLinks e'"
  using assms(2)
proof (induction nows arbitrary: e)
  case Nil
  then show ?case by simp
next
  case (Cons now nows)
  from update_ok[OF assms(1) Cons.prems] obtain e1 where
    u: "update cfg dt now e = Inr e1" and w: "wfLinks e1" by blast
  from Cons.IH[OF w] show ?case using u by simp
qed

lemma advanceOne_gt:
  assumes "0 < tInc" and "0 < p_dist p"
  shows "p_t p < p_t (advanceOne tInc p)"
  using assms by (simp add: advanceOne_def)

lemma reachable_pulsesOK: "reachable cfg e \<Longrightarrow> pulsesOK e"
  using reachable_pulses by blast

lemma spawnPulse_count:
  assumes "spawnPulse cfg now e = Inr e'"
  shows "length (pulses e) + length (pulsePool e) \<le> length (pulses e') + length (pulsePool e')"
proof -
  have b: "length (butlast pool) + 1 = length pool" if "pool \<noteq> []" for pool :: "pulse list"
    using that by (cases pool rule: rev_cases) simp_all
  show ?thesis
    using assms b[of "pulsePool e"]
    by (auto simp: spawnPulse_def Let_def pool_get_def pool_release_def
             split: if_splits prod.splits option.splits)
qed

lemma advance_count:
  assumes "list_all p_active (pulses e)"
  shows "length (pulses (advance cfg dt e)) + length (pulsePool (advance cfg dt e))
         = length (pulses e) + length (pulsePool e)"
proof -
  have f: "filter p_active (pulses e) = pulses e" using assms by (simp add: list_all_iff)
  have "length (filter (\<lambda>p. \<not> 1 \<le> p_t p) xs) + length (filter (\<lambda>p. 1 \<le> p_t p) xs) = length xs"
    for xs :: "pulse list"
    using sum_length_filter_compl[of "\<lambda>p. 1 \<le> p_t p" xs] by simp
  from this[of "map (advanceOne (PULSE_SPEED cfg * (dt / 1000))) (pulses e)"]
  show ?thesis by (simp add: advance_pulses advance_pulsePool f)
qed

lemma update_release:
  assumes ok: "pulsesOK e" and u: "update cfg dt now e = Inr e1"
  shows "\<exists>e2. spawnPulse cfg now (projr (updateMotion cfg now e)) = Inr e2 \<and>
              pulses e1 = filter (\<lambda>p. p_t p < 1) (map (advanceOne (pulseStep cfg dt)) (pulses e2)) \<and>
              pulsePool e1 = pulsePool e2 @ map resetPulse
                (filter (\<lambda>p. 1 \<le> p_t p) (map (advanceOne (pulseStep cfg dt)) (pulses e2)))"
proof -
  from update_parts[OF u] obtain em e2 where
    m: "updateMotion cfg now e = Inr em" and s: "spawnPulse cfg now em = Inr e2" and a: "e1 = advance cfg dt e2"
    by blast
  have "pulsesOK em" using ok updateMotion_pulses[OF m] by (simp add: pulsesOK_def)
  then have "pulsesOK e2" by (rule spawnPulse_OK[OF _ s])
  then have f: "filter p_active (pulses e2) = pulses e2" by (simp add: pulsesOK_def list_all_iff)
  have n: "(\<lambda>p. \<not> 1 \<le> p_t p) = (\<lambda>p::pulse. p_t p < 1)" by (simp add: not_le)
  have "pulses e1 = filter (\<lambda>p. p_t p < 1) (map (advanceOne (pulseStep cfg dt)) (pulses e2))"
    unfolding a advance_pulses f n pulseStep_def ..
  moreover have "pulsePool e1 = pulsePool e2 @ map resetPulse
                (filter (\<lambda>p. 1 \<le> p_t p) (map (advanceOne (pulseStep cfg dt)) (pulses e2)))"
    unfolding a advance_pulsePool f pulseStep_def ..
  ultimately show ?thesis using s m by simp
qed

lemma update_count:
  assumes ok: "pulsesOK e" and u: "update cfg dt now e = Inr e1"
  shows "length (pulses e) + length (pulsePool e) \<le> length (pulses e1) + length (pulsePool e1)"
proof -
  from update_parts[OF u] obtain em e2 where
    m: "updateMotion cfg now e = Inr em" and s: "spawnPulse cfg now em = Inr e2" and a: "e1 = advance cfg dt e2"
    by blast
  have "pulsesOK em" using ok updateMotion_pulses[OF m] by (simp add: pulsesOK_def)
  then have "pulsesOK e2" by (rule spawnPulse_OK[OF _ s])
  then have act: "list_all p_active (pulses e2)" by (simp add: pulsesOK_def list_all_iff)
  have "length (pulses e) + length (pulsePool e) = length (pulses em) + length (pulsePool em)"
    using updateMotion_pulses[OF m] by simp
  also have "\<dots> \<le> length (pulses e2) + length (pulsePool e2)" by (rule spawnPulse_count[OF s])
  also have "\<dots> = length (pulses e1) + length (pulsePool e1)"
    unfolding a by (rule advance_count[OF act, symmetric])
  finally show ?thesis .
qed

lemma ticks_count:
  assumes "pulsesOK e" and "ticks cfg dt nows e = Inr e'"
  shows "length (pulses e) + length (pulsePool e) \<le> length (pulses e') + length (pulsePool e')"
  using assms
proof (induction nows arbitrary: e)
  case Nil
  then show ?case by simp
next
  case (Cons now nows)
  from Cons.prems(2) obtain e1 where u: "update cfg dt now e = Inr e1" and t: "ticks cfg dt nows e1 = Inr e'"
    by (auto split: sum.splits)
  have "length (pulses e) + length (pulsePool e) \<le> length (pulses e1) + length (pulsePool e1)"
    by (rule update_count[OF Cons.prems(1) u])
  also have "\<dots> \<le> length (pulses e') + length (pulsePool e')"
    by (rule Cons.IH[OF update_OK[OF Cons.prems(1) u] t])
  finally show ?case .
qed

text \<open>
  Claim C10 (the advance of the pulses is safe and ends). Every reachable state has its pulses
  in order, and a run of simulation steps with a positive pulse speed and a positive step
  keeps them so: the cached length of every live and every pooled pulse is at least 1 (set
  by \<^verbatim>\<open>Math.max(1, \<dots>)\<close> at the spawn and by the reset of the pool), so the increment
  \<open>tInc / dist\<close> divides by a number that is not zero. The progress of every live pulse grows
  strictly in a step. After \<open>n\<close> steps the pulses of the start state that are still under way
  are those with \<open>t + n * (tInc / dist) < 1\<close>, at the front of the list and before the pulses
  spawned in the meantime; once \<open>n * tInc\<close> covers the rest \<open>(1 - t) * dist\<close> of every pulse,
  none of them is left. A pulse that reaches \<open>t \<ge> 1\<close> is released: a simulation step keeps
  in \<^verbatim>\<open>pulses\<close> the advanced pulses with \<open>t < 1\<close>, in their order, and appends every advanced
  pulse with \<open>t \<ge> 1\<close>, reset, to \<^verbatim>\<open>pulsePool\<close>. No pulse object is lost in a run: the live
  and the pooled pulses together never become fewer.
\<close>

theorem pulse_progress:
  assumes "0 < PULSE_SPEED cfg" and "0 < dt_ms" and "pulsesOK e"
    and "ticks cfg dt_ms nows e = Inr e'"
  shows "(\<forall>e0. reachable cfg e0 \<longrightarrow> pulsesOK e0) \<and>
         pulsesOK e' \<and>
         (\<forall>p \<in> set (pulses e') \<union> set (pulsePool e'). 1 \<le> p_dist p) \<and>
         (\<forall>p \<in> set (pulses e). p_t p < p_t (advanceOne (pulseStep cfg dt_ms) p)) \<and>
         (\<exists>spawned. pulses e' = carried cfg dt_ms (length nows) (pulses e) @ spawned) \<and>
         ((\<forall>p \<in> set (pulses e). (1 - p_t p) * p_dist p \<le> real (length nows) * pulseStep cfg dt_ms)
            \<longrightarrow> carried cfg dt_ms (length nows) (pulses e) = []) \<and>
         (\<forall>now e1. update cfg dt_ms now e = Inr e1 \<longrightarrow>
            (\<exists>e2. spawnPulse cfg now (projr (updateMotion cfg now e)) = Inr e2 \<and>
                  pulses e1 = filter (\<lambda>p. p_t p < 1) (map (advanceOne (pulseStep cfg dt_ms)) (pulses e2)) \<and>
                  pulsePool e1 = pulsePool e2 @ map resetPulse
                    (filter (\<lambda>p. 1 \<le> p_t p) (map (advanceOne (pulseStep cfg dt_ms)) (pulses e2))))) \<and>
         length (pulses e) + length (pulsePool e) \<le> length (pulses e') + length (pulsePool e')"
proof -
  have step: "0 < pulseStep cfg dt_ms" using assms(1,2) by (simp add: pulseStep_def)
  have ok': "pulsesOK e'" by (rule ticks_OK[OF assms(3,4)])
  have dist: "\<forall>p \<in> set (pulses e') \<union> set (pulsePool e'). 1 \<le> p_dist p"
    using ok' by (auto simp: pulsesOK_def list_all_iff)
  have grow: "\<forall>p \<in> set (pulses e). p_t p < p_t (advanceOne (pulseStep cfg dt_ms) p)"
    using pulsesOK_dist[OF assms(3)] step by (auto simp: list_all_iff intro: advanceOne_gt)
  have run: "\<exists>spawned. pulses e' = carried cfg dt_ms (length nows) (pulses e) @ spawned"
    using step by (intro ticks_carried[OF _ assms(3,4)]) simp
  have gone: "carried cfg dt_ms (length nows) (pulses e) = []"
    if "\<forall>p \<in> set (pulses e). (1 - p_t p) * p_dist p \<le> real (length nows) * pulseStep cfg dt_ms"
    using that by (intro carried_all_arrived[OF pulsesOK_dist[OF assms(3)]]) (simp add: list_all_iff)
  have rel: "\<forall>now e1. update cfg dt_ms now e = Inr e1 \<longrightarrow>
            (\<exists>e2. spawnPulse cfg now (projr (updateMotion cfg now e)) = Inr e2 \<and>
                  pulses e1 = filter (\<lambda>p. p_t p < 1) (map (advanceOne (pulseStep cfg dt_ms)) (pulses e2)) \<and>
                  pulsePool e1 = pulsePool e2 @ map resetPulse
                    (filter (\<lambda>p. 1 \<le> p_t p) (map (advanceOne (pulseStep cfg dt_ms)) (pulses e2))))"
    using update_release[OF assms(3)] by blast
  have cnt: "length (pulses e) + length (pulsePool e) \<le> length (pulses e') + length (pulsePool e')"
    by (rule ticks_count[OF assms(3,4)])
  show ?thesis using reachable_pulsesOK ok' dist grow run gone rel cnt by blast
qed

lemma busy_wf: "wfLinks busyEngine"
  by (simp add: wfLinks_def busyEngine_def unit_rng_zero)

lemma busy_OK: "pulsesOK busyEngine"
  by (simp add: pulsesOK_def busyEngine_def createPulse_def list_all_iff)

lemma frameTimes_length: "length frameTimes = 30"
  by (simp add: frameTimes_def)

lemma arriving_wf: "wfLinks arrivingEngine"
  using busy_wf by (simp add: wfLinks_def arrivingEngine_def)

lemma arriving_OK: "pulsesOK arrivingEngine"
  using busy_OK by (simp add: pulsesOK_def arrivingEngine_def)

lemma arriving_idle:
  assumes "updateMotion CONFIG 3000 arrivingEngine = Inr em"
  shows "spawnPulse CONFIG 3000 em = Inr em" and "pulses em = pulses arrivingEngine"
    and "pulsePool em = replicate 10 createPulse"
proof -
  note f = updateMotion_pulses[OF assms]
  show "pulses em = pulses arrivingEngine" by (rule f(1))
  show "pulsePool em = replicate 10 createPulse" by (simp add: f arrivingEngine_def busyEngine_def)
  have "\<not> real (pulsesLen em) < pulseMaxActive em"
    by (simp add: pulsesLen_def f arrivingEngine_def busyEngine_def)
  then show "spawnPulse CONFIG 3000 em = Inr em" by (simp add: spawnPulse_def)
qed

text \<open>
  The state with two pulses under way on a link of length 1000, the first at \<open>t = 99/100\<close>.
  The step at time 3000 spawns nothing (the cap of 2 is reached), takes the first pulse to
  \<open>t \<ge> 1\<close>, removes it from \<^verbatim>\<open>pulses\<close> and appends it, reset, to the ten pulses of the pool;
  the second pulse is at \<open>1/30\<close> after this step and at \<open>31/60\<close> after thirty steps.
\<close>

theorem pulse_progress_witness:
  "0 < PULSE_SPEED CONFIG \<and> (0::real) < 100 / 3 \<and> pulsesOK arrivingEngine \<and>
   ticks CONFIG (100 / 3) frameTimes arrivingEngine
     = Inr (projr (ticks CONFIG (100 / 3) frameTimes arrivingEngine)) \<and>
   pulsesOK (projr (ticks CONFIG (100 / 3) frameTimes arrivingEngine)) \<and>
   (\<exists>spawned. pulses (projr (ticks CONFIG (100 / 3) frameTimes arrivingEngine))
      = carried CONFIG (100 / 3) 30 (pulses arrivingEngine) @ spawned) \<and>
   carried CONFIG (100 / 3) 30 (pulses arrivingEngine)
     = [\<lparr>p_linkIndex = 0, p_t = 31 / 60, p_active = True, p_dist = 1000\<rparr>] \<and>
   update CONFIG (100 / 3) 3000 arrivingEngine = Inr (projr (update CONFIG (100 / 3) 3000 arrivingEngine)) \<and>
   pulses (projr (update CONFIG (100 / 3) 3000 arrivingEngine))
     = [\<lparr>p_linkIndex = 0, p_t = 1 / 30, p_active = True, p_dist = 1000\<rparr>] \<and>
   pulsePool (projr (update CONFIG (100 / 3) 3000 arrivingEngine))
     = replicate 10 createPulse @ [\<lparr>p_linkIndex = - 1, p_t = 0, p_active = False, p_dist = 1\<rparr>] \<and>
   12 \<le> length (pulses (projr (ticks CONFIG (100 / 3) frameTimes arrivingEngine)))
          + length (pulsePool (projr (ticks CONFIG (100 / 3) frameTimes arrivingEngine)))"
proof -
  have s: "0 < PULSE_SPEED CONFIG" by (simp add: CONFIG_def)
  have d: "(0::real) < 100 / 3" by simp
  have t: "ticks CONFIG (100 / 3) frameTimes arrivingEngine
     = Inr (projr (ticks CONFIG (100 / 3) frameTimes arrivingEngine))"
    using ticks_ok[OF CONFIG_bands arriving_wf, of "100 / 3" frameTimes] by auto
  have c: "carried CONFIG (100 / 3) 30 (pulses arrivingEngine)
     = [\<lparr>p_linkIndex = 0, p_t = 31 / 60, p_active = True, p_dist = 1000\<rparr>]"
    by (simp add: carried_def pulseStep_def CONFIG_def arrivingEngine_def)
  have u: "update CONFIG (100 / 3) 3000 arrivingEngine = Inr (projr (update CONFIG (100 / 3) 3000 arrivingEngine))"
    using update_ok[OF CONFIG_bands arriving_wf, of "100 / 3" 3000] by auto
  from updateMotion_ok[OF CONFIG_bands] obtain em where m: "updateMotion CONFIG 3000 arrivingEngine = Inr em"
    by blast
  note i = arriving_idle[OF m]
  note th = pulse_progress[OF s d arriving_OK t]
  have n: "length (pulses arrivingEngine) + length (pulsePool arrivingEngine) = 12"
    by (simp add: arrivingEngine_def busyEngine_def)
  have ps: "pulseStep CONFIG (100 / 3) = 50 / 3" by (simp add: pulseStep_def CONFIG_def)
  from th u obtain e2 where e2: "spawnPulse CONFIG 3000 (projr (updateMotion CONFIG 3000 arrivingEngine)) = Inr e2"
    "pulses (projr (update CONFIG (100 / 3) 3000 arrivingEngine))
       = filter (\<lambda>p. p_t p < 1) (map (advanceOne (pulseStep CONFIG (100 / 3))) (pulses e2))"
    "pulsePool (projr (update CONFIG (100 / 3) 3000 arrivingEngine))
       = pulsePool e2 @ map resetPulse
           (filter (\<lambda>p. 1 \<le> p_t p) (map (advanceOne (pulseStep CONFIG (100 / 3))) (pulses e2)))"
    by blast
  have "e2 = em" using e2(1) i(1) by (simp add: m)
  then have r: "pulses (projr (update CONFIG (100 / 3) 3000 arrivingEngine))
     = [\<lparr>p_linkIndex = 0, p_t = 1 / 30, p_active = True, p_dist = 1000\<rparr>]"
    "pulsePool (projr (update CONFIG (100 / 3) 3000 arrivingEngine))
     = replicate 10 createPulse @ [\<lparr>p_linkIndex = - 1, p_t = 0, p_active = False, p_dist = 1\<rparr>]"
    using e2(2,3) by (simp_all add: i ps arrivingEngine_def advanceOne_def resetPulse_def)
  show ?thesis
    using th s d arriving_OK t c u r n by (simp only: frameTimes_length)
qed


lemma afterScaling_frame:
  "nodes (afterScaling cfg w h e) = nodes e" "bgNodes (afterScaling cfg w h e) = bgNodes e"
  "movingFlags (afterScaling cfg w h e) = movingFlags e" "pulses (afterScaling cfg w h e) = pulses e"
  "pulsePool (afterScaling cfg w h e) = pulsePool e" "width (afterScaling cfg w h e) = w"
  "height (afterScaling cfg w h e) = h" "resizePrevW (afterScaling cfg w h e) = w"
  "resizePrevH (afterScaling cfg w h e) = h"
  by (simp_all add: afterScaling_def applyResponsiveScaling_def Let_def)

text \<open>
  Claim C9, amended (resize continuity). A resize event that leaves the target counts of a
  non-empty population unchanged returns, multiplies the position and the origin of every
  foreground node, and the position of every background node, by \<open>sx\<close> in x and \<open>sy\<close> in y,
  where \<open>sx\<close> is \<open>newWidth / prevWidth\<close> if the previous width is not zero and 1 if it is
  zero, and \<open>sy\<close> likewise for the heights. It resamples nothing: the nodes keep their number,
  order, depth, seed phase and moving flags, the pulses stay, and the new state is the state
  with the rescaled nodes after \<^verbatim>\<open>_buildLinks\<close> and \<^verbatim>\<open>_buildBgLinks\<close>. The claim as stated,
  the ratio \<open>newWidth / prevWidth\<close> for every such resize, fails for a previous width of zero,
  where the source guards the division and leaves the x coordinates as they are.
\<close>

theorem resize_rescales:
  assumes "countsUnchanged cfg w h e"
  shows "\<exists>e'. resize cfg False w h e = Some (Inr e') \<and>
           nodes e' = map (rescaleNode (resizeScaleX w e) (resizeScaleY h e)) (nodes e) \<and>
           bgNodes e' = map (rescaleBgNode (resizeScaleX w e) (resizeScaleY h e)) (bgNodes e) \<and>
           (resizePrevW e \<noteq> 0 \<longrightarrow> resizeScaleX w e = w / resizePrevW e) \<and>
           (resizePrevW e = 0 \<longrightarrow> resizeScaleX w e = 1) \<and>
           (resizePrevH e \<noteq> 0 \<longrightarrow> resizeScaleY h e = h / resizePrevH e) \<and>
           (resizePrevH e = 0 \<longrightarrow> resizeScaleY h e = 1) \<and>
           movingFlags e' = movingFlags e \<and> pulses e' = pulses e \<and> pulsePool e' = pulsePool e \<and>
           e' = buildBgLinks cfg (buildLinks cfg
                  ((afterScaling cfg w h e)\<lparr>nodes := nodes e', bgNodes := bgNodes e'\<rparr>))"
proof -
  define e' where "e' = buildBgLinks cfg (buildLinks cfg
             ((afterScaling cfg w h e)
                \<lparr>nodes := map (rescaleNode (resizeScaleX w e) (resizeScaleY h e)) (nodes e),
                 bgNodes := map (rescaleBgNode (resizeScaleX w e) (resizeScaleY h e)) (bgNodes e)\<rparr>))"
  have r: "resize cfg False w h e = Some (Inr e')"
    unfolding e'_def by (rule resize_rescale[OF assms])
  have n: "nodes e' = map (rescaleNode (resizeScaleX w e) (resizeScaleY h e)) (nodes e)"
    "bgNodes e' = map (rescaleBgNode (resizeScaleX w e) (resizeScaleY h e)) (bgNodes e)"
    "movingFlags e' = movingFlags e" "pulses e' = pulses e" "pulsePool e' = pulsePool e"
    by (simp_all add: e'_def buildLinks_frame buildBgLinks_frame afterScaling_frame)
  have b: "e' = buildBgLinks cfg (buildLinks cfg
                  ((afterScaling cfg w h e)\<lparr>nodes := nodes e', bgNodes := bgNodes e'\<rparr>))"
    unfolding n(1,2) by (simp add: e'_def)
  show ?thesis
    using r n b by (simp add: resizeScaleX_def resizeScaleY_def)
qed

lemma rescaleNode_fields:
  "n_x (rescaleNode sx sy n) = n_x n * sx" "n_y (rescaleNode sx sy n) = n_y n * sy"
  "n_ox (rescaleNode sx sy n) = n_ox n * sx" "n_oy (rescaleNode sx sy n) = n_oy n * sy"
  "n_z (rescaleNode sx sy n) = n_z n" "n_seedPhase (rescaleNode sx sy n) = n_seedPhase n"
  "n_id (rescaleNode sx sy n) = n_id n"
  by (simp_all add: rescaleNode_def)

text \<open>
  The resize of the viewport of 2880 by 1800 to 1800 by 1125: node 40 moves from (800, 600)
  to (500, 375).
\<close>

theorem resize_rescales_witness:
  "countsUnchanged CONFIG 1800 1125 busyEngine \<and>
   (\<exists>e'. resize CONFIG False 1800 1125 busyEngine = Some (Inr e') \<and>
      length (nodes e') = 100 \<and>
      n_x (nodes e' ! 40) = n_x (nodes busyEngine ! 40) * (1800 / 2880) \<and>
      n_oy (nodes e' ! 40) = n_oy (nodes busyEngine ! 40) * (1125 / 1800) \<and>
      n_x (nodes e' ! 40) = 500 \<and> n_oy (nodes e' ! 40) = 375)"
proof -
  have sx: "resizeScaleX 1800 busyEngine = 1800 / 2880" "resizeScaleY 1125 busyEngine = 1125 / 1800"
    by (simp_all add: resizeScaleX_def resizeScaleY_def busyEngine_def)
  have n40: "nodes busyEngine ! 40 = \<lparr>n_id = 40, n_x = 800, n_y = 600, n_z = 9 / 10,
                         n_ox = 800, n_oy = 600, n_seedPhase = 0\<rparr>"
    by (simp add: busyEngine_def)
  have len: "length (nodes busyEngine) = 100" by (simp add: busyEngine_def)
  from resize_rescales[OF busy_counts] obtain e' where
    r: "resize CONFIG False 1800 1125 busyEngine = Some (Inr e')"
    and n: "nodes e' = map (rescaleNode (resizeScaleX 1800 busyEngine) (resizeScaleY 1125 busyEngine)) (nodes busyEngine)"
    by blast
  have "nodes e' ! 40 = rescaleNode (1800 / 2880) (1125 / 1800) (nodes busyEngine ! 40)"
    unfolding n sx using len by simp
  then have "n_x (nodes e' ! 40) = n_x (nodes busyEngine ! 40) * (1800 / 2880) \<and>
      n_oy (nodes e' ! 40) = n_oy (nodes busyEngine ! 40) * (1125 / 1800) \<and>
      n_x (nodes e' ! 40) = 500 \<and> n_oy (nodes e' ! 40) = 375"
    by (simp add: rescaleNode_fields n40)
  moreover have "length (nodes e') = 100" using n len by simp
  ultimately show ?thesis using busy_counts r by blast
qed

lemma near_orbit:
  "moveNode CONFIG collapsedEngine 0 \<lparr>zMin = 0, zMax = 4 / 10, move = True, headingDeg = 20\<rparr>
      \<lparr>zMin = 4 / 10, zMax = 75 / 100, move = True, headingDeg = 160\<rparr> i
      \<lparr>n_id = j, n_x = 0, n_y = 0, n_z = 2 / 10, n_ox = 0, n_oy = 0, n_seedPhase = 0\<rparr>
   = (if i < 16 then \<lparr>n_id = j, n_x = 4 / 45 * cos (pi / 9), n_y = 4 / 45 * sin (pi / 9), n_z = 2 / 10,
                         n_ox = 0, n_oy = 0, n_seedPhase = 0\<rparr>
      else \<lparr>n_id = j, n_x = 0, n_y = 0, n_z = 2 / 10, n_ox = 0, n_oy = 0, n_seedPhase = 0\<rparr>)"
  by (simp add: moveNode_def orbit_def nearTheta_def baseTheta_def js_rem_def js_or_def minDim_def
        headingRad_def moving_def js_nth_def js_trunc_def collapsedEngine_def CONFIG_def Let_def)


lemma collapsed_motion: "updateMotion CONFIG 0 collapsedEngine = Inr hiddenEngine"
proof -
  have b: "PARALLAX_BANDS CONFIG =
       [\<lparr>zMin = 0, zMax = 4 / 10, move = True, headingDeg = 20\<rparr>,
        \<lparr>zMin = 4 / 10, zMax = 75 / 100, move = True, headingDeg = 160\<rparr>,
        \<lparr>zMin = 70 / 100, zMax = 1, move = False, headingDeg = 180\<rparr>]"
    "GLOBAL_DRIFT_RATIO CONFIG = 0" "BG_DRIFT_RATIO CONFIG = 0"
    by (simp_all add: CONFIG_def)
  have cn: "nodes collapsedEngine
            = map (\<lambda>i. \<lparr>n_id = i, n_x = 0, n_y = 0, n_z = 2 / 10,
                         n_ox = 0, n_oy = 0, n_seedPhase = 0\<rparr>) [0 ..< 16]"
    by (simp add: collapsedEngine_def)
  have hn: "nodes hiddenEngine
            = map (\<lambda>i. \<lparr>n_id = i, n_x = 4 / 45 * cos (pi / 9), n_y = 4 / 45 * sin (pi / 9), n_z = 2 / 10,
                         n_ox = 0, n_oy = 0, n_seedPhase = 0\<rparr>) [0 ..< 16]"
    by (simp add: hiddenEngine_def)
  have n: "map (\<lambda>(i, n). moveNode CONFIG collapsedEngine 0
                  \<lparr>zMin = 0, zMax = 4 / 10, move = True, headingDeg = 20\<rparr>
                  \<lparr>zMin = 4 / 10, zMax = 75 / 100, move = True, headingDeg = 160\<rparr> i n)
             (zip [0 ..< length (nodes collapsedEngine)] (nodes collapsedEngine))
           = nodes hiddenEngine"
  proof (rule nth_equalityI)
    show "length (map (\<lambda>(i, n). moveNode CONFIG collapsedEngine 0
                  \<lparr>zMin = 0, zMax = 4 / 10, move = True, headingDeg = 20\<rparr>
                  \<lparr>zMin = 4 / 10, zMax = 75 / 100, move = True, headingDeg = 160\<rparr> i n)
             (zip [0 ..< length (nodes collapsedEngine)] (nodes collapsedEngine)))
          = length (nodes hiddenEngine)"
      by (simp add: cn hn)
  next
    fix i
    assume "i < length (map (\<lambda>(i, n). moveNode CONFIG collapsedEngine 0
                  \<lparr>zMin = 0, zMax = 4 / 10, move = True, headingDeg = 20\<rparr>
                  \<lparr>zMin = 4 / 10, zMax = 75 / 100, move = True, headingDeg = 160\<rparr> i n)
             (zip [0 ..< length (nodes collapsedEngine)] (nodes collapsedEngine)))"
    then have i: "i < 16" by (simp add: cn)
    then show "map (\<lambda>(i, n). moveNode CONFIG collapsedEngine 0
                  \<lparr>zMin = 0, zMax = 4 / 10, move = True, headingDeg = 20\<rparr>
                  \<lparr>zMin = 4 / 10, zMax = 75 / 100, move = True, headingDeg = 160\<rparr> i n)
             (zip [0 ..< length (nodes collapsedEngine)] (nodes collapsedEngine)) ! i
          = nodes hiddenEngine ! i"
      using near_orbit[of i i] by (simp add: cn hn)
  qed
  have "updateMotion CONFIG 0 collapsedEngine
        = Inr (collapsedEngine\<lparr>globalOffsetX := 0, globalOffsetY := 0, bgOffsetX := 0, bgOffsetY := 0,
                               nodes := nodes hiddenEngine\<rparr>)"
    using n by (simp add: updateMotion_def js_nth_def b Let_def)
  also have "collapsedEngine\<lparr>globalOffsetX := 0, globalOffsetY := 0, bgOffsetX := 0, bgOffsetY := 0,
                               nodes := nodes hiddenEngine\<rparr> = hiddenEngine"
    by (simp add: collapsedEngine_def hiddenEngine_def)
  finally show ?thesis .
qed

lemma hidden_step: "update CONFIG (100 / 3) 0 collapsedEngine = Inr hiddenEngine"
proof -
  have s: "spawnPulse CONFIG 0 hiddenEngine = Inr hiddenEngine"
    by (simp add: spawnPulse_def hiddenEngine_def CONFIG_def)
  have a: "advance CONFIG (100 / 3) hiddenEngine = hiddenEngine"
    by (simp add: advance_def hiddenEngine_def)
  show ?thesis by (simp add: update_def collapsed_motion s a)
qed

lemma hidden_counts: "countsUnchanged CONFIG 300 200 hiddenEngine"
  by (simp add: countsUnchanged_def afterScaling_def applyResponsiveScaling_def getTargetCounts_def
        hiddenEngine_def CONFIG_def BASELINE_AREA_def Let_def clamp_def Math_round_def)

lemma cos_ninth: "0 < cos (pi / 9)"
  by (rule cos_gt_zero_pi) (simp_all add: field_simps)

text \<open>
  The container of \<open>shownEngine\<close>, hidden, stepped once and shown again at 300 by 200: the
  target counts stay 16 and 12, the previous width is 0, and node 0 keeps its \<open>x\<close>, which is
  not 0. The ratio \<open>300 / 0\<close> is no number in the source (in this arithmetic it is 0); the
  product with it is not the position the resize leaves.
\<close>

theorem resize_rescales_counterexample:
  "update CONFIG (100 / 3) 0 collapsedEngine = Inr hiddenEngine \<and>
   countsUnchanged CONFIG 300 200 hiddenEngine \<and> resizePrevW hiddenEngine = 0 \<and>
   resize CONFIG False 300 200 hiddenEngine = Some (Inr (projr (the (resize CONFIG False 300 200 hiddenEngine)))) \<and>
   n_x (nodes hiddenEngine ! 0) = 4 / 45 * cos (pi / 9) \<and>
   n_x (nodes (projr (the (resize CONFIG False 300 200 hiddenEngine))) ! 0) = 4 / 45 * cos (pi / 9) \<and>
   n_x (nodes (projr (the (resize CONFIG False 300 200 hiddenEngine))) ! 0)
     \<noteq> n_x (nodes hiddenEngine ! 0) * (300 / resizePrevW hiddenEngine)"
proof -
  have r: "resize CONFIG False 300 200 hiddenEngine = Some (Inr (projr (the (resize CONFIG False 300 200 hiddenEngine))))"
    by (simp add: resize_rescale[OF hidden_counts])
  have n: "nodes (projr (the (resize CONFIG False 300 200 hiddenEngine)))
           = map (rescaleNode (resizeScaleX 300 hiddenEngine) (resizeScaleY 200 hiddenEngine)) (nodes hiddenEngine)"
    by (simp add: resize_rescale[OF hidden_counts] buildLinks_frame buildBgLinks_frame)
  have s: "resizeScaleX 300 hiddenEngine = 1" "resizePrevW hiddenEngine = 0"
    by (simp_all add: resizeScaleX_def hiddenEngine_def)
  have h: "n_x (nodes hiddenEngine ! 0) = 4 / 45 * cos (pi / 9)" "0 < length (nodes hiddenEngine)"
    by (simp_all add: hiddenEngine_def)
  have "n_x (nodes (projr (the (resize CONFIG False 300 200 hiddenEngine))) ! 0) = 4 / 45 * cos (pi / 9)"
    unfolding n using h by (simp add: rescaleNode_fields s)
  then show ?thesis using hidden_counts r s h cos_ninth hidden_step by simp
qed

lemma incident_snoc:
  "incident v (es @ [(a, b)]) = incident v es + (if a = v \<or> b = v then 1 else 0)"
  by (simp add: incident_def)

lemma linkEnds_snoc: "linkEnds (ls @ [L]) = linkEnds ls @ [(l_ai L, l_bi L)]"
  by (simp add: linkEnds_def)

lemma linkKeys_snoc: "linkKeys (ls @ [L]) = linkKeys ls @ [linkKey (l_ai L) (l_bi L)]"
  by (simp add: linkKeys_def)

lemma linkCap_le:
  assumes "MAX_LINKS_DYNAMIC cfg \<le> 32767" and "MAX_LINKS_STATIC cfg \<le> 32767"
  shows "linkCap cfg flags v \<le> 32767"
  using assms by (simp add: linkCap_def)

lemma inc16_below: "v < 32767 \<Longrightarrow> inc16 v = v + 1"
  by (simp add: inc16_def)

text \<open>One link more: the step of the connecting loop keeps the invariant.\<close>

lemma linksInv_add:
  assumes caps: "MAX_LINKS_DYNAMIC cfg \<le> 32767" "MAX_LINKS_STATIC cfg \<le> 32767"
    and inv: "linksInv cfg ns flags maxDist b"
    and i: "i < length ns" and c: "candOK ns maxDist i entry"
    and fresh: "linkKey i (c_j entry) \<notin> lb_seen b"
    and room: "\<not> (int (linkCap cfg flags i) \<le> lb_degrees b ! i \<or>
                   int (linkCap cfg flags (c_j entry)) \<le> lb_degrees b ! c_j entry)"
  shows "linksInv cfg ns flags maxDist
           (let d1 = (lb_degrees b)[i := inc16 (lb_degrees b ! i)];
                d2 = d1[c_j entry := inc16 (d1 ! c_j entry)]
            in b\<lparr>lb_links := lb_links b @ [\<lparr>l_ai = i, l_bi = c_j entry, l_d = c_dist entry\<rparr>],
                  lb_seen := insert (linkKey i (c_j entry)) (lb_seen b),
                  lb_degrees := d2\<rparr>)"
proof -
  define j where "j = c_j entry"
  define d1 where "d1 = (lb_degrees b)[i := inc16 (lb_degrees b ! i)]"
  define d2 where "d2 = d1[j := inc16 (d1 ! j)]"
  define L where "L = \<lparr>l_ai = i, l_bi = j, l_d = c_dist entry\<rparr>"
  have j: "j < length ns" "j \<noteq> i" using c by (simp_all add: candOK_def j_def)
  have len: "length (lb_degrees b) = length ns" using inv by (simp add: linksInv_def)
  have deg: "lb_degrees b ! v = int (incident v (linkEnds (lb_links b)))"
    and cap: "incident v (linkEnds (lb_links b)) \<le> linkCap cfg flags v" if "v < length ns" for v
    using inv that by (simp_all add: linksInv_def)
  have ri: "lb_degrees b ! i < int (linkCap cfg flags i)" and rj: "lb_degrees b ! j < int (linkCap cfg flags j)"
    using room by (simp_all add: j_def)
  have bi: "lb_degrees b ! i < 32767" using ri linkCap_le[OF caps, of flags i] by linarith
  have bj: "lb_degrees b ! j < 32767" using rj linkCap_le[OF caps, of flags j] by linarith
  have d1j: "d1 ! j = lb_degrees b ! j" using j by (simp add: d1_def)
  have d2v: "d2 ! v = lb_degrees b ! v + (if i = v \<or> j = v then 1 else 0)" if "v < length ns" for v
    using that len j i bi bj d1j by (auto simp: d2_def d1_def inc16_below nth_list_update)
  have inc: "incident v (linkEnds (lb_links b @ [L])) = incident v (linkEnds (lb_links b)) + (if i = v \<or> j = v then 1 else 0)" for v
    by (simp add: linkEnds_snoc incident_snoc L_def)
  have A: "length d2 = length ns" by (simp add: d2_def d1_def len)
  have B: "d2 ! v = int (incident v (linkEnds (lb_links b @ [L]))) \<and>
           incident v (linkEnds (lb_links b @ [L])) \<le> linkCap cfg flags v" if v: "v < length ns" for v
  proof -
    have e: "d2 ! v = int (incident v (linkEnds (lb_links b @ [L])))"
      using d2v[OF v] deg[OF v] inc[of v] by simp
    have "incident v (linkEnds (lb_links b @ [L])) \<le> linkCap cfg flags v"
    proof (cases "i = v \<or> j = v")
      case True
      then have "lb_degrees b ! v < int (linkCap cfg flags v)" using ri rj by auto
      then have "incident v (linkEnds (lb_links b)) < linkCap cfg flags v" using deg[OF v] by simp
      then show ?thesis using inc[of v] True by simp
    next
      case False
      then show ?thesis using inc[of v] cap[OF v] by simp
    qed
    then show ?thesis using e by simp
  qed
  have C: "list_all (linkOK ns maxDist) (lb_links b @ [L])"
    using inv c i by (simp add: linksInv_def linkOK_def candOK_def L_def j_def)
  have D: "insert (linkKey i j) (lb_seen b) = set (linkKeys (lb_links b @ [L]))"
    using inv by (simp add: linksInv_def linkKeys_snoc L_def)
  have E: "distinct (linkKeys (lb_links b @ [L]))"
    using inv fresh by (simp add: linksInv_def linkKeys_snoc L_def j_def)
  show ?thesis
    unfolding Let_def j_def[symmetric] d1_def[symmetric] d2_def[symmetric] L_def[symmetric]
    using A B C D E by (simp add: linksInv_def)
qed

lemma connectCandidates_inv:
  assumes caps: "MAX_LINKS_DYNAMIC cfg \<le> 32767" "MAX_LINKS_STATIC cfg \<le> 32767"
    and i: "i < length ns"
  shows "linksInv cfg ns flags maxDist b \<Longrightarrow> list_all (candOK ns maxDist i) cands \<Longrightarrow>
         linksInv cfg ns flags maxDist (connectCandidates cfg flags i cands b)"
proof (induction cands arbitrary: b)
  case Nil
  then show ?case by simp
next
  case (Cons entry rest)
  have c: "candOK ns maxDist i entry" and r: "list_all (candOK ns maxDist i) rest"
    using Cons.prems(2) by simp_all
  show ?case
  proof (cases "linkKey i (c_j entry) \<in> lb_seen b")
    case True
    then show ?thesis using Cons.IH[OF Cons.prems(1) r] by (simp add: Let_def)
  next
    case fresh: False
    show ?thesis
    proof (cases "int (linkCap cfg flags i) \<le> lb_degrees b ! i \<or>
                   int (linkCap cfg flags (c_j entry)) \<le> lb_degrees b ! c_j entry")
      case True
      then show ?thesis using fresh Cons.IH[OF Cons.prems(1) r] by (simp add: Let_def)
    next
      case room: False
      have "linksInv cfg ns flags maxDist
           (let d1 = (lb_degrees b)[i := inc16 (lb_degrees b ! i)];
                d2 = d1[c_j entry := inc16 (d1 ! c_j entry)]
            in b\<lparr>lb_links := lb_links b @ [\<lparr>l_ai = i, l_bi = c_j entry, l_d = c_dist entry\<rparr>],
                  lb_seen := insert (linkKey i (c_j entry)) (lb_seen b),
                  lb_degrees := d2\<rparr>)"
        by (rule linksInv_add[OF caps Cons.prems(1) i c fresh room])
      from Cons.IH[OF this r] show ?thesis using fresh room by (simp add: Let_def)
    qed
  qed
qed

lemma collectCandidates_ok:
  assumes "i < length ns"
  shows "list_all (\<lambda>j. j < length ns) js \<Longrightarrow> list_all (candOK ns maxDist i) cands \<Longrightarrow>
         list_all (candOK ns maxDist i) (fst (collectCandidates cfg ns flags maxDist degrees seen i js cands g))"
proof (induction js arbitrary: cands g)
  case Nil
  then show ?case by simp
next
  case (Cons j js)
  have js: "list_all (\<lambda>j. j < length ns) js" and j: "j < length ns" using Cons.prems(1) by simp_all
  obtain r g' where rg: "Math_random g = (r, g')" by (cases "Math_random g")
  define c where "c = \<lparr>c_j = j, c_dist = nodeDist (ns ! i) (ns ! j),
      c_weight = (1 / (nodeDist (ns ! i) (ns ! j) powr (12 / 10))) * (1 + r * (8 / 100))\<rparr>"
  have ext: "list_all (candOK ns maxDist i) (cands @ [c])"
    if "j \<noteq> i" "\<not> (maxDist < nodeDist (ns ! i) (ns ! j) \<or> nodeDist (ns ! i) (ns ! j) = 0)"
  proof -
    have "candOK ns maxDist i c" using that j by (simp add: candOK_def c_def)
    then show ?thesis using Cons.prems(2) by simp
  qed
  show ?case
    using Cons.IH[OF js Cons.prems(2)] Cons.IH[OF js ext] rg
    by (simp add: Let_def c_def)
qed

lemma sort_key_list_all: "list_all P (sort_key f xs) = list_all P xs"
  by (simp add: list_all_iff)

lemma buildLoop_inv:
  assumes caps: "MAX_LINKS_DYNAMIC cfg \<le> 32767" "MAX_LINKS_STATIC cfg \<le> 32767"
  shows "linksInv cfg ns flags maxDist b \<Longrightarrow> list_all (\<lambda>i. i < length ns) indices \<Longrightarrow>
         linksInv cfg ns flags maxDist (buildLoop cfg ns flags maxDist indices b)"
proof (induction indices arbitrary: b)
  case Nil
  then show ?case by simp
next
  case (Cons i indices)
  have i: "i < length ns" and rest: "list_all (\<lambda>i. i < length ns) indices"
    using Cons.prems(2) by simp_all
  obtain cands g where cc:
    "collectCandidates cfg ns flags maxDist (lb_degrees b) (lb_seen b) i [0 ..< length ns] [] (lb_random b) = (cands, g)"
    by (cases "collectCandidates cfg ns flags maxDist (lb_degrees b) (lb_seen b) i [0 ..< length ns] [] (lb_random b)")
  have ok: "list_all (candOK ns maxDist i) cands"
    using collectCandidates_ok[OF i, of "[0 ..< length ns]" maxDist "[]" cfg flags "lb_degrees b" "lb_seen b" "lb_random b"] cc
    by (simp add: list_all_iff)
  have b': "linksInv cfg ns flags maxDist (b\<lparr>lb_random := g\<rparr>)"
    using Cons.prems(1) by (simp add: linksInv_def)
  have conn: "linksInv cfg ns flags maxDist
                (connectCandidates cfg flags i (sort_key (\<lambda>c. - c_weight c) cands) (b\<lparr>lb_random := g\<rparr>))"
    using ok by (intro connectCandidates_inv[OF caps i b']) (simp add: sort_key_list_all)
  show ?case
    using Cons.IH[OF Cons.prems(1) rest] Cons.IH[OF b' rest] Cons.IH[OF conn rest] cc
    by (simp add: Let_def)
qed

lemma shuffleLoop_range:
  assumes n: "length arr < 2147483648"
  shows "k < length arr \<Longrightarrow> unit_rng g \<Longrightarrow> list_all (\<lambda>x. x < m) arr \<Longrightarrow> length arr = l \<Longrightarrow>
         list_all (\<lambda>x. x < m) (fst (shuffleLoop k arr g)) \<and> unit_rng (snd (shuffleLoop k arr g))"
  using n
proof (induction k arbitrary: arr g)
  case 0
  then show ?case by simp
next
  case (Suc k)
  obtain r g' where rg: "Math_random g = (r, g')" by (cases "Math_random g")
  have r: "0 \<le> r" "r < 1" and g': "unit_rng g'" using unit_rng_randomE[OF Suc.prems(2) rg] by simp_all
  define j where "j = nat (js_int32 (r * real (Suc k + 1)))"
  have "Suc k + 1 < 2147483648" using Suc.prems(1,5) by linarith
  from random_index(2)[OF r _ this] have "j < Suc k + 1" by (simp add: j_def)
  then have j: "j < length arr" using Suc.prems(1) by linarith
  define arr' where "arr' = arr[Suc k := arr ! j, j := arr ! Suc k]"
  have a: "list_all (\<lambda>x. x < m) arr'"
    using Suc.prems(1,3) j
    by (auto simp: arr'_def list_all_iff dest!: set_update_subset_insert[THEN subsetD])
  have l: "length arr' = l" "k < length arr'" "length arr' < 2147483648"
    using Suc.prems(1,4,5) by (simp_all add: arr'_def)
  show ?case
    using Suc.IH[OF l(2) g' a l(1) l(3)] rg by (simp add: Let_def j_def arr'_def)
qed

lemma shuffleArray_range:
  assumes "n < 2147483648" and "unit_rng g"
  shows "list_all (\<lambda>x. x < n) (fst (shuffleArray [0 ..< n] g))" and "unit_rng (snd (shuffleArray [0 ..< n] g))"
proof -
  have "list_all (\<lambda>x. x < n) (fst (shuffleArray [0 ..< n] g)) \<and> unit_rng (snd (shuffleArray [0 ..< n] g))"
  proof (cases "n = 0")
    case True
    then show ?thesis using assms(2) by (simp add: shuffleArray_def)
  next
    case False
    have "list_all (\<lambda>x. x < n) [0 ..< n]" by (simp add: list_all_iff)
    then show ?thesis
      unfolding shuffleArray_def
      using False assms by (intro shuffleLoop_range[where l = n]) simp_all
  qed
  then show "list_all (\<lambda>x. x < n) (fst (shuffleArray [0 ..< n] g))" and "unit_rng (snd (shuffleArray [0 ..< n] g))"
    by simp_all
qed

lemma linksInv_init:
  "linksInv cfg ns flags maxDist \<lparr>lb_degrees = replicate (length ns) 0, lb_links = [], lb_seen = {}, lb_random = g\<rparr>"
  by (simp add: linksInv_def incident_def linkEnds_def linkKeys_def)

text \<open>The links that \<^verbatim>\<open>_buildLinks\<close> produces satisfy the invariant of its loops.\<close>

lemma buildLinks_inv:
  assumes "MAX_LINKS_DYNAMIC cfg \<le> 32767" and "MAX_LINKS_STATIC cfg \<le> 32767"
    and "unit_rng (random e)" and "length (nodes e) < 2147483648"
  shows "\<exists>b. links (buildLinks cfg e) = lb_links b \<and>
             linksInv cfg (nodes e) (movingFlags e) (linkDistanceMax e) b"
proof -
  obtain indices g where sh: "shuffleArray [0 ..< length (nodes e)] (random e) = (indices, g)"
    by (cases "shuffleArray [0 ..< length (nodes e)] (random e)")
  have ind: "list_all (\<lambda>i. i < length (nodes e)) indices"
    using shuffleArray_range(1)[OF assms(4,3)] sh by simp
  define b where "b = buildLoop cfg (nodes e) (movingFlags e) (linkDistanceMax e) indices
                \<lparr>lb_degrees = replicate (length (nodes e)) 0, lb_links = [], lb_seen = {}, lb_random = g\<rparr>"
  have "linksInv cfg (nodes e) (movingFlags e) (linkDistanceMax e) b"
    unfolding b_def by (rule buildLoop_inv[OF assms(1,2) linksInv_init ind])
  moreover have "links (buildLinks cfg e) = lb_links b"
    by (simp add: buildLinks_def Let_def sh b_def)
  ultimately show ?thesis by blast
qed

lemma incident_zero:
  assumes "list_all (\<lambda>(a, b). a \<noteq> v \<and> b \<noteq> v) es"
  shows "incident v es = 0"
  using assms by (induction es) (auto simp: incident_def)

lemma linksInv_degree:
  assumes "linksInv cfg ns flags maxDist b"
  shows "incident v (linkEnds (lb_links b)) \<le> linkCap cfg flags v"
proof (cases "v < length ns")
  case True
  then show ?thesis using assms by (simp add: linksInv_def)
next
  case False
  have "list_all (linkOK ns maxDist) (lb_links b)" using assms by (simp add: linksInv_def)
  then have "list_all (\<lambda>(a, b). a \<noteq> v \<and> b \<noteq> v) (linkEnds (lb_links b))"
    using False by (auto simp: list_all_iff linkEnds_def linkOK_def)
  then show ?thesis by (simp add: incident_zero)
qed

lemma bgEnds_snoc: "bgEnds (es @ [E]) = bgEnds es @ [(e_ai E, e_bi E)]"
  by (simp add: bgEnds_def)

lemma bgPairs_ordered: "list_all (\<lambda>(i, j). i < j \<and> j < m) (bgPairs m)"
  by (auto simp: bgPairs_def list_all_iff)

lemma bgPairs_distinct: "distinct (bgPairs m)"
  unfolding bgPairs_def
proof (rule distinct_concat)
  show "distinct (map (\<lambda>i. map (\<lambda>j. (i, j)) [Suc i ..< m]) [0 ..< m])"
  proof (simp add: distinct_map, rule inj_onI)
    fix x y assume x: "x \<in> {0 ..< m}" and y: "y \<in> {0 ..< m}"
      and eq: "map (Pair x) [Suc x ..< m] = map (Pair y) [Suc y ..< m]"
    from eq have "length (map (Pair x) [Suc x ..< m]) = length (map (Pair y) [Suc y ..< m])" by simp
    then have "m - Suc x = m - Suc y" by simp
    then show "x = y" using x y by simp
  qed
next
  fix ys assume "ys \<in> set (map (\<lambda>i. map (\<lambda>j. (i, j)) [Suc i ..< m]) [0 ..< m])"
  then show "distinct ys" by (auto simp: distinct_map inj_on_def)
next
  fix ys zs assume "ys \<in> set (map (\<lambda>i. map (\<lambda>j. (i, j)) [Suc i ..< m]) [0 ..< m])"
    and "zs \<in> set (map (\<lambda>i. map (\<lambda>j. (i, j)) [Suc i ..< m]) [0 ..< m])" and "ys \<noteq> zs"
  then show "set ys \<inter> set zs = {}" by auto
qed

lemma collectBgEdges_ends:
  "bgEnds (fst (collectBgEdges bs maxDist pairs edges g))
     = bgEnds edges @ filter (\<lambda>(i, j). \<not> (maxDist < bgDist (bs ! i) (bs ! j) \<or> bgDist (bs ! i) (bs ! j) = 0)) pairs"
proof (induction pairs arbitrary: edges g)
  case Nil
  then show ?case by simp
next
  case (Cons p pairs)
  obtain i j where p: "p = (i, j)" by (cases p)
  obtain r g' where rg: "Math_random g = (r, g')" by (cases "Math_random g")
  show ?case
    unfolding p using Cons.IH rg by (simp add: Let_def bgEnds_snoc)
qed

lemma collectBgEdges_ok:
  "list_all (\<lambda>(i, j). i < j \<and> j < length bs) pairs \<Longrightarrow> list_all (bgEdgeOK bs maxDist) edges \<Longrightarrow>
   list_all (bgEdgeOK bs maxDist) (fst (collectBgEdges bs maxDist pairs edges g))"
proof (induction pairs arbitrary: edges g)
  case Nil
  then show ?case by simp
next
  case (Cons p pairs)
  obtain i j where p: "p = (i, j)" by (cases p)
  obtain r g' where rg: "Math_random g = (r, g')" by (cases "Math_random g")
  have ij: "i < j" "j < length bs" and rest: "list_all (\<lambda>(i, j). i < j \<and> j < length bs) pairs"
    using Cons.prems(1) by (simp_all add: p)
  define E where "E = \<lparr>e_ai = i, e_bi = j,
      e_weight = (1 / (bgDist (bs ! i) (bs ! j) powr (12 / 10))) * (1 + r * (5 / 100))\<rparr>"
  have ext: "list_all (bgEdgeOK bs maxDist) (edges @ [E])"
    if "\<not> (maxDist < bgDist (bs ! i) (bs ! j) \<or> bgDist (bs ! i) (bs ! j) = 0)"
  proof -
    have "bgEdgeOK bs maxDist E" using that ij by (simp add: bgEdgeOK_def E_def)
    then show ?thesis using Cons.prems(2) by simp
  qed
  show ?case
    unfolding p using Cons.IH[OF rest Cons.prems(2)] Cons.IH[OF rest ext] rg
    by (simp add: Let_def E_def)
qed

lemma bgInv_add:
  assumes cap: "degreeCap \<le> 32767"
    and inv: "bgInv degreeCap bs maxDist deg bgl"
    and ok: "bgEdgeOK bs maxDist edge"
    and room: "\<not> (int degreeCap \<le> deg ! e_ai edge \<or> int degreeCap \<le> deg ! e_bi edge)"
  shows "bgInv degreeCap bs maxDist
           (let d1 = deg[e_ai edge := inc16 (deg ! e_ai edge)];
                d2 = d1[e_bi edge := inc16 (d1 ! e_bi edge)] in d2)
           (bgl @ [edge])"
proof -
  define i where "i = e_ai edge"
  define j where "j = e_bi edge"
  define d1 where "d1 = deg[i := inc16 (deg ! i)]"
  define d2 where "d2 = d1[j := inc16 (d1 ! j)]"
  have ij: "i < j" "j < length bs" "i < length bs" "j \<noteq> i"
    using ok by (simp_all add: bgEdgeOK_def i_def j_def)
  have len: "length deg = length bs" using inv by (simp add: bgInv_def)
  have deg: "deg ! v = int (incident v (bgEnds bgl))"
    and lim: "incident v (bgEnds bgl) \<le> degreeCap" if "v < length bs" for v
    using inv that by (simp_all add: bgInv_def)
  have ri: "deg ! i < int degreeCap" and rj: "deg ! j < int degreeCap"
    using room by (simp_all add: i_def j_def)
  have bi: "deg ! i < 32767" and bj: "deg ! j < 32767" using ri rj cap by linarith+
  have d1j: "d1 ! j = deg ! j" using ij by (simp add: d1_def)
  have d2v: "d2 ! v = deg ! v + (if i = v \<or> j = v then 1 else 0)" if "v < length bs" for v
    using that len ij bi bj d1j by (auto simp: d2_def d1_def inc16_below nth_list_update)
  have inc: "incident v (bgEnds (bgl @ [edge])) = incident v (bgEnds bgl) + (if i = v \<or> j = v then 1 else 0)" for v
    by (simp add: bgEnds_snoc incident_snoc i_def j_def)
  have A: "length d2 = length bs" by (simp add: d2_def d1_def len)
  have B: "d2 ! v = int (incident v (bgEnds (bgl @ [edge]))) \<and>
           incident v (bgEnds (bgl @ [edge])) \<le> degreeCap" if v: "v < length bs" for v
  proof -
    have e: "d2 ! v = int (incident v (bgEnds (bgl @ [edge])))"
      using d2v[OF v] deg[OF v] inc[of v] by simp
    have "incident v (bgEnds (bgl @ [edge])) \<le> degreeCap"
    proof (cases "i = v \<or> j = v")
      case True
      then have "deg ! v < int degreeCap" using ri rj by auto
      then have "incident v (bgEnds bgl) < degreeCap" using deg[OF v] by simp
      then show ?thesis using inc[of v] True by simp
    next
      case False
      then show ?thesis using inc[of v] lim[OF v] by simp
    qed
    then show ?thesis using e by simp
  qed
  have C: "list_all (bgEdgeOK bs maxDist) (bgl @ [edge])" using inv ok by (simp add: bgInv_def)
  show ?thesis
    unfolding Let_def i_def[symmetric] j_def[symmetric] d1_def[symmetric] d2_def[symmetric]
    using A B C by (simp add: bgInv_def)
qed

lemma takeBgEdges_inv:
  assumes cap: "degreeCap \<le> 32767"
  shows "bgInv degreeCap bs maxDist deg bgl \<Longrightarrow> list_all (bgEdgeOK bs maxDist) edges \<Longrightarrow>
         distinct (bgEnds bgl @ bgEnds edges) \<Longrightarrow>
         (\<exists>deg'. bgInv degreeCap bs maxDist deg' (takeBgEdges degreeCap edges deg bgl)) \<and>
         distinct (bgEnds (takeBgEdges degreeCap edges deg bgl))"
proof (induction edges arbitrary: deg bgl)
  case Nil
  then show ?case by auto
next
  case (Cons edge edges)
  have ok: "bgEdgeOK bs maxDist edge" and rest: "list_all (bgEdgeOK bs maxDist) edges"
    using Cons.prems(2) by simp_all
  show ?case
  proof (cases "int degreeCap \<le> deg ! e_ai edge \<or> int degreeCap \<le> deg ! e_bi edge")
    case True
    have "distinct (bgEnds bgl @ bgEnds edges)" using Cons.prems(3) by (simp add: bgEnds_def)
    from Cons.IH[OF Cons.prems(1) rest this] show ?thesis using True by simp
  next
    case False
    define d2 where "d2 = (let d1 = deg[e_ai edge := inc16 (deg ! e_ai edge)];
                d2 = d1[e_bi edge := inc16 (d1 ! e_bi edge)] in d2)"
    have inv: "bgInv degreeCap bs maxDist d2 (bgl @ [edge])"
      unfolding d2_def by (rule bgInv_add[OF cap Cons.prems(1) ok False])
    have "distinct (bgEnds (bgl @ [edge]) @ bgEnds edges)" using Cons.prems(3) by (simp add: bgEnds_def)
    from Cons.IH[OF inv rest this] show ?thesis using False by (simp add: Let_def d2_def)
  qed
qed

lemma bgDegreeCap_le: "MAX_LINKS_STATIC cfg \<le> 32767 \<Longrightarrow> bgDegreeCap cfg \<le> 32767"
  by (simp add: bgDegreeCap_def)

text \<open>The edges that \<^verbatim>\<open>_buildBgLinks\<close> produces.\<close>

lemma buildBgLinks_inv:
  assumes "MAX_LINKS_STATIC cfg \<le> 32767"
  shows "(\<exists>deg. bgInv (bgDegreeCap cfg) (bgNodes e) (bgLinkDistanceMax e) deg (bgLinks (buildBgLinks cfg e))) \<and>
         distinct (bgEnds (bgLinks (buildBgLinks cfg e)))"
proof -
  define m where "m = length (bgNodes e)"
  obtain edges g where cc: "collectBgEdges (bgNodes e) (bgLinkDistanceMax e) (bgPairs m) [] (random e) = (edges, g)"
    by (cases "collectBgEdges (bgNodes e) (bgLinkDistanceMax e) (bgPairs m) [] (random e)")
  define sorted where "sorted = sort_key (\<lambda>edge. - e_weight edge) edges"
  have ok: "list_all (bgEdgeOK (bgNodes e) (bgLinkDistanceMax e)) edges"
    using collectBgEdges_ok[OF bgPairs_ordered[of "length (bgNodes e)"], of "bgLinkDistanceMax e" "[]" "random e"] cc
    by (simp add: m_def)
  have "distinct (bgEnds edges)"
    using collectBgEdges_ends[of "bgNodes e" "bgLinkDistanceMax e" "bgPairs m" "[]" "random e"] cc
      bgPairs_distinct[of m]
    by (simp add: bgEnds_def)
  then have d: "distinct (bgEnds [] @ bgEnds sorted)"
    by (simp add: bgEnds_def sorted_def distinct_map)
  have ok': "list_all (bgEdgeOK (bgNodes e) (bgLinkDistanceMax e)) sorted"
    using ok by (simp add: sorted_def sort_key_list_all)
  have init: "bgInv (bgDegreeCap cfg) (bgNodes e) (bgLinkDistanceMax e) (replicate m 0) []"
    by (simp add: bgInv_def m_def incident_def bgEnds_def)
  have "bgLinks (buildBgLinks cfg e) = takeBgEdges (bgDegreeCap cfg) sorted (replicate m 0) []"
    by (simp add: buildBgLinks_def Let_def m_def[symmetric] cc sorted_def)
  then show ?thesis
    using takeBgEdges_inv[OF bgDegreeCap_le[OF assms] init ok' d] by simp
qed

lemma bgInv_degree:
  assumes "bgInv degreeCap bs maxDist deg bgl"
  shows "incident v (bgEnds bgl) \<le> degreeCap"
proof (cases "v < length bs")
  case True
  then show ?thesis using assms by (simp add: bgInv_def)
next
  case False
  have "list_all (bgEdgeOK bs maxDist) bgl" using assms by (simp add: bgInv_def)
  then have "list_all (\<lambda>(a, b). a \<noteq> v \<and> b \<noteq> v) (bgEnds bgl)"
    using False by (auto simp: list_all_iff bgEnds_def bgEdgeOK_def)
  then show ?thesis by (simp add: incident_zero)
qed

text \<open>
  Claim C2 (degree cap). After \<^verbatim>\<open>_buildLinks\<close> the number of links at any node \<open>v\<close> is at
  most the cap of its role, \<^verbatim>\<open>MAX_LINKS_DYNAMIC\<close> for a moving node and \<^verbatim>\<open>MAX_LINKS_STATIC\<close>
  for a static one; after \<^verbatim>\<open>_buildBgLinks\<close> the number of edges at any background node is at
  most the background cap \<open>max 1 (min BG_LINK_MAX_DEGREE MAX_LINKS_STATIC)\<close>, which is
  \<^verbatim>\<open>BG_LINK_MAX_DEGREE\<close> in the source's configuration. This holds for every population of
  nodes; the hypotheses say that the caps fit the \<^verbatim>\<open>Int16Array\<close> of the degrees (they are 6, 5
  and 4), that \<^verbatim>\<open>Math.random\<close> keeps its contract and that the node array is shorter than
  \<open>2^31\<close>, so that the shuffle stays inside the array.
\<close>

theorem degree_cap:
  assumes "MAX_LINKS_DYNAMIC cfg \<le> 32767" and "MAX_LINKS_STATIC cfg \<le> 32767"
    and "unit_rng (random e)" and "length (nodes e) < 2147483648"
  shows "incident v (linkEnds (links (buildLinks cfg e))) \<le> linkCap cfg (movingFlags e) v \<and>
         (moving (movingFlags e) v \<longrightarrow> incident v (linkEnds (links (buildLinks cfg e))) \<le> MAX_LINKS_DYNAMIC cfg) \<and>
         (\<not> moving (movingFlags e) v \<longrightarrow> incident v (linkEnds (links (buildLinks cfg e))) \<le> MAX_LINKS_STATIC cfg) \<and>
         incident v (bgEnds (bgLinks (buildBgLinks cfg e))) \<le> bgDegreeCap cfg \<and>
         (1 \<le> BG_LINK_MAX_DEGREE cfg \<and> BG_LINK_MAX_DEGREE cfg \<le> MAX_LINKS_STATIC cfg \<longrightarrow>
            incident v (bgEnds (bgLinks (buildBgLinks cfg e))) \<le> BG_LINK_MAX_DEGREE cfg)"
proof -
  from buildLinks_inv[OF assms] obtain b where
    b: "links (buildLinks cfg e) = lb_links b" "linksInv cfg (nodes e) (movingFlags e) (linkDistanceMax e) b"
    by blast
  have fg: "incident v (linkEnds (links (buildLinks cfg e))) \<le> linkCap cfg (movingFlags e) v"
    unfolding b(1) by (rule linksInv_degree[OF b(2)])
  from buildBgLinks_inv[OF assms(2), of e] obtain deg where
    "bgInv (bgDegreeCap cfg) (bgNodes e) (bgLinkDistanceMax e) deg (bgLinks (buildBgLinks cfg e))" by blast
  then have bg: "incident v (bgEnds (bgLinks (buildBgLinks cfg e))) \<le> bgDegreeCap cfg"
    by (rule bgInv_degree)
  have "bgDegreeCap cfg = BG_LINK_MAX_DEGREE cfg"
    if "1 \<le> BG_LINK_MAX_DEGREE cfg \<and> BG_LINK_MAX_DEGREE cfg \<le> MAX_LINKS_STATIC cfg"
    using that by (simp add: bgDegreeCap_def)
  then show ?thesis using fg bg by (auto simp: linkCap_def)
qed

text \<open>
  The hypotheses and the caps 6 and 4 at the example state with the source's configuration.
\<close>

theorem degree_cap_witness:
  "MAX_LINKS_DYNAMIC CONFIG \<le> 32767 \<and> MAX_LINKS_STATIC CONFIG \<le> 32767 \<and>
   unit_rng (random exampleEngine) \<and> length (nodes exampleEngine) < 2147483648 \<and>
   moving (movingFlags exampleEngine) 0 \<and>
   incident 0 (linkEnds (links (buildLinks CONFIG exampleEngine))) \<le> 6 \<and>
   incident 0 (bgEnds (bgLinks (buildBgLinks CONFIG exampleEngine))) \<le> 4"
proof -
  have a: "MAX_LINKS_DYNAMIC CONFIG \<le> 32767" "MAX_LINKS_STATIC CONFIG \<le> 32767"
    by (simp_all add: CONFIG_def)
  have r: "unit_rng (random exampleEngine)" by (simp add: exampleEngine_def unit_rng_zero)
  have n: "length (nodes exampleEngine) < 2147483648" by (simp add: exampleEngine_def)
  have m: "moving (movingFlags exampleEngine) 0" by (simp add: exampleEngine_def moving_def)
  have c: "MAX_LINKS_DYNAMIC CONFIG = 6" "BG_LINK_MAX_DEGREE CONFIG = 4"
    "1 \<le> BG_LINK_MAX_DEGREE CONFIG \<and> BG_LINK_MAX_DEGREE CONFIG \<le> MAX_LINKS_STATIC CONFIG"
    by (simp_all add: CONFIG_def)
  show ?thesis
    using degree_cap[OF a r n, of 0] a r n m c by simp
qed

lemma linkOK_simple:
  "list_all (linkOK ns maxDist) ls \<Longrightarrow>
   list_all (\<lambda>L. l_ai L \<noteq> l_bi L \<and> l_ai L < length ns \<and> l_bi L < length ns) ls"
  by (auto simp: list_all_iff linkOK_def)

lemma bgEdgeOK_simple:
  "list_all (bgEdgeOK bs maxDist) es \<Longrightarrow>
   list_all (\<lambda>E. e_ai E \<noteq> e_bi E \<and> e_ai E < length bs \<and> e_bi E < length bs) es"
  by (auto simp: list_all_iff bgEdgeOK_def)

lemma bgEdgeOK_keys:
  assumes "list_all (bgEdgeOK bs maxDist) es"
  shows "map (\<lambda>E. linkKey (e_ai E) (e_bi E)) es = bgEnds es"
  using assms by (induction es) (simp_all add: bgEnds_def bgEdgeOK_def linkKey_def)

text \<open>
  Claim C6 (no duplicate and no self edges). After \<^verbatim>\<open>_buildLinks\<close> no unordered pair of node
  indices occurs twice among the links (their keys are distinct), and every link joins two
  different nodes of the population; the same holds for the edges of \<^verbatim>\<open>_buildBgLinks\<close> and
  the background nodes.
\<close>

theorem no_duplicate_or_self_edges:
  assumes "MAX_LINKS_DYNAMIC cfg \<le> 32767" and "MAX_LINKS_STATIC cfg \<le> 32767"
    and "unit_rng (random e)" and "length (nodes e) < 2147483648"
  shows "distinct (linkKeys (links (buildLinks cfg e))) \<and>
         list_all (\<lambda>L. l_ai L \<noteq> l_bi L \<and> l_ai L < length (nodes e) \<and> l_bi L < length (nodes e))
           (links (buildLinks cfg e)) \<and>
         distinct (map (\<lambda>E. linkKey (e_ai E) (e_bi E)) (bgLinks (buildBgLinks cfg e))) \<and>
         list_all (\<lambda>E. e_ai E \<noteq> e_bi E \<and> e_ai E < length (bgNodes e) \<and> e_bi E < length (bgNodes e))
           (bgLinks (buildBgLinks cfg e))"
proof -
  from buildLinks_inv[OF assms] obtain b where
    b: "links (buildLinks cfg e) = lb_links b" "linksInv cfg (nodes e) (movingFlags e) (linkDistanceMax e) b"
    by blast
  have lk: "list_all (linkOK (nodes e) (linkDistanceMax e)) (lb_links b)"
    using b(2) by (simp add: linksInv_def)
  have fg: "distinct (linkKeys (links (buildLinks cfg e)))"
    "list_all (\<lambda>L. l_ai L \<noteq> l_bi L \<and> l_ai L < length (nodes e) \<and> l_bi L < length (nodes e))
           (links (buildLinks cfg e))"
    unfolding b(1) using b(2) linkOK_simple[OF lk] by (simp_all add: linksInv_def)
  from buildBgLinks_inv[OF assms(2), of e] obtain deg where
    inv: "bgInv (bgDegreeCap cfg) (bgNodes e) (bgLinkDistanceMax e) deg (bgLinks (buildBgLinks cfg e))"
    and d: "distinct (bgEnds (bgLinks (buildBgLinks cfg e)))" by blast
  have ok: "list_all (bgEdgeOK (bgNodes e) (bgLinkDistanceMax e)) (bgLinks (buildBgLinks cfg e))"
    using inv by (simp add: bgInv_def)
  show ?thesis
    using fg d bgEdgeOK_keys[OF ok] bgEdgeOK_simple[OF ok] by simp
qed

text \<open>
  The hypotheses and the distinct keys for the state with 100 nodes and 60 background nodes.
\<close>

theorem no_duplicate_or_self_edges_witness:
  "MAX_LINKS_DYNAMIC CONFIG \<le> 32767 \<and> MAX_LINKS_STATIC CONFIG \<le> 32767 \<and>
   unit_rng (random busyEngine) \<and> length (nodes busyEngine) < 2147483648 \<and>
   distinct (linkKeys (links (buildLinks CONFIG busyEngine))) \<and>
   distinct (map (\<lambda>E. linkKey (e_ai E) (e_bi E)) (bgLinks (buildBgLinks CONFIG busyEngine)))"
proof -
  have a: "MAX_LINKS_DYNAMIC CONFIG \<le> 32767" "MAX_LINKS_STATIC CONFIG \<le> 32767"
    by (simp_all add: CONFIG_def)
  have r: "unit_rng (random busyEngine)" by (simp add: busyEngine_def unit_rng_zero)
  have n: "length (nodes busyEngine) < 2147483648" by (simp add: busyEngine_def)
  show ?thesis
    using no_duplicate_or_self_edges[OF a r n] a r n by simp
qed

text \<open>
  Claim C7 (edge length bound). For every link that \<^verbatim>\<open>_buildLinks\<close> produces, the distance of
  its endpoints at the time of the build is at most \<^verbatim>\<open>linkDistanceMax\<close>, and it is the length
  cached in the link; for every edge that \<^verbatim>\<open>_buildBgLinks\<close> produces, the distance of its
  endpoints is at most \<^verbatim>\<open>bgLinkDistanceMax\<close>. The builds change neither the nodes nor the
  two limits.
\<close>

theorem edge_length_bound:
  assumes "MAX_LINKS_DYNAMIC cfg \<le> 32767" and "MAX_LINKS_STATIC cfg \<le> 32767"
    and "unit_rng (random e)" and "length (nodes e) < 2147483648"
  shows "list_all (\<lambda>L. nodeDist (nodes e ! l_ai L) (nodes e ! l_bi L) \<le> linkDistanceMax e \<and>
                       l_d L = nodeDist (nodes e ! l_ai L) (nodes e ! l_bi L))
           (links (buildLinks cfg e)) \<and>
         list_all (\<lambda>E. bgDist (bgNodes e ! e_ai E) (bgNodes e ! e_bi E) \<le> bgLinkDistanceMax e)
           (bgLinks (buildBgLinks cfg e)) \<and>
         nodes (buildLinks cfg e) = nodes e \<and> linkDistanceMax (buildLinks cfg e) = linkDistanceMax e \<and>
         bgNodes (buildBgLinks cfg e) = bgNodes e \<and> bgLinkDistanceMax (buildBgLinks cfg e) = bgLinkDistanceMax e"
proof -
  from buildLinks_inv[OF assms] obtain b where
    b: "links (buildLinks cfg e) = lb_links b" "linksInv cfg (nodes e) (movingFlags e) (linkDistanceMax e) b"
    by blast
  have "list_all (linkOK (nodes e) (linkDistanceMax e)) (links (buildLinks cfg e))"
    unfolding b(1) using b(2) by (simp add: linksInv_def)
  then have fg: "list_all (\<lambda>L. nodeDist (nodes e ! l_ai L) (nodes e ! l_bi L) \<le> linkDistanceMax e \<and>
                       l_d L = nodeDist (nodes e ! l_ai L) (nodes e ! l_bi L))
           (links (buildLinks cfg e))"
    by (auto simp: list_all_iff linkOK_def)
  from buildBgLinks_inv[OF assms(2), of e] obtain deg where
    inv: "bgInv (bgDegreeCap cfg) (bgNodes e) (bgLinkDistanceMax e) deg (bgLinks (buildBgLinks cfg e))"
    by blast
  then have "list_all (bgEdgeOK (bgNodes e) (bgLinkDistanceMax e)) (bgLinks (buildBgLinks cfg e))"
    by (simp add: bgInv_def)
  then have bg: "list_all (\<lambda>E. bgDist (bgNodes e ! e_ai E) (bgNodes e ! e_bi E) \<le> bgLinkDistanceMax e)
           (bgLinks (buildBgLinks cfg e))"
    by (auto simp: list_all_iff bgEdgeOK_def)
  show ?thesis using fg bg by (simp add: buildLinks_frame buildBgLinks_frame)
qed

text \<open>
  The hypotheses and the two bounds, 1000 and 800, for the state with 100 nodes.
\<close>

theorem edge_length_bound_witness:
  "MAX_LINKS_DYNAMIC CONFIG \<le> 32767 \<and> MAX_LINKS_STATIC CONFIG \<le> 32767 \<and>
   unit_rng (random busyEngine) \<and> length (nodes busyEngine) < 2147483648 \<and>
   list_all (\<lambda>L. nodeDist (nodes busyEngine ! l_ai L) (nodes busyEngine ! l_bi L) \<le> 1000 \<and>
                 l_d L = nodeDist (nodes busyEngine ! l_ai L) (nodes busyEngine ! l_bi L))
     (links (buildLinks CONFIG busyEngine)) \<and>
   list_all (\<lambda>E. bgDist (bgNodes busyEngine ! e_ai E) (bgNodes busyEngine ! e_bi E) \<le> 800)
     (bgLinks (buildBgLinks CONFIG busyEngine))"
proof -
  have a: "MAX_LINKS_DYNAMIC CONFIG \<le> 32767" "MAX_LINKS_STATIC CONFIG \<le> 32767"
    by (simp_all add: CONFIG_def)
  have r: "unit_rng (random busyEngine)" by (simp add: busyEngine_def unit_rng_zero)
  have n: "length (nodes busyEngine) < 2147483648" by (simp add: busyEngine_def)
  have d: "linkDistanceMax busyEngine = 1000" "bgLinkDistanceMax busyEngine = 800"
    by (simp_all add: busyEngine_def)
  show ?thesis
    using edge_length_bound[OF a r n] a r n unfolding d by simp
qed

lemma floor_close:
  fixes a b :: real
  assumes "\<bar>a - b\<bar> < 2"
  shows "\<lfloor>b\<rfloor> - 2 \<le> \<lfloor>a\<rfloor>" and "\<lfloor>a\<rfloor> \<le> \<lfloor>b\<rfloor> + 2"
proof -
  have "a < b + 2" "b < a + 2" using assms by (simp_all add: abs_less_iff)
  have "of_int \<lfloor>a\<rfloor> \<le> a" "b < of_int \<lfloor>b\<rfloor> + 1" "of_int \<lfloor>b\<rfloor> \<le> b" "a < of_int \<lfloor>a\<rfloor> + 1"
    by linarith+
  then have "real_of_int \<lfloor>a\<rfloor> < of_int \<lfloor>b\<rfloor> + 3" "real_of_int \<lfloor>b\<rfloor> < of_int \<lfloor>a\<rfloor> + 3"
    using \<open>a < b + 2\<close> \<open>b < a + 2\<close> by linarith+
  then have "\<lfloor>a\<rfloor> < \<lfloor>b\<rfloor> + 3" "\<lfloor>b\<rfloor> < \<lfloor>a\<rfloor> + 3" by linarith+
  then show "\<lfloor>b\<rfloor> - 2 \<le> \<lfloor>a\<rfloor>" and "\<lfloor>a\<rfloor> \<le> \<lfloor>b\<rfloor> + 2" by simp_all
qed

lemma floor_same:
  fixes a b :: real
  assumes "\<lfloor>a\<rfloor> = \<lfloor>b\<rfloor>"
  shows "\<bar>a - b\<bar> < 1"
proof -
  have "of_int \<lfloor>a\<rfloor> \<le> a" "a < of_int \<lfloor>a\<rfloor> + 1" "of_int \<lfloor>b\<rfloor> \<le> b" "b < of_int \<lfloor>b\<rfloor> + 1"
    by linarith+
  moreover have "real_of_int \<lfloor>a\<rfloor> = real_of_int \<lfloor>b\<rfloor>" using assms by simp
  ultimately show ?thesis by linarith
qed

lemma cell_index_inj:
  fixes i j i' j' W :: int
  assumes "0 \<le> i" "i < W" "0 \<le> i'" "i' < W" and "j * W + i = j' * W + i'"
  shows "i = i' \<and> j = j'"
proof -
  have "(j * W + i) mod W = i" "(j' * W + i') mod W = i'" using assms(1-4) by simp_all
  then have i: "i = i'" using assms(5) by simp
  have "(j * W + i) div W = j" "(j' * W + i') div W = j'" using assms(1-4) by simp_all
  then have "j = j'" using assms(5) by simp
  then show ?thesis using i by simp
qed

lemma sq_lt_abs:
  fixes d r :: real
  assumes "d * d < r * r" and "0 < r"
  shows "\<bar>d\<bar> < r"
proof (rule ccontr)
  assume "\<not> \<bar>d\<bar> < r"
  then have "r \<le> \<bar>d\<bar>" by simp
  then have "r * r \<le> \<bar>d\<bar> * \<bar>d\<bar>" using assms(2) by (intro mult_mono) simp_all
  then show False using assms(1) by simp
qed

lemma abs_lt_sq:
  fixes d c :: real
  assumes "\<bar>d\<bar> < c"
  shows "d * d < c * c"
proof -
  have "\<bar>d\<bar> * \<bar>d\<bar> < c * c" using assms by (intro mult_strict_mono') simp_all
  then show ?thesis by simp
qed

lemma cellSize_sq: "2 * (cellSize r * cellSize r) = r * r"
  by (simp add: cellSize_def)

lemma r_lt_two_cells:
  assumes "0 < r"
  shows "r < 2 * cellSize r"
proof -
  have "sqrt 2 < sqrt 4" by (rule real_sqrt_less_mono) simp
  then have s: "sqrt 2 < 2" by simp
  have "r = cellSize r * sqrt 2" by (simp add: cellSize_def)
  also have "\<dots> < cellSize r * 2" using s cellSize_pos[OF assms] by simp
  finally show ?thesis by simp
qed

text \<open>A point in bounds lies in a cell of the grid.\<close>

lemma cell_in_grid:
  assumes "0 < r" and "inBounds w h x y"
  shows "0 \<le> \<lfloor>x / cellSize r\<rfloor>" "\<lfloor>x / cellSize r\<rfloor> < gridW w r"
    "0 \<le> \<lfloor>y / cellSize r\<rfloor>" "\<lfloor>y / cellSize r\<rfloor> < gridH h r"
proof -
  have c: "0 < cellSize r" by (rule cellSize_pos[OF assms(1)])
  have b: "0 \<le> x" "x < w" "0 \<le> y" "y < h" using assms(2) by (simp_all add: inBounds_def)
  show "0 \<le> \<lfloor>x / cellSize r\<rfloor>" "0 \<le> \<lfloor>y / cellSize r\<rfloor>" using b c by simp_all
  have "x / cellSize r < w / cellSize r" using b c by (simp add: divide_strict_right_mono)
  also have "\<dots> \<le> of_int \<lceil>w / cellSize r\<rceil>" by simp
  finally show "\<lfloor>x / cellSize r\<rfloor> < gridW w r" by (simp add: gridW_def floor_less_iff)
  have "y / cellSize r < h / cellSize r" using b c by (simp add: divide_strict_right_mono)
  also have "\<dots> \<le> of_int \<lceil>h / cellSize r\<rceil>" by simp
  finally show "\<lfloor>y / cellSize r\<rfloor> < gridH h r" by (simp add: gridH_def floor_less_iff)
qed

lemma close_cells:
  assumes "0 < r" and "\<bar>a - b\<bar> < r"
  shows "\<lfloor>b / cellSize r\<rfloor> - 2 \<le> \<lfloor>a / cellSize r\<rfloor>" and "\<lfloor>a / cellSize r\<rfloor> \<le> \<lfloor>b / cellSize r\<rfloor> + 2"
proof -
  have c: "0 < cellSize r" by (rule cellSize_pos[OF assms(1)])
  have "\<bar>a - b\<bar> < 2 * cellSize r" using assms(2) r_lt_two_cells[OF assms(1)] by linarith
  then have "\<bar>a - b\<bar> / cellSize r < 2" using c by (simp add: pos_divide_less_eq)
  moreover have "\<bar>a / cellSize r - b / cellSize r\<bar> = \<bar>a - b\<bar> / cellSize r"
    using abs_div_pos[OF c, of "a - b"] by (simp add: diff_divide_distrib)
  ultimately have "\<bar>a / cellSize r - b / cellSize r\<bar> < 2" by simp
  then show "\<lfloor>b / cellSize r\<rfloor> - 2 \<le> \<lfloor>a / cellSize r\<rfloor>" and "\<lfloor>a / cellSize r\<rfloor> \<le> \<lfloor>b / cellSize r\<rfloor> + 2"
    by (rule floor_close)+
qed

lemma same_cell_close:
  assumes "0 < r" and "\<lfloor>a / cellSize r\<rfloor> = \<lfloor>b / cellSize r\<rfloor>"
  shows "\<bar>a - b\<bar> < cellSize r"
proof -
  have c: "0 < cellSize r" by (rule cellSize_pos[OF assms(1)])
  have "\<bar>a / cellSize r - b / cellSize r\<bar> < 1" by (rule floor_same[OF assms(2)])
  moreover have "\<bar>a / cellSize r - b / cellSize r\<bar> = \<bar>a - b\<bar> / cellSize r"
    using abs_div_pos[OF c, of "a - b"] by (simp add: diff_divide_distrib)
  ultimately show ?thesis using c by (simp add: pos_divide_less_eq)
qed

lemma farEnough_cell:
  assumes "farEnough w h r grid x y"
    and "max 0 (\<lfloor>x / cellSize r\<rfloor> - 2) \<le> i" "i \<le> min (gridW w r - 1) (\<lfloor>x / cellSize r\<rfloor> + 2)"
    and "max 0 (\<lfloor>y / cellSize r\<rfloor> - 2) \<le> j" "j \<le> min (gridH h r - 1) (\<lfloor>y / cellSize r\<rfloor> + 2)"
    and "grid (j * gridW w r + i) = Some s"
  shows "r * r \<le> sqDist s x y"
proof -
  have "\<not> (s_x s - x) * (s_x s - x) + (s_y s - y) * (s_y s - y) < r * r"
    using assms by (auto simp: farEnough_def Let_def list_all_iff split: option.splits)
  then show ?thesis by (simp add: sqDist_def)
qed

text \<open>
  The window of 5 by 5 cells is enough: a sample nearer than \<open>r\<close> to an accepted point
  would lie in the window, in the cell the grid records it in.
\<close>

lemma farEnough_sound:
  assumes r: "0 < r"
    and s: "inBounds w h (s_x s) (s_y s)" "grid (gridIndex w r (s_x s) (s_y s)) = Some s"
    and p: "inBounds w h x y" and far: "farEnough w h r grid x y"
  shows "r * r \<le> sqDist s x y"
proof (rule ccontr)
  assume "\<not> r * r \<le> sqDist s x y"
  then have lt: "sqDist s x y < r * r" by simp
  define dx where "dx = s_x s - x"
  define dy where "dy = s_y s - y"
  have sum: "dx * dx + dy * dy < r * r" using lt by (simp add: sqDist_def dx_def dy_def)
  have "dx * dx < r * r" "dy * dy < r * r"
    using sum zero_le_square[of dx] zero_le_square[of dy] by linarith+
  then have "\<bar>s_x s - x\<bar> < r" "\<bar>s_y s - y\<bar> < r"
    using sq_lt_abs[OF _ r] by (simp_all add: dx_def dy_def)
  from close_cells[OF r this(1)] close_cells[OF r this(2)]
  have near: "\<lfloor>x / cellSize r\<rfloor> - 2 \<le> \<lfloor>s_x s / cellSize r\<rfloor>" "\<lfloor>s_x s / cellSize r\<rfloor> \<le> \<lfloor>x / cellSize r\<rfloor> + 2"
    "\<lfloor>y / cellSize r\<rfloor> - 2 \<le> \<lfloor>s_y s / cellSize r\<rfloor>" "\<lfloor>s_y s / cellSize r\<rfloor> \<le> \<lfloor>y / cellSize r\<rfloor> + 2"
    by simp_all
  note cell = cell_in_grid[OF r s(1)]
  have "r * r \<le> sqDist s x y"
  proof (rule farEnough_cell[OF far])
    show "max 0 (\<lfloor>x / cellSize r\<rfloor> - 2) \<le> \<lfloor>s_x s / cellSize r\<rfloor>" using near(1) cell(1) by simp
    show "\<lfloor>s_x s / cellSize r\<rfloor> \<le> min (gridW w r - 1) (\<lfloor>x / cellSize r\<rfloor> + 2)" using near(2) cell(2) by simp
    show "max 0 (\<lfloor>y / cellSize r\<rfloor> - 2) \<le> \<lfloor>s_y s / cellSize r\<rfloor>" using near(3) cell(3) by simp
    show "\<lfloor>s_y s / cellSize r\<rfloor> \<le> min (gridH h r - 1) (\<lfloor>y / cellSize r\<rfloor> + 2)" using near(4) cell(4) by simp
    show "grid (\<lfloor>s_y s / cellSize r\<rfloor> * gridW w r + \<lfloor>s_x s / cellSize r\<rfloor>) = Some s"
      using s(2) by (simp add: gridIndex_def)
  qed
  then show False using lt by simp
qed

text \<open>A point at distance at least \<open>r\<close> from a sample lies in another cell.\<close>

lemma other_cell:
  assumes r: "0 < r" and s: "inBounds w h (s_x s) (s_y s)" and p: "inBounds w h x y"
    and far: "r * r \<le> sqDist s x y"
  shows "gridIndex w r (s_x s) (s_y s) \<noteq> gridIndex w r x y"
proof
  assume eq: "gridIndex w r (s_x s) (s_y s) = gridIndex w r x y"
  note cs = cell_in_grid[OF r s]
  note cp = cell_in_grid[OF r p]
  have "\<lfloor>s_x s / cellSize r\<rfloor> = \<lfloor>x / cellSize r\<rfloor> \<and> \<lfloor>s_y s / cellSize r\<rfloor> = \<lfloor>y / cellSize r\<rfloor>"
    using eq unfolding gridIndex_def by (intro cell_index_inj[OF cs(1,2) cp(1,2)])
  then have "\<bar>s_x s - x\<bar> < cellSize r" "\<bar>s_y s - y\<bar> < cellSize r"
    using same_cell_close[OF r] by simp_all
  then have "(s_x s - x) * (s_x s - x) < cellSize r * cellSize r"
    "(s_y s - y) * (s_y s - y) < cellSize r * cellSize r"
    by (simp_all add: abs_lt_sq)
  then have "sqDist s x y < 2 * (cellSize r * cellSize r)" by (simp add: sqDist_def)
  then show False using far cellSize_sq[of r] by simp
qed

lemma spaced_snoc:
  assumes "spaced r pts" and "\<forall>s \<in> set pts. r * r \<le> sqDist s x y"
  shows "spaced r (pts @ [\<lparr>s_x = x, s_y = y\<rparr>])"
  unfolding spaced_def
proof (intro allI impI)
  fix i j assume ij: "i < j \<and> j < length (pts @ [\<lparr>s_x = x, s_y = y\<rparr>])"
  show "r * r \<le> sqDist ((pts @ [\<lparr>s_x = x, s_y = y\<rparr>]) ! i)
                       (s_x ((pts @ [\<lparr>s_x = x, s_y = y\<rparr>]) ! j)) (s_y ((pts @ [\<lparr>s_x = x, s_y = y\<rparr>]) ! j))"
  proof (cases "j < length pts")
    case True
    then show ?thesis using assms(1) ij by (simp add: spaced_def nth_append)
  next
    case False
    then have j: "j = length pts" and i: "i < length pts" using ij by simp_all
    have "pts ! i \<in> set pts" using i by simp
    then show ?thesis using assms(2) i j by (simp add: nth_append)
  qed
qed

lemma addSample_inv:
  assumes r: "0 < r" and inv: "sampInv w h r st"
    and p: "inBounds w h x y" and far: "farEnough w h r (ps_grid st) x y"
  shows "sampInv w h r (addSample w r x y st)"
proof -
  have old: "inBounds w h (s_x s) (s_y s)" "ps_grid st (gridIndex w r (s_x s) (s_y s)) = Some s"
    if "s \<in> set (ps_samples st)" for s
    using inv that by (simp_all add: sampInv_def list_all_iff)
  have dist: "r * r \<le> sqDist s x y" if "s \<in> set (ps_samples st)" for s
    by (rule farEnough_sound[OF r old[OF that] p far])
  have cell: "gridIndex w r (s_x s) (s_y s) \<noteq> gridIndex w r x y" if "s \<in> set (ps_samples st)" for s
    by (rule other_cell[OF r old(1)[OF that] p dist[OF that]])
  have "spaced r (ps_samples st @ [\<lparr>s_x = x, s_y = y\<rparr>])"
    using inv dist by (intro spaced_snoc) (simp_all add: sampInv_def)
  then show ?thesis
    using old cell p by (simp add: sampInv_def addSample_def Let_def list_all_iff)
qed

lemma tryPlace_Some:
  assumes "tryPlace w h r grid s n g = (Some (x, y), g')"
  shows "inBounds w h x y \<and> farEnough w h r grid x y"
  using assms
proof (induction n arbitrary: g)
  case 0
  then show ?case by simp
next
  case (Suc n)
  obtain r1 g1 where a: "Math_random g = (r1, g1)" by (cases "Math_random g")
  obtain r2 g2 where b: "Math_random g1 = (r2, g2)" by (cases "Math_random g1")
  show ?case
    using Suc.prems Suc.IH[of g2] a b by (auto simp: Let_def split: if_splits)
qed


lemma sampInv_seed:
  assumes "0 < w" and "0 < h"
  shows "sampInv w h r (addSample w r (w / 2) (h / 2)
                \<lparr>ps_grid = (\<lambda>c. None), ps_active = [], ps_samples = [], ps_random = g\<rparr>)"
  using assms by (simp add: sampInv_def addSample_def Let_def inBounds_def spaced_def)



lemma random_const: "Math_random (\<lambda>k. v) = (v, \<lambda>k. v)"
  by (simp add: Math_random_def)




lemma eighth_turn: "cos (1 / 8 * pi * 2) = sqrt 2 / 2" "sin (1 / 8 * pi * 2) = sqrt 2 / 2"
  by (simp_all add: cos_45 sin_45)


lemma js_int32_small: "0 \<le> v \<Longrightarrow> v < 1 \<Longrightarrow> js_int32 v = 0"
  by (simp add: js_int32_def js_trunc_def floor_eq_iff)


lemma poissonLoop_place:
  assumes "ps_active st \<noteq> []" and "Math_random (ps_random st) = (r0, g0)"
    and "js_nth (ps_active st) (js_int32 (r0 * real (length (ps_active st)))) = Some s"
    and "tryPlace w h r (ps_grid st) s k g0 = (Some (x, y), g1)"
  shows "poissonLoop w h r k st = poissonLoop w h r k (addSample w r x y (st\<lparr>ps_random := g1\<rparr>))"
  by (subst poissonLoop.simps) (simp add: assms Let_def)

lemma poissonLoop_drop:
  assumes "ps_active st \<noteq> []" and "Math_random (ps_random st) = (r0, g0)"
    and "js_nth (ps_active st) (js_int32 (r0 * real (length (ps_active st)))) = Some s"
    and "tryPlace w h r (ps_grid st) s k g0 = (None, g1)"
  shows "poissonLoop w h r k st
         = poissonLoop w h r k
             (st\<lparr>ps_active := take (nat (js_int32 (r0 * real (length (ps_active st))))) (ps_active st)
                                @ drop (Suc (nat (js_int32 (r0 * real (length (ps_active st)))))) (ps_active st),
                  ps_random := g1\<rparr>)"
  by (subst poissonLoop.simps) (simp add: assms Let_def)

lemma poissonLoop_done:
  assumes "ps_active st = []"
  shows "poissonLoop w h r k st = Some (Inr (ps_samples st, ps_random st))"
  by (subst poissonLoop.simps) (simp add: assms)



text \<open>
  Nodes that coincide get no links: every candidate is dropped by \<^verbatim>\<open>dist === 0\<close>. So the
  resize of \<open>shownEngine\<close> to a container without extent gives \<open>collapsedEngine\<close>.
\<close>

lemma collectCandidates_coincident:
  "(\<And>j. j \<in> set js \<Longrightarrow> nodeDist (ns ! i) (ns ! j) = 0) \<Longrightarrow>
   collectCandidates cfg ns flags maxDist degrees seen i js cands g = (cands, g)"
  by (induction js) (simp_all add: Let_def)

lemma buildLoop_coincident:
  "(\<And>i j. i \<in> set indices \<Longrightarrow> j < length ns \<Longrightarrow> nodeDist (ns ! i) (ns ! j) = 0) \<Longrightarrow>
   buildLoop cfg ns flags maxDist indices b = b"
proof (induction indices)
  case Nil
  then show ?case by simp
next
  case (Cons i indices)
  have c: "collectCandidates cfg ns flags maxDist (lb_degrees b) (lb_seen b) i [0 ..< length ns] [] (lb_random b)
           = ([], lb_random b)"
    by (rule collectCandidates_coincident) (simp add: Cons.prems)
  have "buildLoop cfg ns flags maxDist indices b = b"
    by (rule Cons.IH) (simp add: Cons.prems)
  then show ?case by (simp add: c)
qed

lemma shuffleLoop_const: "snd (shuffleLoop k arr (\<lambda>k. v)) = (\<lambda>k. v)"
  by (induction k arbitrary: arr) (simp_all add: random_const Let_def)

lemma buildLinks_coincident:
  assumes "random e = (\<lambda>k. 0)" and "length (nodes e) < 2147483648"
    and "\<And>i j. i < length (nodes e) \<Longrightarrow> j < length (nodes e) \<Longrightarrow> nodeDist (nodes e ! i) (nodes e ! j) = 0"
  shows "buildLinks cfg e = e\<lparr>links := [], staticLinks := [], dynamicLinks := []\<rparr>"
proof -
  obtain indices g where s: "shuffleArray [0 ..< length (nodes e)] (\<lambda>k. 0) = (indices, g)"
    by (cases "shuffleArray [0 ..< length (nodes e)] (\<lambda>k. 0::real)")
  have g: "g = (\<lambda>k. 0)"
    using shuffleLoop_const[of "length [0 ..< length (nodes e)] - 1" "[0 ..< length (nodes e)]" 0] s
    by (simp add: shuffleArray_def)
  have "list_all (\<lambda>x. x < length (nodes e)) indices"
    using shuffleArray_range(1)[OF assms(2) unit_rng_zero] s by simp
  then have r: "\<And>i. i \<in> set indices \<Longrightarrow> i < length (nodes e)" by (simp add: list_all_iff)
  have b: "buildLoop cfg (nodes e) (movingFlags e) (linkDistanceMax e) indices
             \<lparr>lb_degrees = replicate (length (nodes e)) 0, lb_links = [], lb_seen = {}, lb_random = g\<rparr>
           = \<lparr>lb_degrees = replicate (length (nodes e)) 0, lb_links = [], lb_seen = {}, lb_random = g\<rparr>"
    by (rule buildLoop_coincident) (simp add: assms(3) r)
  show ?thesis
    using assms(1) by (simp add: buildLinks_def s[unfolded g] b[unfolded g] Let_def)
qed

lemma collectBgEdges_coincident:
  "(\<And>i j. (i, j) \<in> set pairs \<Longrightarrow> bgDist (bs ! i) (bs ! j) = 0) \<Longrightarrow>
   collectBgEdges bs maxDist pairs edges g = (edges, g)"
proof (induction pairs)
  case Nil
  then show ?case by simp
next
  case (Cons p pairs)
  obtain i j where p: "p = (i, j)" by (cases p)
  have "bgDist (bs ! i) (bs ! j) = 0" using Cons.prems[of i j] p by simp
  moreover have "collectBgEdges bs maxDist pairs edges g = (edges, g)"
    by (rule Cons.IH) (simp add: Cons.prems)
  ultimately show ?case by (simp add: p)
qed

lemma bgPairs_range: "(i, j) \<in> set (bgPairs m) \<Longrightarrow> i < m \<and> j < m"
  by (auto simp add: bgPairs_def)

lemma buildBgLinks_coincident:
  assumes "\<And>i j. i < length (bgNodes e) \<Longrightarrow> j < length (bgNodes e) \<Longrightarrow> bgDist (bgNodes e ! i) (bgNodes e ! j) = 0"
  shows "buildBgLinks cfg e = e\<lparr>bgLinks := []\<rparr>"
proof -
  have "collectBgEdges (bgNodes e) (bgLinkDistanceMax e) (bgPairs (length (bgNodes e))) [] (random e) = ([], random e)"
    by (rule collectBgEdges_coincident) (use assms bgPairs_range in blast)
  then show ?thesis by (simp add: buildBgLinks_def Let_def)
qed

lemma sqrt_small: "sqrt (1 / 1296000) < 1 / 1000" "0 \<le> sqrt (1 / 1296000)"
proof -
  have "sqrt (1 / 1296000) < sqrt ((1 / 1000)\<^sup>2)"
    by (simp only: real_sqrt_less_iff) (simp add: power2_eq_square)
  then show "sqrt (1 / 1296000) < 1 / 1000" by simp
  show "0 \<le> sqrt (1 / 1296000)" by simp
qed

lemma shown_counts: "countsUnchanged CONFIG 0 0 shownEngine"
  by (simp add: countsUnchanged_def afterScaling_def applyResponsiveScaling_def getTargetCounts_def
        shownEngine_def CONFIG_def BASELINE_AREA_def Let_def clamp_def Math_round_def)


lemma round_small:
  "Math_round (500 * sqrt (1 / 1296000)) = 0" "Math_round (sqrt (1 / 1296000)) = 0"
  "Math_round (400 * sqrt (1 / 1296000)) = 0"
  using sqrt_small by (simp_all add: Math_round_def floor_eq_iff)

lemma collapsed_scaling:
  "(afterScaling CONFIG 0 0 shownEngine)
     \<lparr>nodes := map (rescaleNode (resizeScaleX 0 shownEngine) (resizeScaleY 0 shownEngine)) (nodes shownEngine),
      bgNodes := map (rescaleBgNode (resizeScaleX 0 shownEngine) (resizeScaleY 0 shownEngine)) (bgNodes shownEngine)\<rparr>
   = collapsedEngine"
proof -
  have k: "BASE_MAX_LINK_DISTANCE CONFIG = 500" "BASE_PULSE_MAX_ACTIVE CONFIG = 1" "BG_LINK_MAX_DISTANCE CONFIG = 400"
    "BASE_NODE_COUNT CONFIG = 70" "BASE_BG_NODE_COUNT CONFIG = 70" "NODE_COUNT CONFIG = 100" "BG_NODE_COUNT CONFIG = 60"
    "PULSE_MAX_ACTIVE CONFIG = 4" "BASELINE_AREA CONFIG = 1296000"
    by (simp_all add: CONFIG_def BASELINE_AREA_def)
  show ?thesis
    by (simp add: afterScaling_def applyResponsiveScaling_def k round_small Let_def clamp_def
          resizeScaleX_def resizeScaleY_def rescaleNode_def rescaleBgNode_def
          shownEngine_def collapsedEngine_def comp_def,
        simp add: Math_round_def)
qed

lemma collapsed_links: "buildBgLinks CONFIG (buildLinks CONFIG collapsedEngine) = collapsedEngine"
proof -
  have "buildLinks CONFIG collapsedEngine = collapsedEngine\<lparr>links := [], staticLinks := [], dynamicLinks := []\<rparr>"
    by (rule buildLinks_coincident) (simp_all add: collapsedEngine_def nodeDist_def Math_hypot_def)
  also have "\<dots> = collapsedEngine" by (simp add: collapsedEngine_def)
  finally have l: "buildLinks CONFIG collapsedEngine = collapsedEngine" .
  have "buildBgLinks CONFIG collapsedEngine = collapsedEngine\<lparr>bgLinks := []\<rparr>"
    by (rule buildBgLinks_coincident) (simp_all add: collapsedEngine_def bgDist_def Math_hypot_def)
  also have "\<dots> = collapsedEngine" by (simp add: collapsedEngine_def)
  finally show ?thesis by (simp add: l)
qed

lemma hidden_collapse: "resize CONFIG False 0 0 shownEngine = Some (Inr collapsedEngine)"
  by (simp only: resize_rescale[OF shown_counts] collapsed_scaling collapsed_links)

text \<open>
  The sampler returns. The samples lie in pairwise different cells of the grid, so there
  are never more samples than cells; each round of the loop either adds a sample or drops
  an entry of \<^verbatim>\<open>active\<close>.
\<close>

lemma spaced_distinct:
  assumes "0 < r" and "spaced r pts"
  shows "distinct pts"
proof (rule ccontr)
  assume "\<not> distinct pts"
  then obtain a b where ab: "a < length pts" "b < length pts" "a \<noteq> b" "pts ! a = pts ! b"
    unfolding distinct_conv_nth by blast
  have "\<exists>i j. i < j \<and> j < length pts \<and> pts ! i = pts ! j"
  proof (cases "a < b")
    case True
    then show ?thesis using ab by blast
  next
    case False
    then have "b < a" using ab(3) by simp
    then show ?thesis using ab(1,4) by metis
  qed
  then obtain i j where ij: "i < j" "j < length pts" "pts ! i = pts ! j" by blast
  from assms(2) ij(1,2) have "r * r \<le> sqDist (pts ! i) (s_x (pts ! j)) (s_y (pts ! j))"
    unfolding spaced_def by blast
  then have "r * r \<le> 0" unfolding ij(3) by (simp add: sqDist_def)
  moreover have "0 < r * r" using assms(1) by simp
  ultimately show False by simp
qed

lemma gridIndex_range:
  assumes "0 < r" and "inBounds w h x y"
  shows "0 \<le> gridIndex w r x y" and "gridIndex w r x y < gridW w r * gridH h r"
proof -
  note c = cell_in_grid[OF assms]
  have g: "0 \<le> gridW w r" using c(1,2) by linarith
  have "0 \<le> \<lfloor>y / cellSize r\<rfloor> * gridW w r" using c(3) g by (rule mult_nonneg_nonneg)
  then show "0 \<le> gridIndex w r x y"
    unfolding gridIndex_def using c(1) by linarith
  have "\<lfloor>y / cellSize r\<rfloor> + 1 \<le> gridH h r" using c(4) by linarith
  then have "(\<lfloor>y / cellSize r\<rfloor> + 1) * gridW w r \<le> gridH h r * gridW w r"
    using g by (rule mult_right_mono)
  then have "\<lfloor>y / cellSize r\<rfloor> * gridW w r + gridW w r \<le> gridW w r * gridH h r"
    by (simp add: algebra_simps)
  then show "gridIndex w r x y < gridW w r * gridH h r"
    unfolding gridIndex_def using c(2) by linarith
qed

lemma sampInv_count:
  assumes r: "0 < r" and inv: "sampInv w h r st"
  shows "length (ps_samples st) \<le> nat (gridW w r * gridH h r)"
proof -
  let ?f = "\<lambda>s. gridIndex w r (s_x s) (s_y s)"
  have each: "\<And>s. s \<in> set (ps_samples st) \<Longrightarrow>
                inBounds w h (s_x s) (s_y s) \<and> ps_grid st (?f s) = Some s"
    using inv by (simp add: sampInv_def list_all_iff)
  have "spaced r (ps_samples st)" using inv by (simp add: sampInv_def)
  then have d: "distinct (ps_samples st)" by (rule spaced_distinct[OF r])
  have inj: "inj_on ?f (set (ps_samples st))"
  proof (rule inj_onI)
    fix a b assume a: "a \<in> set (ps_samples st)" and b: "b \<in> set (ps_samples st)" and e: "?f a = ?f b"
    have "Some a = ps_grid st (?f a)" using each[OF a] by simp
    also have "\<dots> = ps_grid st (?f b)" by (simp only: e)
    also have "\<dots> = Some b" using each[OF b] by simp
    finally show "a = b" by simp
  qed
  have sub: "?f ` set (ps_samples st) \<subseteq> {0 ..< gridW w r * gridH h r}"
  proof
    fix k assume "k \<in> ?f ` set (ps_samples st)"
    then obtain s where s: "s \<in> set (ps_samples st)" "k = ?f s" by blast
    have "inBounds w h (s_x s) (s_y s)" using each[OF s(1)] by simp
    from gridIndex_range[OF r this] show "k \<in> {0 ..< gridW w r * gridH h r}" unfolding s(2) by simp
  qed
  have "length (ps_samples st) = card (set (ps_samples st))"
    using d by (simp add: distinct_card)
  also have "\<dots> = card (?f ` set (ps_samples st))"
    using inj by (simp add: card_image)
  also have "\<dots> \<le> card {0 ..< gridW w r * gridH h r}"
    by (rule card_mono[OF _ sub]) simp
  finally show ?thesis by simp
qed

lemma sampInv_frame:
  "sampInv w h r (st\<lparr>ps_random := g\<rparr>) = sampInv w h r st"
  "sampInv w h r (st\<lparr>ps_active := a\<rparr>) = sampInv w h r st"
  by (simp_all add: sampInv_def)

lemma addSample_fields:
  "ps_samples (addSample w r x y st) = ps_samples st @ [\<lparr>s_x = x, s_y = y\<rparr>]"
  "ps_active (addSample w r x y st) = ps_active st @ [\<lparr>s_x = x, s_y = y\<rparr>]"
  "ps_random (addSample w r x y st) = ps_random st"
  by (simp_all add: addSample_def Let_def)

text \<open>The attempts around a sample leave a constant stream of draws as it is.\<close>

lemma tryPlace_stream: "snd (tryPlace w h r grid s n (\<lambda>k. v)) = (\<lambda>k. v)"
  by (induction n) (simp_all add: random_const Let_def)

text \<open>
  From a state that satisfies the invariant the loop ends, in a state that satisfies it
  and whose samples extend those of the start; under the contract of \<^verbatim>\<open>Math.random\<close> the
  index into \<^verbatim>\<open>active\<close> is in range and nothing throws.
\<close>

lemma poissonLoop_ends:
  assumes w: "0 < w" and h: "0 < h" and r: "0 < r"
    and N: "gridW w r * gridH h r < 2147483648"
  shows "sampInv w h r st \<Longrightarrow> unit_rng (ps_random st) \<Longrightarrow> length (ps_active st) \<le> length (ps_samples st) \<Longrightarrow>
         \<exists>st'. poissonLoop w h r k st = Some (Inr (ps_samples st', ps_random st')) \<and>
               sampInv w h r st' \<and> unit_rng (ps_random st') \<and>
               take (length (ps_samples st)) (ps_samples st') = ps_samples st \<and>
               (\<forall>v. ps_random st = (\<lambda>k. v) \<longrightarrow> ps_random st' = (\<lambda>k. v))"
proof (induction "2 * (nat (gridW w r * gridH h r) - length (ps_samples st)) + length (ps_active st)"
        arbitrary: st rule: less_induct)
  case less
  note inv = less.prems(1) and rng = less.prems(2) and act = less.prems(3)
  have cnt: "length (ps_samples st) \<le> nat (gridW w r * gridH h r)"
    by (rule sampInv_count[OF r inv])
  show ?case
  proof (cases "ps_active st = []")
    case True
    have "poissonLoop w h r k st = Some (Inr (ps_samples st, ps_random st)) \<and>
               sampInv w h r st \<and> unit_rng (ps_random st) \<and>
               take (length (ps_samples st)) (ps_samples st) = ps_samples st \<and>
               (\<forall>v. ps_random st = (\<lambda>k. v) \<longrightarrow> ps_random st = (\<lambda>k. v))"
      using True rng inv by (simp add: poissonLoop_done)
    then show ?thesis by blast
  next
    case False
    obtain r0 g0 where rg: "Math_random (ps_random st) = (r0, g0)"
      by (cases "Math_random (ps_random st)")
    note r0 = unit_rng_randomE[OF rng rg]
    have len: "0 < length (ps_active st)" "length (ps_active st) < 2147483648"
      using False act cnt N by simp_all
    note idx = random_index[OF r0(1,2) len]
    define s where "s = ps_active st ! nat (js_int32 (r0 * real (length (ps_active st))))"
    have nth: "js_nth (ps_active st) (js_int32 (r0 * real (length (ps_active st)))) = Some s"
      unfolding s_def by (rule js_nth_Some[OF idx])
    obtain res g1 where tp: "tryPlace w h r (ps_grid st) s k g0 = (res, g1)"
      by (cases "tryPlace w h r (ps_grid st) s k g0")
    have g1: "unit_rng g1"
      using tryPlace_rng[OF r0(3), of w h r "ps_grid st" s k] tp by simp
    have c1: "g1 = (\<lambda>k. v)" if "ps_random st = (\<lambda>k. v)" for v
    proof -
      have "Math_random (\<lambda>k. v) = (r0, g0)" using rg that by simp
      then have "g0 = (\<lambda>k. v)" unfolding random_const by blast
      then show ?thesis using tryPlace_stream[of w h r "ps_grid st" s k v] tp by simp
    qed
    show ?thesis
    proof (cases res)
      case None
      define st' where "st' = st\<lparr>ps_active := take (nat (js_int32 (r0 * real (length (ps_active st))))) (ps_active st)
                                @ drop (Suc (nat (js_int32 (r0 * real (length (ps_active st)))))) (ps_active st),
                  ps_random := g1\<rparr>"
      have step: "poissonLoop w h r k st = poissonLoop w h r k st'"
        unfolding st'_def by (rule poissonLoop_drop[OF False rg nth]) (simp add: tp None)
      have f: "ps_samples st' = ps_samples st" "ps_random st' = g1"
        "length (ps_active st') = length (ps_active st) - 1"
        using idx(2) by (simp_all add: st'_def)
      have "\<exists>st''. poissonLoop w h r k st' = Some (Inr (ps_samples st'', ps_random st'')) \<and>
               sampInv w h r st'' \<and> unit_rng (ps_random st'') \<and>
               take (length (ps_samples st')) (ps_samples st'') = ps_samples st' \<and>
               (\<forall>v. ps_random st' = (\<lambda>k. v) \<longrightarrow> ps_random st'' = (\<lambda>k. v))"
      proof (rule less.hyps)
        show "2 * (nat (gridW w r * gridH h r) - length (ps_samples st')) + length (ps_active st')
              < 2 * (nat (gridW w r * gridH h r) - length (ps_samples st)) + length (ps_active st)"
          using len(1) by (simp add: f)
        show "sampInv w h r st'" using inv by (simp add: st'_def sampInv_frame)
        show "unit_rng (ps_random st')" using g1 by (simp add: f)
        show "length (ps_active st') \<le> length (ps_samples st')" using act by (simp add: f)
      qed
      then obtain st'' where res: "poissonLoop w h r k st' = Some (Inr (ps_samples st'', ps_random st''))"
        "sampInv w h r st''" "unit_rng (ps_random st'')"
        "take (length (ps_samples st)) (ps_samples st'') = ps_samples st"
        "\<forall>v. g1 = (\<lambda>k. v) \<longrightarrow> ps_random st'' = (\<lambda>k. v)"
        by (auto simp add: f)
      have "\<forall>v. ps_random st = (\<lambda>k. v) \<longrightarrow> ps_random st'' = (\<lambda>k. v)"
        using res(5) c1 by blast
      then show ?thesis using res(1-4) unfolding step by blast
    next
      case (Some p)
      obtain x y where p: "p = (x, y)" by (cases p)
      define st' where "st' = addSample w r x y (st\<lparr>ps_random := g1\<rparr>)"
      have tp': "tryPlace w h r (ps_grid st) s k g0 = (Some (x, y), g1)"
        using tp Some p by simp
      have step: "poissonLoop w h r k st = poissonLoop w h r k st'"
        unfolding st'_def by (rule poissonLoop_place[OF False rg nth tp'])
      note ok = tryPlace_Some[OF tp']
      have inv': "sampInv w h r st'"
        unfolding st'_def
        by (rule addSample_inv[OF r]) (use inv ok in \<open>simp_all add: sampInv_frame\<close>)
      have f: "ps_samples st' = ps_samples st @ [\<lparr>s_x = x, s_y = y\<rparr>]" "ps_random st' = g1"
        "length (ps_active st') = Suc (length (ps_active st))"
        by (simp_all add: st'_def addSample_fields)
      have cnt': "Suc (length (ps_samples st)) \<le> nat (gridW w r * gridH h r)"
        using sampInv_count[OF r inv'] by (simp add: f)
      have "\<exists>st''. poissonLoop w h r k st' = Some (Inr (ps_samples st'', ps_random st'')) \<and>
               sampInv w h r st'' \<and> unit_rng (ps_random st'') \<and>
               take (length (ps_samples st')) (ps_samples st'') = ps_samples st' \<and>
               (\<forall>v. ps_random st' = (\<lambda>k. v) \<longrightarrow> ps_random st'' = (\<lambda>k. v))"
      proof (rule less.hyps)
        show "2 * (nat (gridW w r * gridH h r) - length (ps_samples st')) + length (ps_active st')
              < 2 * (nat (gridW w r * gridH h r) - length (ps_samples st)) + length (ps_active st)"
          using cnt' by (simp add: f)
        show "sampInv w h r st'" by (rule inv')
        show "unit_rng (ps_random st')" using g1 by (simp add: f)
        show "length (ps_active st') \<le> length (ps_samples st')" using act by (simp add: f)
      qed
      then obtain st'' where res: "poissonLoop w h r k st' = Some (Inr (ps_samples st'', ps_random st''))"
        "sampInv w h r st''" "unit_rng (ps_random st'')"
        "take (Suc (length (ps_samples st))) (ps_samples st'') = ps_samples st @ [\<lparr>s_x = x, s_y = y\<rparr>]"
        "\<forall>v. g1 = (\<lambda>k. v) \<longrightarrow> ps_random st'' = (\<lambda>k. v)"
        by (auto simp add: f)
      have "take (length (ps_samples st)) (take (Suc (length (ps_samples st))) (ps_samples st'')) = ps_samples st"
        unfolding res(4) by simp
      then have t: "take (length (ps_samples st)) (ps_samples st'') = ps_samples st" by (simp add: min_def)
      have "\<forall>v. ps_random st = (\<lambda>k. v) \<longrightarrow> ps_random st'' = (\<lambda>k. v)"
        using res(5) c1 by blast
      then show ?thesis using res(1-3) t unfolding step by blast
    qed
  qed
qed

lemma grid_nonneg:
  assumes "0 < w" and "0 < h" and "0 < r"
  shows "0 \<le> gridW w r * gridH h r"
proof -
  have c: "0 < cellSize r" by (rule cellSize_pos[OF assms(3)])
  have "0 \<le> w / cellSize r" "0 \<le> h / cellSize r" using assms c by simp_all
  then have "0 \<le> gridW w r" "0 \<le> gridH h r"
    unfolding gridW_def gridH_def by (simp_all add: ceiling_mono[of 0, simplified])
  then show ?thesis by (rule mult_nonneg_nonneg)
qed

text \<open>
  For a positive width, height and \<open>r\<close>, a grid of fewer than \<open>2^31\<close> cells and a generator
  that keeps its contract, \<^verbatim>\<open>poisson\<close> returns a point list, whose first point is the
  centre.
\<close>

lemma poisson_returns:
  assumes "0 < w" and "0 < h" and "0 < r"
    and "gridW w r * gridH h r < 2147483648" and "unit_rng g"
  shows "\<exists>pts g'. poisson w h r maxTries g = Some (Inr (pts, g')) \<and> unit_rng g' \<and>
                  take 1 pts = [\<lparr>s_x = w / 2, s_y = h / 2\<rparr>]"
proof -
  define st where "st = addSample w r (w / 2) (h / 2)
                \<lparr>ps_grid = (\<lambda>c. None), ps_active = [], ps_samples = [], ps_random = g\<rparr>"
  have inv: "sampInv w h r st"
    unfolding st_def by (rule sampInv_seed[OF assms(1,2)])
  have f: "ps_samples st = [\<lparr>s_x = w / 2, s_y = h / 2\<rparr>]" "ps_active st = [\<lparr>s_x = w / 2, s_y = h / 2\<rparr>]"
    "ps_random st = g"
    by (simp_all add: st_def addSample_fields)
  have u: "unit_rng (ps_random st)" using assms(5) by (simp add: f)
  have la: "length (ps_active st) \<le> length (ps_samples st)" by (simp add: f)
  from poissonLoop_ends[OF assms(1-4) inv u la, of maxTries]
  obtain st' where a: "poissonLoop w h r maxTries st = Some (Inr (ps_samples st', ps_random st'))"
    "sampInv w h r st'"
    "unit_rng (ps_random st')" "take (length (ps_samples st)) (ps_samples st') = ps_samples st"
    "\<forall>v. ps_random st = (\<lambda>k. v) \<longrightarrow> ps_random st' = (\<lambda>k. v)"
    by blast
  have res: "poissonLoop w h r maxTries st = Some (Inr (ps_samples st', ps_random st'))"
    "unit_rng (ps_random st')" "take 1 (ps_samples st') = [\<lparr>s_x = w / 2, s_y = h / 2\<rparr>]"
    using a(1,3,4) by (simp_all add: f)
  have "poisson w h r maxTries g = poissonLoop w h r maxTries st"
    using assms(3,4) grid_nonneg[OF assms(1-3)] by (simp add: poisson_def st_def)
  then show ?thesis using res by simp
qed

text \<open>
  An execution that violates the pulse cap of claim C3 as stated, from the constructor on.
  Every draw of the generator is 1/16, a stream that every loop leaves as it is.
  \<^verbatim>\<open>_buildLinks\<close> never removes a link, and it adds one as soon as a node with a free
  degree has a candidate while no link exists. So two nodes within reach of each other give
  at least one link.
\<close>

lemma connectCandidates_mono:
  "lb_links b \<noteq> [] \<Longrightarrow> lb_links (connectCandidates cfg flags i cands b) \<noteq> []"
  by (induction cands arbitrary: b) (simp_all add: Let_def)

lemma buildLoop_mono:
  "lb_links b \<noteq> [] \<Longrightarrow> lb_links (buildLoop cfg ns flags maxDist indices b) \<noteq> []"
proof (induction indices arbitrary: b)
  case Nil
  then show ?case by simp
next
  case (Cons i indices)
  obtain cands g where cc:
    "collectCandidates cfg ns flags maxDist (lb_degrees b) (lb_seen b) i [0 ..< length ns] [] (lb_random b) = (cands, g)"
    by (cases "collectCandidates cfg ns flags maxDist (lb_degrees b) (lb_seen b) i [0 ..< length ns] [] (lb_random b)")
  have a: "lb_links (b\<lparr>lb_random := g\<rparr>) \<noteq> []" using Cons.prems by simp
  have c: "lb_links (connectCandidates cfg flags i (sort_key (\<lambda>c. - c_weight c) cands) (b\<lparr>lb_random := g\<rparr>)) \<noteq> []"
    by (rule connectCandidates_mono[OF a])
  show ?case
    using Cons.IH[OF Cons.prems] Cons.IH[OF a] Cons.IH[OF c] cc by (simp add: Let_def)
qed

lemma connectCandidates_first:
  assumes "cands \<noteq> []" and "lb_seen b = {}"
    and "lb_degrees b ! i < int (linkCap cfg flags i)"
    and "lb_degrees b ! c_j (hd cands) < int (linkCap cfg flags (c_j (hd cands)))"
  shows "lb_links (connectCandidates cfg flags i cands b) \<noteq> []"
proof -
  obtain entry rest where c: "cands = entry # rest" using assms(1) by (cases cands) simp_all
  have room: "\<not> (int (linkCap cfg flags i) \<le> lb_degrees b ! i \<or>
                   int (linkCap cfg flags (c_j entry)) \<le> lb_degrees b ! c_j entry)"
    using assms(3,4) by (simp add: c)
  define b' where "b' = (let d1 = (lb_degrees b)[i := inc16 (lb_degrees b ! i)];
                  d2 = d1[c_j entry := inc16 (d1 ! c_j entry)]
              in b\<lparr>lb_links := lb_links b @ [\<lparr>l_ai = i, l_bi = c_j entry, l_d = c_dist entry\<rparr>],
                    lb_seen := insert (linkKey i (c_j entry)) (lb_seen b),
                    lb_degrees := d2\<rparr>)"
  have "lb_links b' \<noteq> []" by (simp add: b'_def Let_def)
  then have "lb_links (connectCandidates cfg flags i rest b') \<noteq> []" by (rule connectCandidates_mono)
  moreover have "connectCandidates cfg flags i cands b = connectCandidates cfg flags i rest b'"
    using room assms(2) unfolding c b'_def by (simp add: Let_def)
  ultimately show ?thesis by simp
qed

lemma collectCandidates_nonempty:
  assumes "j0 \<noteq> i" and "linkKey i j0 \<notin> seen"
    and "nodeDist (ns ! i) (ns ! j0) \<le> maxDist" and "nodeDist (ns ! i) (ns ! j0) \<noteq> 0"
    and "degrees ! j0 < int (linkCap cfg flags j0)"
  shows "cands \<noteq> [] \<or> j0 \<in> set js \<Longrightarrow>
         fst (collectCandidates cfg ns flags maxDist degrees seen i js cands g) \<noteq> []"
proof (induction js arbitrary: cands g)
  case Nil
  then show ?case by simp
next
  case (Cons j js)
  obtain r g' where rg: "Math_random g = (r, g')" by (cases "Math_random g")
  show ?case
  proof (cases "cands \<noteq> []")
    case True
    then show ?thesis
      using Cons.IH[of cands g] Cons.IH[of "cands @ [\<lparr>c_j = j, c_dist = nodeDist (ns ! i) (ns ! j),
          c_weight = (1 / (nodeDist (ns ! i) (ns ! j) powr (12 / 10))) * (1 + r * (8 / 100))\<rparr>]" g'] rg
      by (simp add: Let_def)
  next
    case False
    then have m: "j0 = j \<or> j0 \<in> set js" using Cons.prems by simp
    show ?thesis
    proof (cases "j0 = j")
      case True
      then show ?thesis
        using assms Cons.IH[of "cands @ [\<lparr>c_j = j, c_dist = nodeDist (ns ! i) (ns ! j),
          c_weight = (1 / (nodeDist (ns ! i) (ns ! j) powr (12 / 10))) * (1 + r * (8 / 100))\<rparr>]" g'] rg
        by (simp add: Let_def)
    next
      case False
      then have "j0 \<in> set js" using m by simp
      then show ?thesis
        using Cons.IH[of cands g] Cons.IH[of "cands @ [\<lparr>c_j = j, c_dist = nodeDist (ns ! i) (ns ! j),
          c_weight = (1 / (nodeDist (ns ! i) (ns ! j) powr (12 / 10))) * (1 + r * (8 / 100))\<rparr>]" g'] rg
        by (simp add: Let_def)
    qed
  qed
qed

lemma linksInv_empty:
  assumes "linksInv cfg ns flags maxDist b" and "lb_links b = []"
  shows "lb_seen b = {}" and "\<And>v. v < length ns \<Longrightarrow> lb_degrees b ! v = 0"
  using assms by (simp_all add: linksInv_def linkKeys_def linkEnds_def incident_def)

lemma buildLoop_nonempty:
  assumes caps: "MAX_LINKS_DYNAMIC cfg \<le> 32767" "MAX_LINKS_STATIC cfg \<le> 32767"
    and pos: "0 < MAX_LINKS_DYNAMIC cfg" "0 < MAX_LINKS_STATIC cfg"
    and j0: "j0 < length ns" "j0 \<noteq> i0"
    and d: "nodeDist (ns ! i0) (ns ! j0) \<le> maxDist" "nodeDist (ns ! i0) (ns ! j0) \<noteq> 0"
  shows "linksInv cfg ns flags maxDist b \<Longrightarrow> list_all (\<lambda>i. i < length ns) indices \<Longrightarrow> i0 \<in> set indices \<Longrightarrow>
         lb_links (buildLoop cfg ns flags maxDist indices b) \<noteq> []"
proof (induction indices arbitrary: b)
  case Nil
  then show ?case by simp
next
  case (Cons i indices)
  have i: "i < length ns" and rest: "list_all (\<lambda>i. i < length ns) indices"
    using Cons.prems(2) by simp_all
  have cap: "0 < int (linkCap cfg flags v)" for v
    using pos by (simp add: linkCap_def)
  show ?case
  proof (cases "lb_links b = []")
    case False
    then show ?thesis by (rule buildLoop_mono)
  next
    case True
    note em = linksInv_empty[OF Cons.prems(1) True]
    obtain cands g where cc:
      "collectCandidates cfg ns flags maxDist (lb_degrees b) (lb_seen b) i [0 ..< length ns] [] (lb_random b) = (cands, g)"
      by (cases "collectCandidates cfg ns flags maxDist (lb_degrees b) (lb_seen b) i [0 ..< length ns] [] (lb_random b)")
    have ok: "list_all (candOK ns maxDist i) cands"
      using collectCandidates_ok[OF i, of "[0 ..< length ns]" maxDist "[]" cfg flags "lb_degrees b" "lb_seen b" "lb_random b"] cc
      by (simp add: list_all_iff)
    have b': "linksInv cfg ns flags maxDist (b\<lparr>lb_random := g\<rparr>)"
      using Cons.prems(1) by (simp add: linksInv_def)
    have go: "\<not> int (linkCap cfg flags i) \<le> lb_degrees b ! i"
      using em(2)[OF i] cap[of i] by simp
    show ?thesis
    proof (cases "cands = []")
      case True
      have "i \<noteq> i0"
      proof
        assume e: "i = i0"
        have "fst (collectCandidates cfg ns flags maxDist (lb_degrees b) (lb_seen b) i0 [0 ..< length ns] [] (lb_random b)) \<noteq> []"
          by (rule collectCandidates_nonempty[OF j0(2) _ d])
             (use em j0(1) cap[of j0] in simp_all)
        then show False using cc True e by simp
      qed
      then have "i0 \<in> set indices" using Cons.prems(3) by simp
      from Cons.IH[OF b' rest this] show ?thesis using cc True go by (simp add: Let_def)
    next
      case False
      define sorted where "sorted = sort_key (\<lambda>c. - c_weight c) cands"
      have ne: "sorted \<noteq> []"
        using False unfolding sorted_def by (metis length_sort length_0_conv)
      have "list_all (candOK ns maxDist i) sorted"
        using ok by (simp add: sorted_def sort_key_list_all)
      then have "candOK ns maxDist i (hd sorted)"
        using ne by (cases sorted) simp_all
      then have hj: "c_j (hd sorted) < length ns" by (simp add: candOK_def)
      have "lb_links (connectCandidates cfg flags i sorted (b\<lparr>lb_random := g\<rparr>)) \<noteq> []"
        by (rule connectCandidates_first[OF ne])
           (use em(1) em(2)[OF i] em(2)[OF hj] cap[of i] cap[of "c_j (hd sorted)"] in simp_all)
      then have "lb_links (buildLoop cfg ns flags maxDist indices
                   (connectCandidates cfg flags i sorted (b\<lparr>lb_random := g\<rparr>))) \<noteq> []"
        by (rule buildLoop_mono)
      then show ?thesis using cc False go by (simp add: Let_def sorted_def)
    qed
  qed
qed

lemma shuffleLoop_set:
  assumes n: "length arr < 2147483648"
  shows "k < length arr \<Longrightarrow> unit_rng g \<Longrightarrow> set (fst (shuffleLoop k arr g)) = set arr"
  using n
proof (induction k arbitrary: arr g)
  case 0
  then show ?case by simp
next
  case (Suc k)
  obtain r g' where rg: "Math_random g = (r, g')" by (cases "Math_random g")
  have r: "0 \<le> r" "r < 1" and g': "unit_rng g'" using unit_rng_randomE[OF Suc.prems(2) rg] by simp_all
  define j where "j = nat (js_int32 (r * real (Suc k + 1)))"
  have "Suc k + 1 < 2147483648" using Suc.prems(1,3) by linarith
  from random_index(2)[OF r _ this] have "j < Suc k + 1" by (simp add: j_def)
  then have j: "j < length arr" using Suc.prems(1) by linarith
  define arr' where "arr' = arr[Suc k := arr ! j, j := arr ! Suc k]"
  have s: "set arr' = set arr"
    unfolding arr'_def by (rule set_swap[OF Suc.prems(1) j])
  have l: "k < length arr'" "length arr' < 2147483648"
    using Suc.prems(1,3) by (simp_all add: arr'_def)
  show ?case
    using Suc.IH[OF l(1) g' l(2)] rg s by (simp add: Let_def j_def arr'_def)
qed

lemma shuffleArray_set:
  assumes "n < 2147483648" and "unit_rng g"
  shows "set (fst (shuffleArray [0 ..< n] g)) = {0 ..< n}"
proof (cases "n = 0")
  case True
  then show ?thesis by (simp add: shuffleArray_def)
next
  case False
  have "set (fst (shuffleLoop (length [0 ..< n] - 1) [0 ..< n] g)) = set [0 ..< n]"
    by (rule shuffleLoop_set) (use False assms in simp_all)
  then show ?thesis by (simp add: shuffleArray_def)
qed

lemma buildLinks_nonempty:
  assumes caps: "MAX_LINKS_DYNAMIC cfg \<le> 32767" "MAX_LINKS_STATIC cfg \<le> 32767"
    and pos: "0 < MAX_LINKS_DYNAMIC cfg" "0 < MAX_LINKS_STATIC cfg"
    and rng: "unit_rng (random e)" and n: "length (nodes e) < 2147483648"
    and ij: "i0 < length (nodes e)" "j0 < length (nodes e)" "j0 \<noteq> i0"
    and d: "nodeDist (nodes e ! i0) (nodes e ! j0) \<le> linkDistanceMax e"
           "nodeDist (nodes e ! i0) (nodes e ! j0) \<noteq> 0"
  shows "links (buildLinks cfg e) \<noteq> []"
proof -
  obtain indices g where s: "shuffleArray [0 ..< length (nodes e)] (random e) = (indices, g)"
    by (cases "shuffleArray [0 ..< length (nodes e)] (random e)")
  have r: "list_all (\<lambda>i. i < length (nodes e)) indices"
    using shuffleArray_range(1)[OF n rng] s by simp
  have m: "i0 \<in> set indices"
    using shuffleArray_set[OF n rng] s ij(1) by simp
  have "lb_links (buildLoop cfg (nodes e) (movingFlags e) (linkDistanceMax e) indices
          \<lparr>lb_degrees = replicate (length (nodes e)) 0, lb_links = [], lb_seen = {}, lb_random = g\<rparr>) \<noteq> []"
    by (rule buildLoop_nonempty[OF caps pos ij(2,3) d linksInv_init r m])
  then show ?thesis by (simp add: buildLinks_def s Let_def)
qed

text \<open>
  The rejection test accepts a point that is at least \<open>r\<close> from every entry of the grid.
\<close>

lemma farEnough_complete:
  assumes "\<And>k s. grid k = Some s \<Longrightarrow> r * r \<le> sqDist s x y"
  shows "farEnough w h r grid x y"
  unfolding farEnough_def Let_def list_all_iff
proof (intro ballI)
  fix j i
  show "case grid (j * gridW w r + i) of None \<Rightarrow> True
        | Some s \<Rightarrow> \<not> (s_x s - x) * (s_x s - x) + (s_y s - y) * (s_y s - y) < r * r"
  proof (cases "grid (j * gridW w r + i)")
    case None
    then show ?thesis by simp
  next
    case (Some s)
    from assms[OF Some] show ?thesis using Some by (simp add: sqDist_def)
  qed
qed

text \<open>
  A constant stream of draws \<open>v\<close>. The first candidate of the sampler lies at the distance
  \<open>r * (1 + v)\<close> from the centre, in the direction \<open>2 * pi * v\<close>; where it is inside the
  region it is accepted, so the sampler returns the centre, this candidate and possibly more
  points, all inside the region and pairwise at least \<open>r\<close> apart.
\<close>

lemma unit_rng_const: "0 \<le> v \<Longrightarrow> v < 1 \<Longrightarrow> unit_rng (\<lambda>k. v)"
  by (simp add: unit_rng_def)

lemma poisson_const:
  assumes w: "0 < w" and h: "0 < h" and r: "0 < r" and v: "0 \<le> v" "v < 1"
    and inb: "inBounds w h (w / 2 + cos (v * pi * 2) * (r * (1 + v))) (h / 2 + sin (v * pi * 2) * (r * (1 + v)))"
    and N: "gridW w r * gridH h r < 2147483648"
  shows "\<exists>pts. poisson w h r (Suc k) (\<lambda>k. v) = Some (Inr (pts, \<lambda>k. v)) \<and>
               take 2 pts = [\<lparr>s_x = w / 2, s_y = h / 2\<rparr>,
                             \<lparr>s_x = w / 2 + cos (v * pi * 2) * (r * (1 + v)),
                              s_y = h / 2 + sin (v * pi * 2) * (r * (1 + v))\<rparr>] \<and>
               list_all (\<lambda>s. inBounds w h (s_x s) (s_y s)) pts \<and> spaced r pts"
proof -
  define c where "c = \<lparr>s_x = w / 2, s_y = h / 2\<rparr>"
  define x where "x = w / 2 + cos (v * pi * 2) * (r * (1 + v))"
  define y where "y = h / 2 + sin (v * pi * 2) * (r * (1 + v))"
  define st0 where "st0 = addSample w r (w / 2) (h / 2)
                \<lparr>ps_grid = (\<lambda>c. None), ps_active = [], ps_samples = [], ps_random = (\<lambda>k. v)\<rparr>"
  define st1 where "st1 = addSample w r x y (st0\<lparr>ps_random := \<lambda>k. v\<rparr>)"
  have inv0: "sampInv w h r st0"
    unfolding st0_def by (rule sampInv_seed[OF w h])
  have f0: "ps_samples st0 = [c]" "ps_active st0 = [c]" "ps_random st0 = (\<lambda>k. v)"
    "ps_grid st0 = (\<lambda>k. None)(gridIndex w r (w / 2) (h / 2) := Some c)"
    by (simp_all add: st0_def addSample_def Let_def c_def)
  have inb': "inBounds w h x y" using inb by (simp add: x_def y_def)
  have rr: "r * r \<le> (r * (1 + v)) * (r * (1 + v))"
    using r v by (intro mult_mono) simp_all
  have far: "farEnough w h r (ps_grid st0) x y"
  proof (rule farEnough_complete)
    fix k s assume "ps_grid st0 k = Some s"
    then have "s = c" by (simp add: f0 split: if_splits)
    then have "sqDist s x y = (cos (v * pi * 2) * (r * (1 + v))) * (cos (v * pi * 2) * (r * (1 + v)))
                 + (sin (v * pi * 2) * (r * (1 + v))) * (sin (v * pi * 2) * (r * (1 + v)))"
      by (simp add: sqDist_def c_def x_def y_def)
    then show "r * r \<le> sqDist s x y" using rr by (simp only: candidate_dist)
  qed
  have tp: "tryPlace w h r (ps_grid st0) c (Suc k) (\<lambda>k. v) = (Some (x, y), \<lambda>k. v)"
    using inb' far by (simp add: random_const Let_def c_def x_def y_def)
  have step: "poissonLoop w h r (Suc k) st0 = poissonLoop w h r (Suc k) st1"
    unfolding st1_def
  proof (rule poissonLoop_place)
    show "ps_active st0 \<noteq> []" by (simp add: f0)
    show "Math_random (ps_random st0) = (v, \<lambda>k. v)" by (simp add: f0 random_const)
    show "js_nth (ps_active st0) (js_int32 (v * real (length (ps_active st0)))) = Some c"
      using v by (simp add: f0 js_nth_def js_int32_small)
    show "tryPlace w h r (ps_grid st0) c (Suc k) (\<lambda>k. v) = (Some (x, y), \<lambda>k. v)"
      by (rule tp)
  qed
  have inv1: "sampInv w h r st1"
    unfolding st1_def by (rule addSample_inv[OF r _ inb']) (use inv0 far in \<open>simp_all add: sampInv_frame\<close>)
  have f1: "ps_samples st1 = [c, \<lparr>s_x = x, s_y = y\<rparr>]" "ps_random st1 = (\<lambda>k. v)"
    "length (ps_active st1) = 2"
    by (simp_all add: st1_def addSample_fields f0)
  have u: "unit_rng (ps_random st1)" using v by (simp add: f1 unit_rng_const)
  have la: "length (ps_active st1) \<le> length (ps_samples st1)" by (simp add: f1)
  from poissonLoop_ends[OF w h r N inv1 u la, of "Suc k"]
  obtain st' where a: "poissonLoop w h r (Suc k) st1 = Some (Inr (ps_samples st', ps_random st'))"
    "sampInv w h r st'" "take (length (ps_samples st1)) (ps_samples st') = ps_samples st1"
    "\<forall>u. ps_random st1 = (\<lambda>k. u) \<longrightarrow> ps_random st' = (\<lambda>k. u)"
    by blast
  have z: "ps_random st' = (\<lambda>k. v)" using a(4) f1(2) by blast
  have t2: "take 2 (ps_samples st') = [c, \<lparr>s_x = x, s_y = y\<rparr>]"
    using a(3) by (simp add: f1(1) numeral_2_eq_2)
  have "poisson w h r (Suc k) (\<lambda>k. v) = poissonLoop w h r (Suc k) st0"
    using r N grid_nonneg[OF w h r] by (simp add: poisson_def st0_def)
  then have "poisson w h r (Suc k) (\<lambda>k. v) = Some (Inr (ps_samples st', \<lambda>k. v))"
    using step a(1) z by simp
  moreover have "list_all (\<lambda>s. inBounds w h (s_x s) (s_y s)) (ps_samples st')" "spaced r (ps_samples st')"
    using a(2) by (simp_all add: sampInv_def list_all_iff)
  ultimately show ?thesis using t2 unfolding c_def x_def y_def by blast
qed

lemma sixteenth_turn_bounds:
  "0 \<le> cos (1 / 16 * pi * 2)" "cos (1 / 16 * pi * 2) \<le> 1"
  "0 \<le> sin (1 / 16 * pi * 2)" "sin (1 / 16 * pi * 2) \<le> 1"
proof -
  have a: "0 \<le> 1 / 16 * pi * 2" "1 / 16 * pi * 2 \<le> pi / 2" "1 / 16 * pi * 2 \<le> pi" by simp_all
  show "0 \<le> cos (1 / 16 * pi * 2)" by (rule cos_ge_zero) (use a in simp_all)
  show "0 \<le> sin (1 / 16 * pi * 2)" by (rule sin_ge_zero[OF a(1,3)])
  show "cos (1 / 16 * pi * 2) \<le> 1" "sin (1 / 16 * pi * 2) \<le> 1" by simp_all
qed

lemma makeBgNodes_stream:
  "snd (makeBgNodes w h sp pts i count (\<lambda>k. v)) = (\<lambda>k. v)"
proof (induction count arbitrary: i)
  case 0
  then show ?case by simp
next
  case (Suc count)
  have bp: "snd (basePoint pts i w h (\<lambda>k. v)) = (\<lambda>k. v)"
    by (simp add: basePoint_def random_const Let_def)
  obtain p g where b: "basePoint pts i w h (\<lambda>k. v) = (p, g)" by (cases "basePoint pts i w h (\<lambda>k. v)")
  then have g: "g = (\<lambda>k. v)" using bp by simp
  obtain bs g4 where m: "makeBgNodes w h sp pts (Suc i) count (\<lambda>k. v) = (bs, g4)"
    by (cases "makeBgNodes w h sp pts (Suc i) count (\<lambda>k. v)")
  then have "g4 = (\<lambda>k. v)" using Suc.IH[of "Suc i"] by simp
  then show ?case using b g m by (simp add: random_const Let_def)
qed

lemma grid_small:
  assumes r: "18 \<le> r" and w: "0 < w" "w \<le> 3000" and h: "0 < h" "h \<le> 3000"
  shows "gridW w r * gridH h r < 2147483648"
proof -
  have s: "sqrt 2 \<le> 2" using sqrt2_bounds by simp
  have s0: "0 < sqrt 2" by simp
  have "r / 2 \<le> r / sqrt 2"
    using r s s0 by (intro divide_left_mono) simp_all
  moreover have "9 \<le> r / 2" using r by simp
  ultimately have c: "9 \<le> cellSize r" unfolding cellSize_def by (rule order_trans[rotated])
  have b: "x / cellSize r \<le> 334" if "0 < x" "x \<le> 3000" for x
  proof -
    have "x / cellSize r \<le> x / 9"
      using c that by (intro divide_left_mono) simp_all
    also have "\<dots> \<le> 334" using that by simp
    finally show ?thesis .
  qed
  have "gridW w r \<le> 334" "gridH h r \<le> 334"
    unfolding gridW_def gridH_def using b[OF w] b[OF h] by (simp_all add: ceiling_le_iff)
  moreover have "0 \<le> gridW w r" "0 \<le> gridH h r"
  proof -
    have cp: "0 < cellSize r" using c by linarith
    have q: "0 \<le> w / cellSize r" "0 \<le> h / cellSize r" using w h cp by simp_all
    show "0 \<le> gridW w r" unfolding gridW_def using ceiling_mono[OF q(1)] by simp
    show "0 \<le> gridH h r" unfolding gridH_def using ceiling_mono[OF q(2)] by simp
  qed
  ultimately have "gridW w r * gridH h r \<le> 334 * 334"
    by (intro mult_mono) simp_all
  then show ?thesis by simp
qed

lemma sqrt_between:
  fixes a b x :: real
  assumes "0 \<le> a" and "a * a \<le> x" and "0 \<le> b" and "x \<le> b * b"
  shows "a \<le> sqrt x" and "sqrt x \<le> b"
proof -
  have "sqrt (a * a) \<le> sqrt x" using assms(2) by (rule real_sqrt_le_mono)
  then show "a \<le> sqrt x" using assms(1) by simp
  have "sqrt x \<le> sqrt (b * b)" using assms(4) by (rule real_sqrt_le_mono)
  then show "sqrt x \<le> b" using assms(3) by simp
qed

text \<open>
  With every draw 1/16 each foreground node lies in the near band, moves, and has the same
  jitter: two nodes on the same sample point coincide, two nodes on different sample points
  are at least \<open>r / 2\<close> less twice the jitter apart.
\<close>

lemma bandForZ_sixteenth:
  "bandForZ CONFIG (1 / 16) = Some \<lparr>zMin = 0, zMax = 4 / 10, move = True, headingDeg = 20\<rparr>"
  by (simp add: bandForZ_def CONFIG_def)

lemma nodeAt_fields:
  "n_x (nodeAt w h sp pts j)
     = clamp (s_x (pts ! (j mod length pts)) + cos (1 / 16 * pi * 2) * (sp * (2 / 10) * (1 / 16))) 0 w"
  "n_y (nodeAt w h sp pts j)
     = clamp (s_y (pts ! (j mod length pts)) + sin (1 / 16 * pi * 2) * (sp * (2 / 10) * (1 / 16))) 0 h"
  "n_ox (nodeAt w h sp pts j) = n_x (nodeAt w h sp pts j)"
  "n_oy (nodeAt w h sp pts j) = n_y (nodeAt w h sp pts j)"
  "n_z (nodeAt w h sp pts j) = 1 / 16" "n_seedPhase (nodeAt w h sp pts j) = 1 / 16 * (15 / 100) * pi * 2"
  by (simp_all add: nodeAt_def Let_def)

lemma makeNodes_const:
  assumes pts: "pts \<noteq> []"
  shows "makeNodes CONFIG w h sp pts i count (\<lambda>k. 1 / 16)
         = Inr (map (nodeAt w h sp pts) [i ..< i + count], replicate count 1, \<lambda>k. 1 / 16)"
proof (induction count arbitrary: i)
  case 0
  then show ?case by simp
next
  case (Suc count)
  have bp: "basePoint pts i w h (\<lambda>k. 1 / 16) = (pts ! (i mod length pts), \<lambda>k. 1 / 16)"
    using pts by (simp add: basePoint_def)
  have rn: "RANDOMIZE_NODE_PHASES CONFIG" "js_or (STARTING_PHASE_RANDOMIZER CONFIG) 0 = 15 / 100"
    by (simp_all add: CONFIG_def js_or_def)
  have u: "[i ..< i + Suc count] = i # [Suc i ..< Suc i + count]"
    by (simp add: upt_conv_Cons)
  show ?case
    unfolding u by (simp add: bp random_const bandForZ_sixteenth rn Suc.IH nodeAt_def Let_def)
qed

lemma clamp_near:
  assumes "0 \<le> a" and "a \<le> w"
  shows "\<bar>clamp (a + c) 0 w - a\<bar> \<le> \<bar>c\<bar>"
  using assms by (simp add: clamp_def)

lemma hypot_ge_abs: "\<bar>a\<bar> \<le> Math_hypot a b" "\<bar>b\<bar> \<le> Math_hypot a b"
proof -
  have "sqrt (a * a) \<le> sqrt (a * a + b * b)" by (rule real_sqrt_le_mono) simp
  then show "\<bar>a\<bar> \<le> Math_hypot a b" by (simp add: Math_hypot_def)
  have "sqrt (b * b) \<le> sqrt (a * a + b * b)" by (rule real_sqrt_le_mono) simp
  then show "\<bar>b\<bar> \<le> Math_hypot a b" by (simp add: Math_hypot_def)
qed

lemma hypot_le_sum: "Math_hypot a b \<le> \<bar>a\<bar> + \<bar>b\<bar>"
  using sqrt_sum_squares_le_sum_abs[of a b] by (simp add: Math_hypot_def power2_eq_square)

lemma far_coordinate:
  fixes dx dy r :: real
  assumes "0 < r" and "r * r \<le> dx * dx + dy * dy"
  shows "r / 2 \<le> \<bar>dx\<bar> \<or> r / 2 \<le> \<bar>dy\<bar>"
proof (rule ccontr)
  assume "\<not> (r / 2 \<le> \<bar>dx\<bar> \<or> r / 2 \<le> \<bar>dy\<bar>)"
  then have a: "\<bar>dx\<bar> < r / 2" "\<bar>dy\<bar> < r / 2" by simp_all
  have "dx * dx < (r / 2) * (r / 2)" "dy * dy < (r / 2) * (r / 2)"
    by (rule sq_less[OF a(1)], rule sq_less[OF a(2)])
  then have "dx * dx + dy * dy < r * r / 2" by simp
  moreover have "r * r / 2 < r * r" using assms(1) by simp
  ultimately show False using assms(2) by linarith
qed

lemma node_offsets:
  assumes "pts \<noteq> []" and "list_all (\<lambda>s. inBounds w h (s_x s) (s_y s)) pts" and "0 \<le> sp"
  shows "\<bar>n_x (nodeAt w h sp pts j) - s_x (pts ! (j mod length pts))\<bar> \<le> sp * (2 / 10) * (1 / 16)"
    and "\<bar>n_y (nodeAt w h sp pts j) - s_y (pts ! (j mod length pts))\<bar> \<le> sp * (2 / 10) * (1 / 16)"
proof -
  define p where "p = pts ! (j mod length pts)"
  define J where "J = sp * (2 / 10) * (1 / 16)"
  have J: "0 \<le> J" using assms(3) by (simp add: J_def)
  have "p \<in> set pts" using assms(1) by (simp add: p_def)
  then have "0 \<le> s_x p \<and> s_x p < w \<and> 0 \<le> s_y p \<and> s_y p < h"
    using assms(2) by (simp add: list_all_iff inBounds_def)
  then have b: "0 \<le> s_x p" "s_x p \<le> w" "0 \<le> s_y p" "s_y p \<le> h" by simp_all
  have c: "\<bar>cos (1 / 16 * pi * 2) * J\<bar> \<le> J" "\<bar>sin (1 / 16 * pi * 2) * J\<bar> \<le> J"
    using J sixteenth_turn_bounds by (simp_all add: abs_mult mult_left_le_one_le)
  show "\<bar>n_x (nodeAt w h sp pts j) - s_x (pts ! (j mod length pts))\<bar> \<le> sp * (2 / 10) * (1 / 16)"
    using clamp_near[OF b(1,2), of "cos (1 / 16 * pi * 2) * J"] c(1)
    by (simp add: nodeAt_fields p_def J_def)
  show "\<bar>n_y (nodeAt w h sp pts j) - s_y (pts ! (j mod length pts))\<bar> \<le> sp * (2 / 10) * (1 / 16)"
    using clamp_near[OF b(3,4), of "sin (1 / 16 * pi * 2) * J"] c(2)
    by (simp add: nodeAt_fields p_def J_def)
qed

lemma node_same:
  "i mod length pts = j mod length pts \<Longrightarrow> nodeDist (nodeAt w h sp pts i) (nodeAt w h sp pts j) = 0"
  by (simp add: nodeDist_def nodeAt_fields Math_hypot_def)

lemma spaced_sq:
  assumes "spaced r pts" and "a < length pts" and "b < length pts" and "a \<noteq> b"
  shows "r * r \<le> (s_x (pts ! a) - s_x (pts ! b)) * (s_x (pts ! a) - s_x (pts ! b))
                + (s_y (pts ! a) - s_y (pts ! b)) * (s_y (pts ! a) - s_y (pts ! b))"
proof -
  consider "a < b" | "b < a" using assms(4) by linarith
  then show ?thesis
  proof cases
    case 1
    then show ?thesis using assms(1,3) by (simp add: spaced_def sqDist_def)
  next
    case 2
    then have "r * r \<le> sqDist (pts ! b) (s_x (pts ! a)) (s_y (pts ! a))"
      using assms(1,2) by (simp add: spaced_def)
    moreover have "sqDist (pts ! b) (s_x (pts ! a)) (s_y (pts ! a))
        = (s_x (pts ! a) - s_x (pts ! b)) * (s_x (pts ! a) - s_x (pts ! b))
                + (s_y (pts ! a) - s_y (pts ! b)) * (s_y (pts ! a) - s_y (pts ! b))"
      by (simp add: sqDist_def algebra_simps)
    ultimately show ?thesis by simp
  qed
qed

lemma node_apart:
  assumes ne: "pts \<noteq> []" and inb: "list_all (\<lambda>s. inBounds w h (s_x s) (s_y s)) pts" and sp: "0 \<le> sp"
    and r: "0 < r" and s: "spaced r pts" and ij: "i mod length pts \<noteq> j mod length pts"
  shows "r / 2 - 2 * (sp * (2 / 10) * (1 / 16)) \<le> nodeDist (nodeAt w h sp pts i) (nodeAt w h sp pts j)"
proof -
  define J where "J = sp * (2 / 10) * (1 / 16)"
  have m: "i mod length pts < length pts" "j mod length pts < length pts" using ne by simp_all
  note o = node_offsets[OF ne inb sp, of i, folded J_def] node_offsets[OF ne inb sp, of j, folded J_def]
  from far_coordinate[OF r spaced_sq[OF s m ij]]
  show ?thesis
  proof
    assume "r / 2 \<le> \<bar>s_x (pts ! (i mod length pts)) - s_x (pts ! (j mod length pts))\<bar>"
    then have "r / 2 - 2 * J \<le> \<bar>n_x (nodeAt w h sp pts i) - n_x (nodeAt w h sp pts j)\<bar>"
      using o(1,3) by linarith
    also have "\<dots> \<le> nodeDist (nodeAt w h sp pts i) (nodeAt w h sp pts j)"
      unfolding nodeDist_def by (rule hypot_ge_abs(1))
    finally show ?thesis by (simp add: J_def)
  next
    assume "r / 2 \<le> \<bar>s_y (pts ! (i mod length pts)) - s_y (pts ! (j mod length pts))\<bar>"
    then have "r / 2 - 2 * J \<le> \<bar>n_y (nodeAt w h sp pts i) - n_y (nodeAt w h sp pts j)\<bar>"
      using o(2,4) by linarith
    also have "\<dots> \<le> nodeDist (nodeAt w h sp pts i) (nodeAt w h sp pts j)"
      unfolding nodeDist_def by (rule hypot_ge_abs(2))
    finally show ?thesis by (simp add: J_def)
  qed
qed

lemma node_within:
  assumes ne: "pts \<noteq> []" and inb: "list_all (\<lambda>s. inBounds w h (s_x s) (s_y s)) pts" and sp: "0 \<le> sp"
  shows "nodeDist (nodeAt w h sp pts i) (nodeAt w h sp pts j)
         \<le> \<bar>s_x (pts ! (i mod length pts)) - s_x (pts ! (j mod length pts))\<bar>
           + \<bar>s_y (pts ! (i mod length pts)) - s_y (pts ! (j mod length pts))\<bar>
           + 4 * (sp * (2 / 10) * (1 / 16))"
proof -
  define J where "J = sp * (2 / 10) * (1 / 16)"
  note o = node_offsets[OF ne inb sp, of i, folded J_def] node_offsets[OF ne inb sp, of j, folded J_def]
  have "nodeDist (nodeAt w h sp pts i) (nodeAt w h sp pts j)
        \<le> \<bar>n_x (nodeAt w h sp pts i) - n_x (nodeAt w h sp pts j)\<bar>
          + \<bar>n_y (nodeAt w h sp pts i) - n_y (nodeAt w h sp pts j)\<bar>"
    unfolding nodeDist_def by (rule hypot_le_sum)
  also have "\<dots> \<le> \<bar>s_x (pts ! (i mod length pts)) - s_x (pts ! (j mod length pts))\<bar>
           + \<bar>s_y (pts ! (i mod length pts)) - s_y (pts ! (j mod length pts))\<bar> + 4 * J"
    using o by linarith
  finally show ?thesis by (simp add: J_def)
qed

lemma take_two:
  assumes "take 2 xs = [a, b]"
  shows "2 \<le> length xs" and "xs ! 0 = a" and "xs ! 1 = b"
proof -
  obtain x ys where xs: "xs = x # ys" using assms by (cases xs) simp_all
  obtain y zs where ys: "ys = y # zs" using assms xs by (cases ys) (simp_all add: numeral_2_eq_2)
  show "2 \<le> length xs" and "xs ! 0 = a" and "xs ! 1 = b"
    using assms by (simp_all add: xs ys numeral_2_eq_2)
qed

text \<open>
  \<^verbatim>\<open>_setupNodesEven\<close> on the viewport of 2880 by 1800 with every draw 1/16: 100 moving nodes
  of the near band on the sample points, 60 background nodes; two nodes are at the same place
  or at least 55 apart, and nodes 0 and 1 are apart and within reach of each other.
\<close>

lemma wide_setup:
  assumes e: "width e = 2880" "height e = 1800" "nodeMax e = 100" "bgNodeMax e = 60"
    "random e = (\<lambda>k. 1 / 16)"
  shows "\<exists>ns bs. setupNodesEven CONFIG e
            = Some (Inr (e\<lparr>nodes := ns, movingFlags := replicate 100 1,
                           bgNodes := bs, random := (\<lambda>k. 1 / 16)\<rparr>)) \<and>
           length ns = 100 \<and> length bs = 60 \<and>
           (\<forall>i < 100. n_z (ns ! i) = 1 / 16 \<and> n_seedPhase (ns ! i) = 1 / 16 * (15 / 100) * pi * 2 \<and>
                       n_ox (ns ! i) = n_x (ns ! i) \<and> n_oy (ns ! i) = n_y (ns ! i)) \<and>
           (\<forall>i < 100. \<forall>j < 100. nodeDist (ns ! i) (ns ! j) \<noteq> 0 \<longrightarrow> 55 \<le> nodeDist (ns ! i) (ns ! j)) \<and>
           nodeDist (ns ! 0) (ns ! 1) \<noteq> 0 \<and> nodeDist (ns ! 0) (ns ! 1) \<le> 1000"
proof -
  have tc: "getTargetCounts CONFIG e = (100, 60)"
    by (simp add: getTargetCounts_def e CONFIG_def Math_round_def Let_def)
  define area where "area = width e * height e"
  define spacing where "spacing = sqrt (area / of_int 100)"
  define r where "r = max 18 (spacing * (55 / 100))"
  define bgSpacing where "bgSpacing = sqrt (area / of_int 60)"
  define rbg where "rbg = max 24 (bgSpacing * (6 / 10))"
  have a: "area / of_int 100 = 51840" "area / of_int 60 = 86400" by (simp_all add: area_def e)
  have sp: "227 \<le> spacing" "spacing \<le> 240"
    unfolding spacing_def a by (rule sqrt_between[of 227 51840 240]; simp)+
  have bsp: "100 \<le> bgSpacing" "bgSpacing \<le> 300"
    unfolding bgSpacing_def a by (rule sqrt_between[of 100 86400 300]; simp)+
  have r: "124 \<le> r" "r \<le> 132" using sp by (simp_all add: r_def)
  have rbg: "24 \<le> rbg" "rbg \<le> 180" using bsp by (simp_all add: rbg_def)
  have N1: "gridW 2880 r * gridH 1800 r < 2147483648"
    by (rule grid_small) (use r in simp_all)
  have N2: "gridW 2880 rbg * gridH 1800 rbg < 2147483648"
    by (rule grid_small) (use rbg in simp_all)
  note t = sixteenth_turn_bounds
  define cx where "cx = cos (1 / 16 * pi * 2) * (r * (1 + 1 / 16))"
  define cy where "cy = sin (1 / 16 * pi * 2) * (r * (1 + 1 / 16))"
  have rr: "0 \<le> r * (1 + 1 / 16)" "r * (1 + 1 / 16) \<le> 141" using r by simp_all
  have c: "0 \<le> cx" "cx \<le> 141" "0 \<le> cy" "cy \<le> 141"
  proof -
    show "0 \<le> cx" "0 \<le> cy" unfolding cx_def cy_def using t rr(1) by simp_all
    have "cx \<le> 1 * (r * (1 + 1 / 16))" unfolding cx_def by (rule mult_right_mono[OF t(2) rr(1)])
    then show "cx \<le> 141" using rr(2) by linarith
    have "cy \<le> 1 * (r * (1 + 1 / 16))" unfolding cy_def by (rule mult_right_mono[OF t(4) rr(1)])
    then show "cy \<le> 141" using rr(2) by linarith
  qed
  have inb1: "inBounds 2880 1800 (2880 / 2 + cx) (1800 / 2 + cy)"
    using c by (simp add: inBounds_def)
  from poisson_const[of 2880 1800 r "1 / 16" 29, OF _ _ _ _ _ inb1[unfolded cx_def cy_def] N1] r
  obtain pts where p1: "poisson 2880 1800 r 30 (\<lambda>k. 1 / 16) = Some (Inr (pts, \<lambda>k. 1 / 16))"
    and t2: "take 2 pts = [\<lparr>s_x = 1440, s_y = 900\<rparr>, \<lparr>s_x = 1440 + cx, s_y = 900 + cy\<rparr>]"
    and inb: "list_all (\<lambda>s. inBounds 2880 1800 (s_x s) (s_y s)) pts" and spc: "spaced r pts"
    by (auto simp add: cx_def cy_def)
  note p = take_two[OF t2]
  have ne: "pts \<noteq> []" using t2 by auto
  define ns where "ns = map (nodeAt 2880 1800 spacing pts) [0 ..< 100]"
  have mk: "makeNodes CONFIG 2880 1800 spacing pts 0 100 (\<lambda>k. 1 / 16)
            = Inr (ns, replicate 100 1, \<lambda>k. 1 / 16)"
    using makeNodes_const[OF ne, of 2880 1800 spacing 0 100] by (simp add: ns_def)
  define bcx where "bcx = cos (1 / 16 * pi * 2) * (rbg * (1 + 1 / 16))"
  define bcy where "bcy = sin (1 / 16 * pi * 2) * (rbg * (1 + 1 / 16))"
  have brr: "0 \<le> rbg * (1 + 1 / 16)" "rbg * (1 + 1 / 16) \<le> 192" using rbg by simp_all
  have bc: "0 \<le> bcx" "bcx \<le> 192" "0 \<le> bcy" "bcy \<le> 192"
  proof -
    show "0 \<le> bcx" "0 \<le> bcy" unfolding bcx_def bcy_def using t brr(1) by simp_all
    have "bcx \<le> 1 * (rbg * (1 + 1 / 16))" unfolding bcx_def by (rule mult_right_mono[OF t(2) brr(1)])
    then show "bcx \<le> 192" using brr(2) by linarith
    have "bcy \<le> 1 * (rbg * (1 + 1 / 16))" unfolding bcy_def by (rule mult_right_mono[OF t(4) brr(1)])
    then show "bcy \<le> 192" using brr(2) by linarith
  qed
  have inb2: "inBounds 2880 1800 (2880 / 2 + bcx) (1800 / 2 + bcy)"
    using bc by (simp add: inBounds_def)
  from poisson_const[of 2880 1800 rbg "1 / 16" 29, OF _ _ _ _ _ inb2[unfolded bcx_def bcy_def] N2] rbg
  obtain bgPts where p2: "poisson 2880 1800 rbg 30 (\<lambda>k. 1 / 16) = Some (Inr (bgPts, \<lambda>k. 1 / 16))"
    by auto
  obtain bs g4 where bg: "makeBgNodes 2880 1800 bgSpacing bgPts 0 60 (\<lambda>k. 1 / 16) = (bs, g4)"
    by (cases "makeBgNodes 2880 1800 bgSpacing bgPts 0 60 (\<lambda>k. 1 / 16 :: real)")
  have g4: "g4 = (\<lambda>k. 1 / 16)"
    using makeBgNodes_stream[of 2880 1800 bgSpacing bgPts 0 60 "1 / 16"] bg by simp
  have ur: "unit_rng (\<lambda>k. 1 / 16 :: real)" by (rule unit_rng_const) simp_all
  have len: "length bs = 60"
    using makeBgNodes_ok[OF ur, of 2880 1800 bgSpacing bgPts 0 60] bg by simp
  have s: "setupNodesEven CONFIG e
        = Some (Inr (e\<lparr>nodes := ns, movingFlags := replicate 100 1,
                       bgNodes := bs, random := (\<lambda>k. 1 / 16)\<rparr>))"
    unfolding setupNodesEven_def tc Let_def prod.case
      area_def[symmetric] spacing_def[symmetric] r_def[symmetric] bgSpacing_def[symmetric] rbg_def[symmetric]
    using mk by (simp add: e p1 p2 bg g4)
  have nth: "ns ! i = nodeAt 2880 1800 spacing pts i" if "i < 100" for i
    using that by (simp add: ns_def)
  have sp0: "0 \<le> spacing" using sp by simp
  have J: "spacing * (2 / 10) * (1 / 16) \<le> 3" using sp by simp
  have f: "\<forall>i < 100. n_z (ns ! i) = 1 / 16 \<and> n_seedPhase (ns ! i) = 1 / 16 * (15 / 100) * pi * 2 \<and>
                       n_ox (ns ! i) = n_x (ns ! i) \<and> n_oy (ns ! i) = n_y (ns ! i)"
    by (simp add: nth nodeAt_fields)
  have far: "\<forall>i < 100. \<forall>j < 100. nodeDist (ns ! i) (ns ! j) \<noteq> 0 \<longrightarrow> 55 \<le> nodeDist (ns ! i) (ns ! j)"
  proof (intro allI impI)
    fix i j :: nat assume i: "i < 100" and j: "j < 100" and nz: "nodeDist (ns ! i) (ns ! j) \<noteq> 0"
    have "i mod length pts \<noteq> j mod length pts"
      using nz node_same[of i pts j 2880 1800 spacing] by (auto simp add: nth[OF i] nth[OF j])
    from node_apart[OF ne inb sp0 _ spc this] r(1)
    have "r / 2 - 2 * (spacing * (2 / 10) * (1 / 16)) \<le> nodeDist (ns ! i) (ns ! j)"
      by (simp add: nth[OF i] nth[OF j])
    then show "55 \<le> nodeDist (ns ! i) (ns ! j)" using r(1) J by linarith
  qed
  have m: "0 mod length pts = 0" "1 mod length pts = 1" using p(1) by simp_all
  have d01: "0 mod length pts \<noteq> 1 mod length pts" unfolding m by simp
  have lo: "nodeDist (ns ! 0) (ns ! 1) \<noteq> 0"
  proof -
    from node_apart[OF ne inb sp0 _ spc d01] r(1)
    have "r / 2 - 2 * (spacing * (2 / 10) * (1 / 16)) \<le> nodeDist (ns ! 0) (ns ! 1)"
      by (simp add: nth)
    then show ?thesis using r(1) J by linarith
  qed
  have hi: "nodeDist (ns ! 0) (ns ! 1) \<le> 1000"
  proof -
    have "nodeDist (ns ! 0) (ns ! 1)
         \<le> \<bar>s_x (pts ! 0) - s_x (pts ! 1)\<bar> + \<bar>s_y (pts ! 0) - s_y (pts ! 1)\<bar>
           + 4 * (spacing * (2 / 10) * (1 / 16))"
      using node_within[OF ne inb sp0, of 0 1] unfolding m by (simp add: nth)
    also have "\<dots> = cx + cy + 4 * (spacing * (2 / 10) * (1 / 16))"
      unfolding p(2,3) using c by simp
    finally show ?thesis using c J by linarith
  qed
  have l: "length ns = 100" by (simp add: ns_def)
  show ?thesis using s l len f far lo hi by blast
qed

lemma collectCandidates_stream:
  "snd (collectCandidates cfg ns flags maxDist degrees seen i js cands (\<lambda>k. v)) = (\<lambda>k. v)"
  by (induction js arbitrary: cands) (simp_all add: random_const Let_def)

lemma connectCandidates_random:
  "lb_random (connectCandidates cfg flags i cands b) = lb_random b"
  by (induction cands arbitrary: b) (simp_all add: Let_def)

lemma buildLoop_stream:
  "lb_random b = (\<lambda>k. v) \<Longrightarrow> lb_random (buildLoop cfg ns flags maxDist indices b) = (\<lambda>k. v)"
proof (induction indices arbitrary: b)
  case Nil
  then show ?case by simp
next
  case (Cons i indices)
  obtain cands g where cc:
    "collectCandidates cfg ns flags maxDist (lb_degrees b) (lb_seen b) i [0 ..< length ns] [] (lb_random b) = (cands, g)"
    by (cases "collectCandidates cfg ns flags maxDist (lb_degrees b) (lb_seen b) i [0 ..< length ns] [] (lb_random b)")
  have g: "g = (\<lambda>k. v)"
    using collectCandidates_stream[of cfg ns flags maxDist "lb_degrees b" "lb_seen b" i "[0 ..< length ns]" "[]" v]
      cc Cons.prems by simp
  have a: "lb_random (b\<lparr>lb_random := g\<rparr>) = (\<lambda>k. v)" using g by simp
  have c: "lb_random (connectCandidates cfg flags i (sort_key (\<lambda>c. - c_weight c) cands) (b\<lparr>lb_random := g\<rparr>)) = (\<lambda>k. v)"
    using g by (simp add: connectCandidates_random)
  show ?case
    using Cons.IH[OF Cons.prems] Cons.IH[OF a] Cons.IH[OF c] cc by (simp add: Let_def)
qed

lemma buildLinks_stream:
  assumes "random e = (\<lambda>k. v)"
  shows "random (buildLinks cfg e) = (\<lambda>k. v)"
proof -
  obtain indices g where s: "shuffleArray [0 ..< length (nodes e)] (\<lambda>k. v) = (indices, g)"
    by (cases "shuffleArray [0 ..< length (nodes e)] (\<lambda>k. v)")
  have g: "g = (\<lambda>k. v)"
    using shuffleLoop_const[of "length [0 ..< length (nodes e)] - 1" "[0 ..< length (nodes e)]" v] s
    by (simp add: shuffleArray_def)
  have "lb_random (buildLoop cfg (nodes e) (movingFlags e) (linkDistanceMax e) indices
          \<lparr>lb_degrees = replicate (length (nodes e)) 0, lb_links = [], lb_seen = {}, lb_random = g\<rparr>) = (\<lambda>k. v)"
    by (rule buildLoop_stream) (simp add: g)
  then show ?thesis using assms by (simp add: buildLinks_def s Let_def)
qed

lemma collectBgEdges_stream:
  "snd (collectBgEdges bs maxDist pairs edges (\<lambda>k. v)) = (\<lambda>k. v)"
proof (induction pairs arbitrary: edges)
  case Nil
  then show ?case by simp
next
  case (Cons p pairs)
  obtain i j where p: "p = (i, j)" by (cases p)
  show ?case unfolding p using Cons.IH by (simp add: random_const Let_def)
qed

lemma buildBgLinks_stream:
  assumes "random e = (\<lambda>k. v)"
  shows "random (buildBgLinks cfg e) = (\<lambda>k. v)"
proof -
  obtain edges g where c: "collectBgEdges (bgNodes e) (bgLinkDistanceMax e) (bgPairs (length (bgNodes e))) [] (\<lambda>k. v) = (edges, g)"
    by (cases "collectBgEdges (bgNodes e) (bgLinkDistanceMax e) (bgPairs (length (bgNodes e))) [] (\<lambda>k. v)")
  have "g = (\<lambda>k. v)"
    using collectBgEdges_stream[of "bgNodes e" "bgLinkDistanceMax e" "bgPairs (length (bgNodes e))" "[]" v] c by simp
  then show ?thesis using assms c by (simp add: buildBgLinks_def Let_def)
qed

lemma linkKey_range: "a < n \<Longrightarrow> b < n \<Longrightarrow> linkKey a b \<in> {..< n} \<times> {..< n}"
  by (simp add: linkKey_def)

lemma linksInv_length:
  assumes "linksInv cfg ns flags maxDist b"
  shows "length (lb_links b) \<le> length ns * length ns"
proof -
  have d: "distinct (linkKeys (lb_links b))" and ok: "list_all (linkOK ns maxDist) (lb_links b)"
    using assms by (simp_all add: linksInv_def)
  have sub: "set (linkKeys (lb_links b)) \<subseteq> {..< length ns} \<times> {..< length ns}"
  proof
    fix k assume "k \<in> set (linkKeys (lb_links b))"
    then obtain L where L: "L \<in> set (lb_links b)" "k = linkKey (l_ai L) (l_bi L)"
      by (auto simp add: linkKeys_def)
    have "l_ai L < length ns" "l_bi L < length ns"
      using ok L(1) by (simp_all add: list_all_iff linkOK_def)
    then show "k \<in> {..< length ns} \<times> {..< length ns}" unfolding L(2) by (rule linkKey_range)
  qed
  have "length (lb_links b) = length (linkKeys (lb_links b))" by (simp add: linkKeys_def)
  also have "\<dots> = card (set (linkKeys (lb_links b)))" using d by (simp add: distinct_card)
  also have "\<dots> \<le> card ({..< length ns} \<times> {..< length ns})"
    by (rule card_mono[OF _ sub]) simp
  finally show ?thesis by simp
qed

lemma wide_scaling:
  "nodeMax (applyResponsiveScaling CONFIG 2880 1800 e) = 100"
  "bgNodeMax (applyResponsiveScaling CONFIG 2880 1800 e) = 60"
  "linkDistanceMax (applyResponsiveScaling CONFIG 2880 1800 e) = 1000"
  "pulseMaxActive (applyResponsiveScaling CONFIG 2880 1800 e) = 2"
  by (simp_all add: applyResponsiveScaling_def CONFIG_def BASELINE_AREA_def Let_def clamp_def Math_round_def)

lemma hypot_sym: "Math_hypot (a - b) (c - d) = Math_hypot (b - a) (d - c)"
proof -
  have "(a - b) * (a - b) + (c - d) * (c - d) = (b - a) * (b - a) + (d - c) * (d - c)"
    by (simp add: algebra_simps)
  then show ?thesis by (simp only: Math_hypot_def)
qed

lemma nodeDist_sym: "nodeDist a b = nodeDist b a"
  unfolding nodeDist_def by (rule hypot_sym)

text \<open>
  The constructor on the viewport of 2880 by 1800 returns a swarm of 100 near nodes with
  links of at least 55, a pulse cap of 2 and no pulse.
\<close>

lemma wide_constructed:
  "newEngine CONFIG 2880 1800 0 (\<lambda>k. 1 / 16) = Some (Inr wideEngine)"
  "nearSwarm 55 wideEngine"
  "length (nodes wideEngine) = 100" "length (bgNodes wideEngine) = 60"
  "pulses wideEngine = []" "lastPulseSpawn wideEngine = 0" "pulseMaxActive wideEngine = 2"
proof -
  define e0 where "e0 = \<lparr>resizePrevW = js_or 2880 1, resizePrevH = js_or 1800 1,
                nodes = [], bgNodes = [], links = [], dynamicLinks = [], staticLinks = [], bgLinks = [],
                movingFlags = [],
                bgDirX = cos (js_or (BG_DRIFT_HEADING_DEG CONFIG * pi / 180) 0),
                bgDirY = sin (js_or (BG_DRIFT_HEADING_DEG CONFIG * pi / 180) 0),
                nodeMax = NODE_COUNT CONFIG, bgNodeMax = BG_NODE_COUNT CONFIG,
                linkDistanceMax = MAX_LINK_DISTANCE CONFIG, bgLinkDistanceMax = BG_LINK_MAX_DISTANCE CONFIG,
                pulseMaxActive = real (PULSE_MAX_ACTIVE CONFIG),
                width = 0, height = 0,
                pulsePool = [], pulses = [], lastPulseSpawn = 0,
                globalOffsetX = 0, globalOffsetY = 0, bgOffsetX = 0, bgOffsetY = 0,
                loopStart = 0, startPhase = 0, random = (\<lambda>k. 1 / 16)\<rparr>"
  define e1 where "e1 = (applyResponsiveScaling CONFIG 2880 1800 (e0\<lparr>resizePrevW := 2880, resizePrevH := 1800\<rparr>))
                          \<lparr>width := 2880, height := 1800\<rparr>"
  define e2 where "e2 = e1\<lparr>pulsePool := newPool (PULSE_POOL_SIZE CONFIG), pulses := [], lastPulseSpawn := 0,
                          globalOffsetX := 0, globalOffsetY := 0, bgOffsetX := 0, bgOffsetY := 0,
                          loopStart := 0, startPhase := 0 * (pi * 2), random := (\<lambda>k. 1 / 16)\<rparr>"
  have f1: "random e1 = (\<lambda>k. 1 / 16)" by (simp add: e1_def e0_def applyResponsiveScaling_frame)
  have f2: "width e2 = 2880" "height e2 = 1800" "nodeMax e2 = 100" "bgNodeMax e2 = 60"
    "random e2 = (\<lambda>k. 1 / 16)" "linkDistanceMax e2 = 1000" "pulseMaxActive e2 = 2"
    "pulses e2 = []" "lastPulseSpawn e2 = 0"
    by (simp_all add: e2_def e1_def wide_scaling)
  from wide_setup[OF f2(1-5)] obtain ns bs where
    s: "setupNodesEven CONFIG e2
            = Some (Inr (e2\<lparr>nodes := ns, movingFlags := replicate 100 1,
                           bgNodes := bs, random := (\<lambda>k. 1 / 16)\<rparr>))"
    and nl: "length ns = 100" and bl: "length bs = 60"
    and nf: "\<forall>i < 100. n_z (ns ! i) = 1 / 16 \<and> n_seedPhase (ns ! i) = 1 / 16 * (15 / 100) * pi * 2 \<and>
                       n_ox (ns ! i) = n_x (ns ! i) \<and> n_oy (ns ! i) = n_y (ns ! i)"
    and apart: "\<forall>i < 100. \<forall>j < 100. nodeDist (ns ! i) (ns ! j) \<noteq> 0 \<longrightarrow> 55 \<le> nodeDist (ns ! i) (ns ! j)"
    and d01: "nodeDist (ns ! 0) (ns ! 1) \<noteq> 0" "nodeDist (ns ! 0) (ns ! 1) \<le> 1000"
    by blast
  define e3 where "e3 = e2\<lparr>nodes := ns, movingFlags := replicate 100 1,
                           bgNodes := bs, random := (\<lambda>k. 1 / 16)\<rparr>"
  define e4 where "e4 = buildBgLinks CONFIG (buildLinks CONFIG e3)"
  have new: "newEngine CONFIG 2880 1800 0 (\<lambda>k. 1 / 16) = Some (Inr e4)"
    unfolding newEngine_def e0_def[symmetric] Let_def resize_first e1_def[symmetric]
    using s by (simp add: f1 random_const e2_def e3_def e4_def)
  then have w: "wideEngine = e4" by (simp add: wideEngine_def)
  show "newEngine CONFIG 2880 1800 0 (\<lambda>k. 1 / 16) = Some (Inr wideEngine)" using new w by simp
  have f3: "nodes e3 = ns" "movingFlags e3 = replicate 100 1"
    "bgNodes e3 = bs" "random e3 = (\<lambda>k. 1 / 16)" "linkDistanceMax e3 = 1000" "pulseMaxActive e3 = 2"
    "pulses e3 = []" "lastPulseSpawn e3 = 0"
    by (simp_all add: e3_def f2)
  have f4: "nodes e4 = ns" "movingFlags e4 = replicate 100 1"
    "bgNodes e4 = bs" "pulseMaxActive e4 = 2" "pulses e4 = []" "lastPulseSpawn e4 = 0"
    "links e4 = links (buildLinks CONFIG e3)" "dynamicLinks e4 = dynamicLinks (buildLinks CONFIG e3)"
    by (simp_all add: e4_def buildBgLinks_frame buildLinks_frame f3)
  show "length (nodes wideEngine) = 100" "length (bgNodes wideEngine) = 60"
    "pulses wideEngine = []" "lastPulseSpawn wideEngine = 0" "pulseMaxActive wideEngine = 2"
    by (simp_all add: w f4 bl nl)
  have rnd: "random e4 = (\<lambda>k. 1 / 16)"
    unfolding e4_def by (intro buildBgLinks_stream buildLinks_stream f3(4))
  have ur: "unit_rng (\<lambda>k. 1 / 16 :: real)" by (rule unit_rng_const) simp_all
  have caps: "MAX_LINKS_DYNAMIC CONFIG \<le> 32767" "MAX_LINKS_STATIC CONFIG \<le> 32767"
    "0 < MAX_LINKS_DYNAMIC CONFIG" "0 < MAX_LINKS_STATIC CONFIG"
    by (simp_all add: CONFIG_def)
  have u3: "unit_rng (random e3)" by (simp add: f3 ur)
  have n3: "length (nodes e3) < 2147483648" by (simp add: f3 nl)
  from buildLinks_inv[OF caps(1,2) u3 n3] obtain b where
    b: "links (buildLinks CONFIG e3) = lb_links b"
    and inv: "linksInv CONFIG (nodes e3) (movingFlags e3) (linkDistanceMax e3) b" by blast
  have ok: "list_all (linkOK ns 1000) (links e4)"
    using inv by (simp add: linksInv_def f4 b f3)
  have ll: "length (links e4) \<le> 10000"
    using linksInv_length[OF inv] by (simp add: f4 b f3 nl)
  have ne: "links e4 \<noteq> []"
    unfolding f4(7)
    by (rule buildLinks_nonempty[OF caps u3 n3, of 0 1]) (use d01 in \<open>simp_all add: f3 nl\<close>)
  have dl: "dynamicLinks e4
            = filter (\<lambda>idx. linkIsDynamic (movingFlags e3) (links e4 ! idx)) [0 ..< length (links e4)]"
    by (simp add: f4 buildLinks_def Let_def split: prod.splits)
  have wf: "wfLinks e4"
    unfolding wfLinks_def
  proof (intro conjI)
    show "list_all (\<lambda>L. l_ai L < length (nodes e4) \<and> l_bi L < length (nodes e4)) (links e4)"
      using ok by (simp add: list_all_iff linkOK_def f4)
    show "list_all (\<lambda>idx. idx < length (links e4)) (dynamicLinks e4)"
      by (simp add: dl list_all_iff)
    show "length (links e4) < 2147483648" using ll by simp
    have "length (dynamicLinks e4) \<le> length [0 ..< length (links e4)]"
      unfolding dl by (rule length_filter_le)
    then show "length (dynamicLinks e4) < 2147483648" using ll by simp
    show "unit_rng (random e4)" by (simp add: rnd ur)
  qed
  have mv: "list_all (\<lambda>i. moving (movingFlags e4) i \<and> n_z (nodes e4 ! i) < 4 / 10 \<and>
                          n_seedPhase (nodes e4 ! i) = n_seedPhase (nodes e4 ! 0))
              [0 ..< length (nodes e4)]"
    unfolding list_all_iff
  proof
    fix i assume "i \<in> set [0 ..< length (nodes e4)]"
    then have i: "i < 100" by (simp add: f4 nl)
    have z: "n_z (ns ! i) = 1 / 16" and sd: "n_seedPhase (ns ! i) = 1 / 16 * (15 / 100) * pi * 2"
      and s0: "n_seedPhase (ns ! 0) = 1 / 16 * (15 / 100) * pi * 2"
      using nf i by simp_all
    have "moving (movingFlags e4) i" using i by (simp add: f4 moving_def)
    moreover have "n_z (nodes e4 ! i) < 4 / 10" unfolding f4 z by simp
    moreover have "n_seedPhase (nodes e4 ! i) = n_seedPhase (nodes e4 ! 0)" unfolding f4 sd s0 ..
    ultimately show "moving (movingFlags e4) i \<and> n_z (nodes e4 ! i) < 4 / 10 \<and>
                          n_seedPhase (nodes e4 ! i) = n_seedPhase (nodes e4 ! 0)" by simp
  qed
  have far: "list_all (\<lambda>L. 55 \<le> originDist e4 L) (links e4)"
    unfolding list_all_iff
  proof
    fix L assume "L \<in> set (links e4)"
    then have o: "linkOK ns 1000 L" using ok by (simp add: list_all_iff)
    then have ab: "l_ai L < 100" "l_bi L < 100"
      and nz: "nodeDist (ns ! l_ai L) (ns ! l_bi L) \<noteq> 0"
      by (auto simp add: linkOK_def nl)
    have "nodeDist (ns ! l_bi L) (ns ! l_ai L) \<noteq> 0" using nz by (simp add: nodeDist_sym)
    then have "55 \<le> nodeDist (ns ! l_bi L) (ns ! l_ai L)" using apart ab by blast
    then show "55 \<le> originDist e4 L"
      using nf ab by (simp add: originDist_def nodeDist_def f4)
  qed
  show "nearSwarm 55 wideEngine"
    unfolding w nearSwarm_def using wf ne mv far by simp
qed

lemma orbit_diff:
  assumes "n_seedPhase a = n_seedPhase b"
  shows "n_x (orbit th ph rx ry b) - n_x (orbit th ph rx ry a) = n_ox b - n_ox a"
    and "n_y (orbit th ph rx ry b) - n_y (orbit th ph rx ry a) = n_oy b - n_oy a"
  using assms by (simp_all add: orbit_def Let_def)

lemma moveNode_near:
  assumes "moving (movingFlags e) i" and "n_z n < 4 / 10" and "zMin b1 = 4 / 10"
  shows "moveNode cfg e now b0 b1 i n
         = orbit (nearTheta cfg e now) (js_or (headingRad b0) 0)
             (js_or (ELLIPSE_RADIUS_NEAR_X cfg) 0 * (minDim e / 900))
             (js_or (ELLIPSE_RADIUS_NEAR_Y cfg) 0 * (minDim e / 900)) n"
  using assms by (simp add: moveNode_def Let_def js_or_def)

lemma CONFIG_band1:
  "js_nth (PARALLAX_BANDS CONFIG) 0 = Some b0 \<Longrightarrow> js_nth (PARALLAX_BANDS CONFIG) 1 = Some b1 \<Longrightarrow>
   zMin b1 = 4 / 10"
  by (auto simp add: CONFIG_def js_nth_def)

lemma swarm_motion:
  assumes sw: "nearSwarm D e" and m: "updateMotion CONFIG now e = Inr e1"
  shows "nearSwarm D e1"
    and "\<And>L. L \<in> set (links e) \<Longrightarrow>
           Math_hypot (n_x (nodes e1 ! l_bi L) - n_x (nodes e1 ! l_ai L))
                      (n_y (nodes e1 ! l_bi L) - n_y (nodes e1 ! l_ai L)) = originDist e L"
proof -
  note f = updateMotion_Inr[OF m]
  from f(1) obtain b0 b1 where b: "js_nth (PARALLAX_BANDS CONFIG) 0 = Some b0"
    "js_nth (PARALLAX_BANDS CONFIG) 1 = Some b1"
    and ns: "nodes e1 = map (\<lambda>(i, n). moveNode CONFIG e now b0 b1 i n) (zip [0 ..< length (nodes e)] (nodes e))"
    by blast
  note z1 = CONFIG_band1[OF b]
  have len: "length (nodes e1) = length (nodes e)" by (simp add: ns)
  have nth: "nodes e1 ! i = moveNode CONFIG e now b0 b1 i (nodes e ! i)" if "i < length (nodes e)" for i
    using that by (simp add: ns)
  have wf: "wfLinks e" and ne: "links e \<noteq> []"
    and mv: "\<And>i. i < length (nodes e) \<Longrightarrow>
               moving (movingFlags e) i \<and> n_z (nodes e ! i) < 4 / 10 \<and>
               n_seedPhase (nodes e ! i) = n_seedPhase (nodes e ! 0)"
    and far: "\<And>L. L \<in> set (links e) \<Longrightarrow> D \<le> originDist e L"
    using sw by (simp_all add: nearSwarm_def list_all_iff)
  have wf1: "wfLinks e1" by (rule updateMotion_wf[OF wf m])
  have o: "originDist e1 L = originDist e L" if "L \<in> set (links e)" for L
  proof -
    have "l_ai L < length (nodes e)" "l_bi L < length (nodes e)"
      using wf that by (simp_all add: wfLinks_def list_all_iff)
    then show ?thesis by (simp add: originDist_def nth moveNode_frame)
  qed
  have s0: "n_seedPhase (nodes e1 ! 0) = n_seedPhase (nodes e ! 0)" if "i < length (nodes e)" for i
  proof -
    have "0 < length (nodes e)" using that by linarith
    then show ?thesis by (simp add: nth moveNode_frame)
  qed
  show "nearSwarm D e1"
    unfolding nearSwarm_def list_all_iff
    using wf1 ne mv far o s0 by (simp add: f len nth moveNode_frame)
  show "Math_hypot (n_x (nodes e1 ! l_bi L) - n_x (nodes e1 ! l_ai L))
                   (n_y (nodes e1 ! l_bi L) - n_y (nodes e1 ! l_ai L)) = originDist e L"
    if "L \<in> set (links e)" for L
  proof -
    have ab: "l_ai L < length (nodes e)" "l_bi L < length (nodes e)"
      using wf that by (simp_all add: wfLinks_def list_all_iff)
    have s: "n_seedPhase (nodes e ! l_ai L) = n_seedPhase (nodes e ! l_bi L)"
      using mv[OF ab(1)] mv[OF ab(2)] by simp
    show ?thesis
      unfolding originDist_def nth[OF ab(1)] nth[OF ab(2)]
        moveNode_near[OF conjunct1[OF mv[OF ab(1)]] conjunct1[OF conjunct2[OF mv[OF ab(1)]]] z1]
        moveNode_near[OF conjunct1[OF mv[OF ab(2)]] conjunct1[OF conjunct2[OF mv[OF ab(2)]]] z1]
        orbit_diff[OF s] ..
  qed
qed

lemma update_bgNodes:
  assumes "update cfg dt now e = Inr e'"
  shows "bgNodes e' = bgNodes e"
proof -
  from update_parts[OF assms] obtain e1 e2 where
    m: "updateMotion cfg now e = Inr e1" and s: "spawnPulse cfg now e1 = Inr e2" and a: "e' = advance cfg dt e2"
    by blast
  have 1: "bgNodes e1 = bgNodes e"
    using m by (auto simp add: updateMotion_def Let_def split: option.splits prod.splits)
  have 2: "bgNodes e2 = bgNodes e1"
    using s by (auto simp add: spawnPulse_def Let_def split: option.splits prod.splits if_splits)
  have 3: "bgNodes e' = bgNodes e2"
    unfolding a by (simp add: advance_def Let_def split: prod.splits)
  show ?thesis using 1 2 3 by simp
qed

text \<open>
  A simulation step of 100/3 ms on such a swarm, when a spawn is due and the cap leaves
  room: a pulse is spawned, and no pulse that was at most a third of its way arrives.
\<close>

lemma swarm_step:
  assumes sw: "nearSwarm 55 e"
    and due: "1000 \<le> now - lastPulseSpawn e" and room: "real (pulsesLen e) < pulseMaxActive e"
    and live: "list_all (\<lambda>p. p_active p \<and> 55 \<le> p_dist p \<and> p_t p \<le> 1 / 3) (pulses e)"
  shows "\<exists>e'. update CONFIG (100 / 3) now e = Inr e' \<and> nearSwarm 55 e' \<and>
              pulsesLen e' = Suc (pulsesLen e) \<and> lastPulseSpawn e' = now \<and>
              pulseMaxActive e' = pulseMaxActive e \<and>
              (pulses e = [] \<longrightarrow>
                 list_all (\<lambda>p. p_active p \<and> 55 \<le> p_dist p \<and> p_t p \<le> 1 / 3) (pulses e'))"
proof -
  from updateMotion_ok[OF CONFIG_bands] obtain e1 where m: "updateMotion CONFIG now e = Inr e1" by blast
  note f = updateMotion_Inr(2-)[OF m]
  note sw1 = swarm_motion(1)[OF sw m] and dist = swarm_motion(2)[OF sw m]
  have wf1: "wfLinks e1" and ne1: "links e1 \<noteq> []" using sw1 by (simp_all add: nearSwarm_def)
  have far: "\<And>L. L \<in> set (links e) \<Longrightarrow> 55 \<le> originDist e L"
    using sw by (simp add: nearSwarm_def list_all_iff)
  obtain p pool where pg: "pool_get (pulsePool e1) = (p, pool)" by (cases "pool_get (pulsePool e1)")
  from pickLink_some[OF ne1 wf1] obtain li g where
    pl: "pickLink e1 = (Some li, g)" and li: "0 \<le> li" "nat li < length (links e1)" by blast
  define L where "L = links e1 ! nat li"
  have Lm: "L \<in> set (links e)" using li(2) by (simp add: L_def f)
  have jl: "js_nth (links e1) li = Some L" unfolding L_def by (rule js_nth_Some[OF li])
  have ab: "l_ai L < length (nodes e1)" "l_bi L < length (nodes e1)"
    using wf1 Lm by (simp_all add: wfLinks_def list_all_iff f)
  define d where "d = max 1 (Math_hypot (n_x (nodes e1 ! l_bi L) - n_x (nodes e1 ! l_ai L))
                                       (n_y (nodes e1 ! l_bi L) - n_y (nodes e1 ! l_ai L)))"
  have d: "55 \<le> d" unfolding d_def dist[OF Lm] using far[OF Lm] by simp
  define pn where "pn = p\<lparr>p_linkIndex := li, p_dist := d, p_t := 0, p_active := True\<rparr>"
  define e2 where "e2 = e1\<lparr>pulsePool := pool, pulses := pulses e1 @ [pn], lastPulseSpawn := now, random := g\<rparr>"
  have c: "PULSE_SPAWN_EVERY_MS CONFIG \<le> now - lastPulseSpawn e1 \<and> real (pulsesLen e1) < pulseMaxActive e1"
    using due room by (simp add: f pulsesLen_def CONFIG_def)
  have s: "spawnPulse CONFIG now e1 = Inr e2"
    using c li(1) by (simp add: spawnPulse_def pg pl jl js_nth_int[OF ab(1)] js_nth_int[OF ab(2)]
        Let_def e2_def pn_def d_def)
  define e' where "e' = advance CONFIG (100 / 3) e2"
  have u: "update CONFIG (100 / 3) now e = Inr e'"
    by (simp add: update_def m s e'_def)
  have ti: "PULSE_SPEED CONFIG * (100 / 3 / 1000) = 50 / 3" by (simp add: CONFIG_def)
  have all: "list_all (\<lambda>p. p_active p \<and> 55 \<le> p_dist p \<and> p_t p \<le> 1 / 3) (pulses e2)"
    using live d by (simp add: e2_def f pn_def)
  have keep: "\<not> 1 \<le> p_t (advanceOne (50 / 3) q)" "p_active (advanceOne (50 / 3) q)"
    "55 \<le> p_dist (advanceOne (50 / 3) q)" "p_t (advanceOne (50 / 3) q) \<le> p_t q + 1 / 3"
    if "p_active q \<and> 55 \<le> p_dist q \<and> p_t q \<le> 1 / 3" for q
  proof -
    have q: "55 \<le> p_dist q" "p_t q \<le> 1 / 3" "p_active q" using that by simp_all
    have "50 / 3 / p_dist q \<le> 50 / 3 / 55"
      using q(1) by (intro divide_left_mono) simp_all
    then have i: "50 / 3 / p_dist q \<le> 1 / 3" by simp
    show "\<not> 1 \<le> p_t (advanceOne (50 / 3) q)" using i q(2) by (simp add: advanceOne_def)
    show "p_active (advanceOne (50 / 3) q)" using q(3) by (simp add: advanceOne_def)
    show "55 \<le> p_dist (advanceOne (50 / 3) q)" using q(1) by (simp add: advanceOne_def)
    show "p_t (advanceOne (50 / 3) q) \<le> p_t q + 1 / 3" using i by (simp add: advanceOne_def)
  qed
  have fa: "filter p_active (pulses e2) = pulses e2"
    using all by (simp add: list_all_iff)
  have "filter (\<lambda>p. \<not> 1 \<le> p_t p) (map (advanceOne (50 / 3)) (pulses e2)) = map (advanceOne (50 / 3)) (pulses e2)"
    using all keep(1) by (simp add: list_all_iff)
  then have pe: "pulses e' = map (advanceOne (50 / 3)) (pulses e2)"
    unfolding e'_def advance_pulses ti fa .
  have len: "pulsesLen e' = Suc (pulsesLen e)"
    by (simp add: pulsesLen_def pe e2_def f)
  have fr: "lastPulseSpawn e' = now" "pulseMaxActive e' = pulseMaxActive e"
    by (simp_all add: e'_def advance_def Let_def e2_def f split: prod.splits)
  have first: "list_all (\<lambda>p. p_active p \<and> 55 \<le> p_dist p \<and> p_t p \<le> 1 / 3) (pulses e')" if "pulses e = []"
  proof -
    have "pulses e2 = [pn]" using that by (simp add: e2_def f)
    moreover have "p_active pn \<and> 55 \<le> p_dist pn \<and> p_t pn \<le> 1 / 3" using d by (simp add: pn_def)
    moreover have "p_t pn = 0" by (simp add: pn_def)
    ultimately show ?thesis using keep[of pn] by (simp add: pe)
  qed
  have sw2: "nearSwarm 55 e2"
    using sw1 wf1 spawnPulse_wf[OF wf1 s]
    by (simp add: nearSwarm_def e2_def originDist_def)
  have "nearSwarm 55 e'"
    using sw2 advance_wf[of e2 CONFIG "100 / 3"]
    by (simp add: nearSwarm_def e'_def advance_frame originDist_def)
  then show ?thesis using u len fr first by blast
qed

lemma counts_1800:
  assumes "length (nodes e) = 100" and "length (bgNodes e) = 60"
  shows "countsUnchanged CONFIG 1800 1125 e"
proof -
  have "nodes e \<noteq> []" using assms(1) by auto
  then show ?thesis
    using assms
    by (simp add: countsUnchanged_def afterScaling_def applyResponsiveScaling_def getTargetCounts_def
        CONFIG_def BASELINE_AREA_def Let_def clamp_def Math_round_def)
qed

lemma cap_1800: "pulseMaxActive (applyResponsiveScaling CONFIG 1800 1125 e) = 1"
  by (simp add: applyResponsiveScaling_def CONFIG_def BASELINE_AREA_def Let_def clamp_def Math_round_def
        sqrt_25_16)

lemma update_length:
  assumes "update cfg dt now e = Inr e'"
  shows "length (nodes e') = length (nodes e)"
  using update_nodes[OF assms] by auto

text \<open>
  The execution: constructor, a step at time 1000 and a step at time 2000 (each spawns a
  pulse), then the resize event to 1800 by 1125, which lowers the cap to 1.
\<close>

lemma crowded_run:
  "update CONFIG (100 / 3) 1000 wideEngine = Inr (projr (update CONFIG (100 / 3) 1000 wideEngine))"
  "update CONFIG (100 / 3) 2000 (projr (update CONFIG (100 / 3) 1000 wideEngine)) = Inr crowdedEngine"
  "resize CONFIG False 1800 1125 crowdedEngine = Some (Inr shrunkEngine)"
  "reachable CONFIG crowdedEngine" "reachable CONFIG shrunkEngine"
  "pulsesLen crowdedEngine = 2" "pulseMaxActive crowdedEngine = 2"
  "pulsesLen shrunkEngine = 2" "pulseMaxActive shrunkEngine = 1"
proof -
  note w = wide_constructed
  have r0: "reachable CONFIG wideEngine" by (rule reachable.constructed[OF w(1)])
  from swarm_step[OF w(2), of 1000] w(5,6,7)
  obtain e1 where u1: "update CONFIG (100 / 3) 1000 wideEngine = Inr e1" and s1: "nearSwarm 55 e1"
    and p1: "pulsesLen e1 = 1" "lastPulseSpawn e1 = 1000" "pulseMaxActive e1 = 2"
    and l1: "list_all (\<lambda>p. p_active p \<and> 55 \<le> p_dist p \<and> p_t p \<le> 1 / 3) (pulses e1)"
    by (auto simp add: pulsesLen_def)
  have e1: "projr (update CONFIG (100 / 3) 1000 wideEngine) = e1" by (simp add: u1)
  from swarm_step[OF s1, of 2000] p1 l1
  obtain e2 where u2: "update CONFIG (100 / 3) 2000 e1 = Inr e2"
    and p2: "pulsesLen e2 = 2" "pulseMaxActive e2 = 2"
    by auto
  have e2: "crowdedEngine = e2" by (simp add: crowdedEngine_def e1 u2)
  have n2: "length (nodes e2) = 100" "length (bgNodes e2) = 60"
    using update_length[OF u2] update_length[OF u1] update_bgNodes[OF u2] update_bgNodes[OF u1] w(3,4)
    by simp_all
  note rr = resize_rescale[OF counts_1800[OF n2]]
  have e3: "resize CONFIG False 1800 1125 e2 = Some (Inr shrunkEngine)"
    by (simp add: shrunkEngine_def e2 rr)
  show "update CONFIG (100 / 3) 1000 wideEngine = Inr (projr (update CONFIG (100 / 3) 1000 wideEngine))"
    by (simp add: u1)
  show "update CONFIG (100 / 3) 2000 (projr (update CONFIG (100 / 3) 1000 wideEngine)) = Inr crowdedEngine"
    by (simp add: e1 e2 u2)
  show "resize CONFIG False 1800 1125 crowdedEngine = Some (Inr shrunkEngine)"
    unfolding e2 by (rule e3)
  have r1: "reachable CONFIG e1" by (rule reachable.ticked[OF r0 u1])
  have r2: "reachable CONFIG e2" by (rule reachable.ticked[OF r1 u2])
  show "reachable CONFIG crowdedEngine" unfolding e2 by (rule r2)
  show "reachable CONFIG shrunkEngine" by (rule reachable.resized[OF r2 e3])
  show "pulsesLen crowdedEngine = 2" "pulseMaxActive crowdedEngine = 2" unfolding e2 by (rule p2)+
  show "pulsesLen shrunkEngine = 2"
    using resize_pulses(1)[OF e3] p2(1) by (simp add: pulsesLen_def)
  show "pulseMaxActive shrunkEngine = 1"
    using resize_pulses(3)[OF e3] by (simp add: cap_1800)
qed

text \<open>
  The state of that execution after the two steps is reachable and has two live pulses. The
  bounds hold for it, and the resize event to 1800 by 1125 leaves the number of live pulses
  as it is.
\<close>

theorem pulse_cap_witness:
  "reachable CONFIG crowdedEngine \<and> pulsesLen crowdedEngine = 2 \<and>
   pulsesLen crowdedEngine \<le> pulseCeiling CONFIG \<and>
   pulseMaxActive crowdedEngine \<le> real (pulseCeiling CONFIG) \<and>
   pulseCeiling CONFIG \<le> PULSE_POOL_SIZE CONFIG \<and> pulsesLen crowdedEngine \<le> PULSE_POOL_SIZE CONFIG \<and>
   resize CONFIG False 1800 1125 crowdedEngine = Some (Inr shrunkEngine) \<and>
   pulsesLen shrunkEngine = pulsesLen crowdedEngine"
proof -
  have c: "pulseCeiling CONFIG \<le> PULSE_POOL_SIZE CONFIG" by (simp add: pulseCeiling_def CONFIG_def)
  show ?thesis using pulse_cap[OF crowded_run(4)] crowded_run(3,4,6) c by blast
qed

text \<open>
  The constructor in a container of 2880 by 1800 with every draw 1/16, a simulation step at
  time 1000 and one at time 2000, then a resize event to 1800 by 1125: before the resize two
  pulses are live under a cap of 2; after it the same two pulses are live and
  \<^verbatim>\<open>pulseMaxActive\<close> is 1.
\<close>

theorem pulse_cap_counterexample:
  "newEngine CONFIG 2880 1800 0 (\<lambda>k. 1 / 16) = Some (Inr wideEngine) \<and>
   update CONFIG (100 / 3) 1000 wideEngine = Inr (projr (update CONFIG (100 / 3) 1000 wideEngine)) \<and>
   update CONFIG (100 / 3) 2000 (projr (update CONFIG (100 / 3) 1000 wideEngine)) = Inr crowdedEngine \<and>
   real (pulsesLen crowdedEngine) \<le> pulseMaxActive crowdedEngine \<and>
   resize CONFIG False 1800 1125 crowdedEngine = Some (Inr shrunkEngine) \<and>
   reachable CONFIG shrunkEngine \<and>
   pulsesLen shrunkEngine = 2 \<and> pulseMaxActive shrunkEngine = 1 \<and>
   \<not> real (pulsesLen shrunkEngine) \<le> pulseMaxActive shrunkEngine"
  using wide_constructed(1) crowded_run by simp

end
